(* ===== verification/NP_Prelude.thy ===== *)
theory NP_Prelude
  imports Complex_Main "HOL-Library.Word"
begin

text \<open>
  Shared vocabulary of the development: how a C program ends early (\<open>halt\<close>), the
  system's error numbers, C strings and the few libc string and number routines the
  sources call, and generic lemmas on lists, digits and words.

  A C string is an Isabelle \<open>string\<close> holding the characters before the terminating NUL.
  Raw memory is a list of bytes (\<open>8 word\<close>). The build configuration is the one of
  \<open>src/unpv13e/config.h\<close>: x86-64 Linux, IPv4, IPv6 and Unix domain sockets enabled, no
  \<open>sockaddr_dl\<close>.
\<close>

unbundle bit_operations_syntax

named_theorems digit_simps \<open>printing and reading numerals\<close>
named_theorems stream_simps \<open>descriptors as lists of arrivals\<close>

subsection \<open>Bytes, error numbers, early ends\<close>

type_synonym byte = "8 word"

datatype errno = EINTR | ECONNRESET | EWOULDBLOCK | EINPROGRESS | ETIMEDOUT | ENOSPC
  | EAFNOSUPPORT | EOTHER nat

text \<open>Undefined behaviour the sources can reach.\<close>

datatype ub = Buffer_overflow | Null_deref | Uninit_read | Dangling

text \<open>
  A function that does not return to its caller: \<open>err_sys\<close> and \<open>err_quit\<close> of
  \<open>lib/error.c\<close> print and exit with status 1, \<open>exit\<close> ends the process, an exception that nobody
  catches aborts it, and undefined behaviour ends what can be said of it.
\<close>

datatype halt = Err_sys string | Err_quit string | Exit_code int | Abort string | Undefined ub

type_synonym 'a outcome = "halt + 'a"

text \<open>\<open>MAXLINE\<close> of \<open>lib/unp.h\<close>.\<close>

definition MAXLINE :: nat where "MAXLINE = 4096"

subsection \<open>Address families, socket types and byte order (Linux values)\<close>

definition AF_UNSPEC :: int where "AF_UNSPEC = 0"
definition AF_LOCAL :: int where "AF_LOCAL = 1"
definition AF_INET :: int where "AF_INET = 2"
definition AF_INET6 :: int where "AF_INET6 = 10"

definition SOCK_STREAM :: int where "SOCK_STREAM = 1"
definition SOCK_DGRAM :: int where "SOCK_DGRAM = 2"
definition SOCK_RAW :: int where "SOCK_RAW = 3"

lemmas AF_defs = AF_UNSPEC_def AF_LOCAL_def AF_INET_def AF_INET6_def
lemmas SOCK_defs = SOCK_STREAM_def SOCK_DGRAM_def SOCK_RAW_def

text \<open>The bytes of a value stored in network byte order, and \<open>htons\<close> as the host sees it.\<close>

definition be16 :: "16 word \<Rightarrow> byte list" where
  "be16 w = [ucast (drop_bit 8 w), ucast w]"

definition be32 :: "32 word \<Rightarrow> byte list" where
  "be32 w = [ucast (drop_bit 24 w), ucast (drop_bit 16 w), ucast (drop_bit 8 w), ucast w]"

definition htons :: "16 word \<Rightarrow> 16 word" where
  "htons w = push_bit 8 w OR drop_bit 8 w"

subsection \<open>Numerals as text\<close>

definition dig :: "nat \<Rightarrow> char" where
  "dig d = (if d < 10 then char_of (48 + d) else char_of (87 + d))"

fun print_base :: "nat \<Rightarrow> nat \<Rightarrow> string" where
  "print_base b n =
     (if n < b \<or> b < 2 then [dig n] else print_base b (n div b) @ [dig (n mod b)])"

declare print_base.simps [simp del]

text \<open>\<open>%u\<close>, \<open>%d\<close> on a value that is not negative, and \<open>%x\<close>.\<close>

definition print_dec :: "nat \<Rightarrow> string" where
  "print_dec n = print_base 10 n"

definition print_hex :: "nat \<Rightarrow> string" where
  "print_hex n = print_base 16 n"

text \<open>\<open>%d\<close> on an \<open>int\<close>.\<close>

definition print_int :: "int \<Rightarrow> string" where
  "print_int i = (if i < 0 then CHR ''-'' # print_dec (nat (- i)) else print_dec (nat i))"

text \<open>\<open>strchr(digits, ch) - digits\<close> for the digit strings of the address parsers.\<close>

definition digit_val :: "char \<Rightarrow> nat option" where
  "digit_val c = (let k = of_char c in if 48 \<le> k \<and> k \<le> (57::nat) then Some (k - 48) else None)"

definition xdigit_val :: "char \<Rightarrow> nat option" where
  "xdigit_val c =
     (let k = of_char c in
      if 48 \<le> k \<and> k \<le> (57::nat) then Some (k - 48)
      else if 97 \<le> k \<and> k \<le> 102 then Some (k - 87)
      else if 65 \<le> k \<and> k \<le> 70 then Some (k - 55)
      else None)"

definition isdigit :: "char \<Rightarrow> bool" where
  "isdigit c = (digit_val c \<noteq> None)"

definition isspace :: "char \<Rightarrow> bool" where
  "isspace c = (c = CHR '' '' \<or> (9 \<le> (of_char c :: nat) \<and> (of_char c :: nat) \<le> 13))"

definition isxdigit :: "char \<Rightarrow> bool" where
  "isxdigit c = (xdigit_val c \<noteq> None)"

text \<open>The number a list of digits denotes, most significant first.\<close>

definition num_of :: "nat \<Rightarrow> nat list \<Rightarrow> nat" where
  "num_of b ds = foldl (\<lambda>a d. a * b + d) 0 ds"

subsection \<open>libc string routines\<close>

text \<open>\<open>strchr(s, c)\<close> and \<open>strrchr(s, c)\<close>: the offset of the first and of the last \<open>c\<close>.\<close>

fun strchr :: "string \<Rightarrow> char \<Rightarrow> nat option" where
  "strchr [] c = None"
| "strchr (x # xs) c = (if x = c then Some 0 else map_option Suc (strchr xs c))"

fun strrchr :: "string \<Rightarrow> char \<Rightarrow> nat option" where
  "strrchr [] c = None"
| "strrchr (x # xs) c =
     (case strrchr xs c of Some i \<Rightarrow> Some (Suc i) | None \<Rightarrow> if x = c then Some 0 else None)"

fun is_prefix :: "string \<Rightarrow> string \<Rightarrow> bool" where
  "is_prefix [] s = True"
| "is_prefix (p # ps) [] = False"
| "is_prefix (p # ps) (x # xs) = (p = x \<and> is_prefix ps xs)"

text \<open>\<open>strstr(s, p) != NULL\<close>.\<close>

fun strstr :: "string \<Rightarrow> string \<Rightarrow> bool" where
  "strstr [] p = (p = [])"
| "strstr (x # xs) p = (is_prefix p (x # xs) \<or> strstr xs p)"

text \<open>
  One call of \<open>strtok\<close>: skip delimiters, take the token, drop the delimiter after it.
  \<open>None\<close> is NULL; the second component is where the next call goes on.
\<close>

definition strtok :: "string \<Rightarrow> string \<Rightarrow> string option \<times> string" where
  "strtok delim s =
     (let t = dropWhile (\<lambda>c. c \<in> set delim) s;
          w = takeWhile (\<lambda>c. c \<notin> set delim) t
      in if t = [] then (None, []) else (Some w, drop (Suc (length w)) t))"

text \<open>The characters of a string as bytes.\<close>

definition bytes_of :: "string \<Rightarrow> byte list" where
  "bytes_of s = map (\<lambda>c. of_nat (of_char c)) s"

text \<open>What \<open>snprintf(buf, size, ...)\<close> leaves in \<open>buf\<close> of the formatted text, for \<open>size > 0\<close>.\<close>

definition snprintf_buf :: "nat \<Rightarrow> string \<Rightarrow> string" where
  "snprintf_buf sz s = take (sz - 1) s"

subsection \<open>Generic lemmas\<close>

lemma of_char_dig: "d < 36 \<Longrightarrow> of_char (dig d) = (if d < 10 then 48 + d else 87 + d)"
  by (simp add: dig_def)

lemma digit_val_dig [digit_simps]: "d < 10 \<Longrightarrow> digit_val (dig d) = Some d"
  by (simp add: digit_val_def of_char_dig Let_def)

lemma xdigit_val_dig [digit_simps]: "d < 16 \<Longrightarrow> xdigit_val (dig d) = Some d"
  by (simp add: xdigit_val_def of_char_dig Let_def)

lemma xdigit_val_bound: "xdigit_val c = Some d \<Longrightarrow> d < 16"
  by (auto simp: xdigit_val_def Let_def split: if_splits)

lemma digit_val_bound: "digit_val c = Some d \<Longrightarrow> d < 10"
  by (auto simp: digit_val_def Let_def split: if_splits)

lemma num_of_Nil [simp]: "num_of b [] = 0"
  by (simp add: num_of_def)

lemma num_of_snoc [simp]: "num_of b (ds @ [d]) = num_of b ds * b + d"
  by (simp add: num_of_def)

lemma num_of_single [simp]: "num_of b [d] = d"
  by (simp add: num_of_def)

text \<open>The digits of a printed numeral, as numbers.\<close>

fun digits_of :: "nat \<Rightarrow> nat \<Rightarrow> nat list" where
  "digits_of b n = (if n < b \<or> b < 2 then [n] else digits_of b (n div b) @ [n mod b])"

declare digits_of.simps [simp del]

lemma print_base_digits: "print_base b n = map dig (digits_of b n)"
proof (induction b n rule: digits_of.induct)
  case (1 b n)
  then show ?case
    by (simp add: print_base.simps [of b n] digits_of.simps [of b n])
qed

lemma num_of_digits_of [digit_simps]: "num_of b (digits_of b n) = n"
proof (induction b n rule: digits_of.induct)
  case (1 b n)
  then show ?case
    by (simp add: digits_of.simps [of b n])
qed

lemma digits_of_bound: "2 \<le> b \<Longrightarrow> d \<in> set (digits_of b n) \<Longrightarrow> d < b"
proof (induction b n rule: digits_of.induct)
  case (1 b n)
  then show ?case
    by (subst (asm) (2) digits_of.simps) (auto split: if_splits)
qed

lemma digits_of_nonempty [simp]: "digits_of b n \<noteq> []"
  by (subst digits_of.simps) simp

lemma length_digits_of:
  assumes "2 \<le> b" and "n < b ^ k" and "0 < k"
  shows "length (digits_of b n) \<le> k"
  using assms
proof (induction k arbitrary: n)
  case 0
  then show ?case by simp
next
  case (Suc k)
  show ?case
  proof (cases "n < b")
    case True
    then show ?thesis by (subst digits_of.simps) simp
  next
    case False
    with Suc.prems have "0 < k" by (cases k) auto
    moreover from Suc.prems have "n div b < b ^ k"
      by (simp add: less_mult_imp_div_less mult.commute)
    ultimately have "length (digits_of b (n div b)) \<le> k"
      using Suc.IH Suc.prems(1) by blast
    with False Suc.prems(1) show ?thesis by (subst digits_of.simps) simp
  qed
qed

lemma foldl_digits_mono:
  assumes "0 < b"
  shows "(a::nat) \<le> foldl (\<lambda>a d. a * b + d) a ds"
  using assms
proof (induction ds arbitrary: a)
  case Nil
  then show ?case by simp
next
  case (Cons d ds)
  have "a \<le> a * b + d" using Cons.prems by (simp add: trans_le_add1)
  also have "\<dots> \<le> foldl (\<lambda>a d. a * b + d) (a * b + d) ds" using Cons by blast
  finally show ?case by simp
qed

lemma foldl_digits_bound:
  fixes a b :: nat
  assumes "\<forall>d \<in> set ds. d < b"
  shows "foldl (\<lambda>a d. a * b + d) a ds < (a + 1) * b ^ length ds"
  using assms
proof (induction ds arbitrary: a)
  case (Cons d ds)
  then have "foldl (\<lambda>a d. a * b + d) (a * b + d) ds < (a * b + d + 1) * b ^ length ds" by simp
  also have "\<dots> \<le> (a + 1) * b * b ^ length ds" using Cons.prems by (intro mult_right_mono) auto
  finally show ?case by (simp add: algebra_simps)
qed simp

lemma replicate_numeral_Cons: "replicate (numeral k) x = x # replicate (pred_numeral k) x"
  by (simp add: numeral_eq_Suc)

lemma strchr_append: "c \<notin> set xs \<Longrightarrow> strchr (xs @ c # ys) c = Some (length xs)"
  by (induction xs) auto

lemma strchr_None [simp]: "strchr s c = None \<longleftrightarrow> c \<notin> set s"
  by (induction s) auto

lemma strrchr_None [simp]: "strrchr s c = None \<longleftrightarrow> c \<notin> set s"
  by (induction s) (auto split: option.splits)

lemma strrchr_last: "x \<notin> set e \<Longrightarrow> strrchr (s @ x # e) x = Some (length s)"
  by (induction s) (auto split: option.split)

lemma snprintf_buf_fits: "length s < sz \<Longrightarrow> snprintf_buf sz s = s"
  by (simp add: snprintf_buf_def)

lemma length_snprintf_buf: "0 < sz \<Longrightarrow> length (snprintf_buf sz s) < sz"
  by (simp add: snprintf_buf_def)

subsection \<open>Bytes and words\<close>

lemma push8_or_nat: "y < 256 \<Longrightarrow> push_bit 8 x OR y = x * 256 + (y::nat)"
proof -
  assume "y < 256"
  then have y: "take_bit 8 y = y" by (simp add: take_bit_nat_eq_self)
  have "push_bit 8 x AND y = 0"
    by (subst y [symmetric], rule bit_eqI) (auto simp: bit_simps)
  then have "push_bit 8 x + y = push_bit 8 x OR y" by (rule disjunctive_add_eq_or)
  then show ?thesis by (simp add: push_bit_eq_mult)
qed

lemma unat_push8_or:
  fixes a b :: "'a::len word"
  assumes "unat b < 256" and "unat a * 256 + 255 < 2 ^ LENGTH('a)"
  shows "unat (push_bit 8 a OR b) = unat a * 256 + unat b"
proof -
  have "unat (push_bit 8 a) = take_bit LENGTH('a) (unat a * 256)"
    by (simp only: unsigned_push_bit_eq) (simp add: push_bit_eq_mult)
  also have "\<dots> = unat a * 256"
    using assms(2) by (simp add: take_bit_nat_eq_self)
  finally show ?thesis
    using push8_or_nat [OF assms(1), of "unat a"]
    by (simp only: unsigned_or_eq) (simp add: push_bit_eq_mult)
qed

lemma unat_byte_of_word: "unat (ucast (drop_bit k w) :: byte) = unat w div 2 ^ k mod 256"
  by (simp only: unsigned_ucast_eq unat_drop_bit_eq) (simp add: drop_bit_eq_div take_bit_eq_mod)

lemma unat_byte_lt [simp]: "unat (b::byte) < 256"
  using unsigned_less [of b] by simp

lemma div_mod_256: "y < 256 \<Longrightarrow> (x * 256 + y) div 256 = (x::nat)" "y < 256 \<Longrightarrow> (x * 256 + y) mod 256 = (y::nat)"
  by simp_all

lemma be32_of_quad:
  fixes a b c d :: byte
  assumes "unat w = ((unat a * 256 + unat b) * 256 + unat c) * 256 + unat d"
  shows "be32 w = [a, b, c, d]"
proof -
  have lt: "unat a < 256" "unat b < 256" "unat c < 256" "unat d < 256" by simp_all
  have p: "(2::nat) ^ 24 = 256 * 256 * 256" "(2::nat) ^ 16 = 256 * 256" "(2::nat) ^ 8 = 256" by simp_all
  have 3: "unat (ucast (drop_bit 24 w) :: byte) = unat a"
    unfolding unat_byte_of_word assms p using lt by (simp only: div_mult2_eq div_mod_256) simp
  have 2: "unat (ucast (drop_bit 16 w) :: byte) = unat b"
    unfolding unat_byte_of_word assms p using lt by (simp only: div_mult2_eq div_mod_256)
  have 1: "unat (ucast (drop_bit 8 w) :: byte) = unat c"
    unfolding unat_byte_of_word assms p using lt by (simp only: div_mult2_eq div_mod_256)
  have "unat (ucast w :: byte) = unat w mod 256" using unat_byte_of_word [of 0 w] by simp
  then have 0: "unat (ucast w :: byte) = unat d"
    unfolding assms using lt by (simp only: div_mod_256)
  from 0 1 2 3 show ?thesis
    by (simp add: be32_def unsigned_word_eqI)
qed

end
