(* ===== verification/Byte_IO.thy ===== *)
theory Byte_IO
  imports NP_Prelude
begin

text \<open>
  Reading and writing byte streams: \<open>lib/readn.c\<close>, \<open>lib/writen.c\<close>, \<open>lib/readline.c\<close>
  and the re-entrant \<open>server/readline_r.c\<close>.

  A descriptor open for reading is the list of what its \<open>read\<close> calls will find: data that
  arrived in one piece, the end of file, or a failure. \<open>sys_read\<close> hands out at most the
  bytes asked for and keeps the rest, as POSIX \<open>read\<close> does. No further arrival means that
  the call blocks for ever, which is the result \<open>None\<close>.
\<close>

subsection \<open>Descriptors\<close>

datatype arrival = Data "byte list" | Eof | Fail errno

fun sys_read :: "nat \<Rightarrow> arrival list \<Rightarrow> (arrival \<times> arrival list) option" where
  "sys_read n [] = None"
| "sys_read n (Data bs # s) =
     (if bs = [] then sys_read n s
      else Some (Data (take n bs), if length bs \<le> n then s else Data (drop n bs) # s))"
| "sys_read n (Eof # s) = Some (Eof, s)"
| "sys_read n (Fail e # s) = Some (Fail e, s)"

definition weight :: "arrival list \<Rightarrow> nat" where
  "weight s = (\<Sum>a\<leftarrow>s. case a of Data bs \<Rightarrow> Suc (length bs) | _ \<Rightarrow> 1)"

lemma weight_Nil [simp]: "weight [] = 0"
  by (simp add: weight_def)

lemma weight_Cons [simp]:
  "weight (a # s) = (case a of Data bs \<Rightarrow> Suc (length bs) | _ \<Rightarrow> 1) + weight s"
  by (simp add: weight_def)

lemma sys_read_weight [termination_simp]:
  "0 < n \<Longrightarrow> sys_read n s = Some (a, s') \<Longrightarrow> weight s' < weight s"
  by (induction n s rule: sys_read.induct) (auto split: if_splits arrival.splits)

subsection \<open>readn\<close>

text \<open>
  \<open>readn_loop n nleft buf s\<close> is the \<open>while\<close> loop: \<open>buf\<close> is what \<open>vptr\<close> already holds. The
  result is the return value, the bytes stored and the rest of the stream.
\<close>

function readn_loop ::
  "nat \<Rightarrow> nat \<Rightarrow> byte list \<Rightarrow> arrival list \<Rightarrow> (int \<times> byte list \<times> arrival list) option" where
  "readn_loop n nleft buf s =
     (if nleft = 0 then Some (int (n - nleft), buf, s)
      else case sys_read nleft s of
        None \<Rightarrow> None
      | Some (Fail e, s') \<Rightarrow>
          if e = EINTR then readn_loop n nleft buf s' else Some (-1, buf, s')
      | Some (Eof, s') \<Rightarrow> Some (int (n - nleft), buf, s')
      | Some (Data bs, s') \<Rightarrow> readn_loop n (nleft - length bs) (buf @ bs) s')"
  by pat_completeness auto
termination
  by (relation "measure (\<lambda>(n, nleft, buf, s). weight s)") (auto dest: sys_read_weight)

declare readn_loop.simps [simp del]

definition readn :: "nat \<Rightarrow> arrival list \<Rightarrow> (int \<times> byte list \<times> arrival list) option" where
  "readn n s = readn_loop n n [] s"

definition Readn :: "nat \<Rightarrow> arrival list \<Rightarrow> (int \<times> byte list \<times> arrival list) outcome option" where
  "Readn nbytes s = map_option (\<lambda>(n, buf, s'). if n < 0 then Inl (Err_sys ''readn error'')
     else Inr (n, buf, s')) (readn nbytes s)"

subsection \<open>writen\<close>

text \<open>
  A descriptor open for writing is the list of the answers its \<open>write\<close> calls will give: how
  many bytes the kernel takes (never more than offered), or a failure.
\<close>

datatype answer = Takes nat | WFail errno

fun sys_write :: "nat \<Rightarrow> answer list \<Rightarrow> (answer \<times> answer list) option" where
  "sys_write n [] = None"
| "sys_write n (Takes k # s) = Some (Takes (min k n), s)"
| "sys_write n (WFail e # s) = Some (WFail e, s)"

lemma sys_write_length [termination_simp]:
  "sys_write n s = Some (a, s') \<Longrightarrow> length s' < length s"
  by (cases "(n, s)" rule: sys_write.cases) auto

text \<open>\<open>left\<close> is the data from \<open>ptr\<close> on; \<open>out\<close> is what the kernel accepted so far.\<close>

function writen_loop ::
  "nat \<Rightarrow> byte list \<Rightarrow> byte list \<Rightarrow> answer list \<Rightarrow> (int \<times> byte list \<times> answer list) option" where
  "writen_loop n left out s =
     (if left = [] then Some (int n, out, s)
      else case sys_write (length left) s of
        None \<Rightarrow> None
      | Some (WFail e, s') \<Rightarrow>
          if e = EINTR then writen_loop n left out s' else Some (-1, out, s')
      | Some (Takes k, s') \<Rightarrow>
          if k = 0 then Some (-1, out, s')
          else writen_loop n (drop k left) (out @ take k left) s')"
  by pat_completeness auto
termination
  by (relation "measure (\<lambda>(n, left, out, s). length s)") (auto dest: sys_write_length)

declare writen_loop.simps [simp del]

definition writen :: "byte list \<Rightarrow> answer list \<Rightarrow> (int \<times> byte list \<times> answer list) option" where
  "writen buf s = writen_loop (length buf) buf [] s"

definition Writen :: "byte list \<Rightarrow> answer list \<Rightarrow> (byte list \<times> answer list) outcome option" where
  "Writen buf s = map_option (\<lambda>(n, out, s'). if n \<noteq> int (length buf)
     then Inl (Err_sys ''writen error'') else Inr (out, s')) (writen buf s)"

subsection \<open>readline and readline\_r\<close>


text \<open>The \<open>again\<close> loop of \<open>my_read\<close>: an interrupted \<open>read\<close> is repeated.\<close>

function refill :: "arrival list \<Rightarrow> (arrival \<times> arrival list) option" where
  "refill s =
     (case sys_read MAXLINE s of
        None \<Rightarrow> None
      | Some (a, s') \<Rightarrow> if a = Fail EINTR then refill s' else Some (a, s'))"
  by pat_completeness auto
termination
  by (relation "measure weight") (auto simp: MAXLINE_def dest: sys_read_weight [rotated])

declare refill.simps [simp del]

text \<open>What one call of \<open>my_read\<close> reports: return value 1 with the byte, 0, or -1.\<close>

datatype got = Got byte | GEof | GErr

text \<open>The static variables of \<open>lib/readline.c\<close>, with the descriptor they read from.\<close>

record reader =
  read_cnt :: int
  read_ptr :: nat
  read_buf :: "byte list"
  read_src :: "arrival list"

definition my_read_take :: "reader \<Rightarrow> got \<times> reader" where
  "my_read_take st = (Got (read_buf st ! read_ptr st),
     st\<lparr>read_cnt := read_cnt st - 1, read_ptr := Suc (read_ptr st)\<rparr>)"

definition my_read :: "reader \<Rightarrow> (got \<times> reader) option" where
  "my_read st =
     (if read_cnt st \<le> 0 then
        case refill (read_src st) of
          None \<Rightarrow> None
        | Some (Fail e, s') \<Rightarrow> Some (GErr, st\<lparr>read_cnt := -1, read_src := s'\<rparr>)
        | Some (Eof, s') \<Rightarrow> Some (GEof, st\<lparr>read_cnt := 0, read_src := s'\<rparr>)
        | Some (Data bs, s') \<Rightarrow>
            Some (my_read_take (st\<lparr>read_cnt := int (length bs), read_buf := bs,
                                   read_ptr := 0, read_src := s'\<rparr>))
      else Some (my_read_take st))"

text \<open>\<open>struct Rline\<close> of \<open>server/readline_r.h\<close>: the same state, owned by the caller.\<close>

record Rline =
  rl_maxlen :: nat
  rl_cnt :: int
  rl_bufptr :: nat
  rl_buf :: "byte list"
  rl_src :: "arrival list"

definition my_read_r_take :: "Rline \<Rightarrow> got \<times> Rline" where
  "my_read_r_take r = (Got (rl_buf r ! rl_bufptr r AND 255),
     r\<lparr>rl_cnt := rl_cnt r - 1, rl_bufptr := Suc (rl_bufptr r)\<rparr>)"

definition my_read_r :: "Rline \<Rightarrow> (got \<times> Rline) option" where
  "my_read_r r =
     (if rl_cnt r \<le> 0 then
        case refill (rl_src r) of
          None \<Rightarrow> None
        | Some (Fail e, s') \<Rightarrow> Some (GErr, r\<lparr>rl_cnt := -1, rl_src := s'\<rparr>)
        | Some (Eof, s') \<Rightarrow> Some (GEof, r\<lparr>rl_cnt := 0, rl_src := s'\<rparr>)
        | Some (Data bs, s') \<Rightarrow>
            Some (my_read_r_take (r\<lparr>rl_cnt := int (length bs), rl_buf := bs, rl_bufptr := 0,
                                    rl_src := s'\<rparr>))
      else Some (my_read_r_take r))"

definition readline_rinit :: "arrival list \<Rightarrow> nat \<Rightarrow> byte list \<Rightarrow> Rline" where
  "readline_rinit fd maxlen garbage =
     \<lparr>rl_maxlen = maxlen, rl_cnt = 0, rl_bufptr = 0, rl_buf = garbage, rl_src = fd\<rparr>"

text \<open>
  The \<open>for\<close> loop the two functions share, over the function that delivers the next byte, and
  why it was left.
\<close>

datatype stop = Newline | Full | AtEof | AtErr

function line_loop ::
  "('s \<Rightarrow> (got \<times> 's) option) \<Rightarrow> nat \<Rightarrow> nat \<Rightarrow> byte list \<Rightarrow> 's \<Rightarrow>
   (stop \<times> nat \<times> byte list \<times> 's) option" where
  "line_loop get maxlen n buf st =
     (if n < maxlen then
        case get st of
          None \<Rightarrow> None
        | Some (Got c, st') \<Rightarrow>
            if c = 10 then Some (Newline, n, buf @ [c], st')
            else line_loop get maxlen (Suc n) (buf @ [c]) st'
        | Some (GEof, st') \<Rightarrow> Some (AtEof, n, buf, st')
        | Some (GErr, st') \<Rightarrow> Some (AtErr, n, buf, st')
      else Some (Full, n, buf, st))"
  by pat_completeness auto
termination
  by (relation "measure (\<lambda>(get, maxlen, n, buf, st). maxlen - n)") auto

declare line_loop.simps [simp del]

text \<open>The result: the return value and what the caller's buffer holds, its NUL included.\<close>

definition readline :: "nat \<Rightarrow> reader \<Rightarrow> (int \<times> byte list \<times> reader) option" where
  "readline maxlen st =
     map_option (\<lambda>(why, n, buf, st'). case why of
         Newline \<Rightarrow> (int n, buf @ [0], st')
       | Full \<Rightarrow> (int n, buf @ [0], st')
       | AtEof \<Rightarrow> (int n - 1, buf @ [0], st')
       | AtErr \<Rightarrow> (-1, buf, st')) (line_loop my_read maxlen 1 [] st)"

definition Readline :: "nat \<Rightarrow> reader \<Rightarrow> (int \<times> byte list \<times> reader) outcome option" where
  "Readline maxlen st = map_option (\<lambda>(n, buf, st'). if n < 0 then Inl (Err_sys ''readline error'')
     else Inr (n, buf, st')) (readline maxlen st)"

text \<open>\<open>readlinebuf\<close>: the count, and where the unread bytes start when it is not zero.\<close>

definition readlinebuf :: "reader \<Rightarrow> int \<times> nat option" where
  "readlinebuf st = (read_cnt st, if read_cnt st \<noteq> 0 then Some (read_ptr st) else None)"

definition readline_r :: "Rline \<Rightarrow> (int \<times> byte list \<times> Rline) option" where
  "readline_r r =
     map_option (\<lambda>(why, n, buf, r'). case why of
         Newline \<Rightarrow> (int n, buf @ [0], r')
       | Full \<Rightarrow> (int n, buf @ [0], r')
       | AtEof \<Rightarrow> if n = 1 then (0, buf, r') else (int n, buf @ [0], r')
       | AtErr \<Rightarrow> (-1, buf, r')) (line_loop my_read_r (rl_maxlen r) 1 [] r)"

definition Readline_r :: "Rline \<Rightarrow> (int \<times> byte list \<times> Rline) outcome option" where
  "Readline_r r = map_option (\<lambda>(n, buf, r'). if n = -1 then Inl (Err_sys ''readline_r error'')
     else Inr (n, buf, r')) (readline_r r)"

text \<open>
  \<open>threads/readline.c\<close>: the buffer is thread-specific data, allocated with \<open>Calloc\<close> at the
  thread's first call. \<open>tsd\<close> maps a thread to its \<open>Rline\<close>; \<open>mem\<close> says whether the allocation
  would succeed.
\<close>

record Tline =
  tl_cnt :: int
  tl_bufptr :: nat
  tl_buf :: "byte list"

definition my_read_t :: "Tline \<times> arrival list \<Rightarrow> (got \<times> Tline \<times> arrival list) option" where
  "my_read_t p = (case p of (t, fd) \<Rightarrow>
     let deliver = (\<lambda>(t, fd). (Got (tl_buf t ! tl_bufptr t),
           t\<lparr>tl_cnt := tl_cnt t - 1, tl_bufptr := Suc (tl_bufptr t)\<rparr>, fd))
     in if tl_cnt t \<le> 0 then
          case refill fd of
            None \<Rightarrow> None
          | Some (Fail e, fd') \<Rightarrow> Some (GErr, t\<lparr>tl_cnt := -1\<rparr>, fd')
          | Some (Eof, fd') \<Rightarrow> Some (GEof, t\<lparr>tl_cnt := 0\<rparr>, fd')
          | Some (Data bs, fd') \<Rightarrow>
              Some (deliver (t\<lparr>tl_cnt := int (length bs), tl_buf := bs, tl_bufptr := 0\<rparr>, fd'))
        else Some (deliver (t, fd)))"

definition readline_t ::
  "bool \<Rightarrow> nat \<Rightarrow> nat \<Rightarrow> (nat \<rightharpoonup> Tline) \<Rightarrow> arrival list \<Rightarrow>
   (int \<times> byte list \<times> (nat \<rightharpoonup> Tline) \<times> arrival list) outcome option" where
  "readline_t mem thread maxlen tsd fd =
     (if tsd thread = None \<and> \<not> mem then Some (Inl (Err_sys ''calloc error''))
      else let t = (case tsd thread of Some t \<Rightarrow> t
                    | None \<Rightarrow> \<lparr>tl_cnt = 0, tl_bufptr = 0, tl_buf = replicate MAXLINE 0\<rparr>)
      in map_option (\<lambda>(why, n, buf, t', fd'). Inr (case why of
             Newline \<Rightarrow> (int n, buf @ [0], tsd(thread \<mapsto> t'), fd')
           | Full \<Rightarrow> (int n, buf @ [0], tsd(thread \<mapsto> t'), fd')
           | AtEof \<Rightarrow> (int n - 1, buf @ [0], tsd(thread \<mapsto> t'), fd')
           | AtErr \<Rightarrow> (-1, buf, tsd(thread \<mapsto> t'), fd'))) (line_loop my_read_t maxlen 1 [] (t, fd)))"

subsection \<open>What a stream delivers, whatever its segmentation\<close>

datatype ending = E_block | E_eof | E_err errno

text \<open>
  The abstract view of a descriptor: the bytes up to its next end of file or failure, with
  the cuts between arrivals and the interrupted calls forgotten.
\<close>

fun avail :: "arrival list \<Rightarrow> byte list \<times> ending" where
  "avail [] = ([], E_block)"
| "avail (Data bs # s) = (bs @ fst (avail s), snd (avail s))"
| "avail (Eof # s) = ([], E_eof)"
| "avail (Fail e # s) = (if e = EINTR then avail s else ([], E_err e))"

lemma sys_read_data [stream_simps]:
  "0 < n \<Longrightarrow> sys_read n s = Some (Data bs, s') \<Longrightarrow>
   bs \<noteq> [] \<and> length bs \<le> n \<and> avail s = (bs @ fst (avail s'), snd (avail s'))"
  by (induction n s rule: sys_read.induct) (auto split: if_splits)

lemma sys_read_eof [stream_simps]: "sys_read n s = Some (Eof, s') \<Longrightarrow> avail s = ([], E_eof)"
  by (induction n s rule: sys_read.induct) (auto split: if_splits)

lemma sys_read_fail [stream_simps]:
  "sys_read n s = Some (Fail e, s') \<Longrightarrow>
   avail s = (if e = EINTR then avail s' else ([], E_err e))"
  by (induction n s rule: sys_read.induct) (auto split: if_splits)

lemma sys_read_block [stream_simps]: "sys_read n s = None \<Longrightarrow> avail s = ([], E_block)"
  by (induction n s rule: sys_read.induct) (auto split: if_splits)

lemma readn_loop_spec:
  assumes "avail s = (bs, t)" and "nleft \<le> n"
  shows "if nleft \<le> length bs
    then \<exists>s'. readn_loop n nleft buf s = Some (int n, buf @ take nleft bs, s') \<and>
              avail s' = (drop nleft bs, t)
    else case t of
      E_block \<Rightarrow> readn_loop n nleft buf s = None
    | E_eof \<Rightarrow> \<exists>s'. readn_loop n nleft buf s = Some (int (n - nleft + length bs), buf @ bs, s')
    | E_err e \<Rightarrow> \<exists>s'. readn_loop n nleft buf s = Some (-1, buf @ bs, s')"
  using assms
proof (induction n nleft buf s arbitrary: bs rule: readn_loop.induct)
  case (1 n nleft buf s)
  note unf = readn_loop.simps [of n nleft buf s]
  show ?case
  proof (cases "nleft = 0")
    case True
    with 1(3) show ?thesis by (simp add: readn_loop.simps [of n 0])
  next
    case nz: False
    show ?thesis
    proof (cases "sys_read nleft s")
      case None
      with nz 1(3) show ?thesis
        using sys_read_block [OF None] by (simp add: unf)
    next
      case Some': (Some r)
      then obtain a s' where Some: "sys_read nleft s = Some (a, s')" by (cases r) simp
      show ?thesis
      proof (cases a)
        case (Data cs)
        with Some nz have d: "cs \<noteq> []" "length cs \<le> nleft"
            "avail s = (cs @ fst (avail s'), snd (avail s'))"
          using sys_read_data by blast+
        obtain bs' t' where av: "avail s' = (bs', t')" by fastforce
        with d 1(3) have bs: "bs = cs @ bs'" "t' = t" by auto
        have "nleft - length cs \<le> n" using 1(4) by simp
        from 1(1) [OF nz Some refl Data _ this] av bs Some Data nz d 1(4) show ?thesis
          by (auto simp: unf split: if_splits ending.splits)
      next
        case Eof
        with Some nz 1(3) sys_read_eof [of nleft s s'] show ?thesis
          by (simp add: unf)
      next
        case (Fail e)
        with Some nz 1(3) 1(4) 1(2) [OF nz Some refl Fail] sys_read_fail [of nleft s e s']
        show ?thesis
          by (cases "e = EINTR") (auto simp: unf split: ending.splits)
      qed
    qed
  qed
qed


text \<open>The same for \<open>writen\<close>: what the kernel took is always a prefix of what was offered.\<close>

lemma writen_loop_spec:
  assumes "writen_loop n left out s = Some (r, out', s')"
  shows "(r = int n \<and> out' = out @ left) \<or>
         (r = -1 \<and> (\<exists>k. k < length left \<and> out' = out @ take k left))"
  using assms
proof (induction n left out s rule: writen_loop.induct)
  case (1 n left out s)
  note unf = writen_loop.simps [of n left out s]
  show ?case
  proof (cases "left = []")
    case True
    with 1(3) show ?thesis by (simp add: writen_loop.simps [of n "[]"])
  next
    case ne: False
    with 1(3) obtain a s1 where a: "sys_write (length left) s = Some (a, s1)"
      by (auto simp: unf split: option.splits)
    show ?thesis
    proof (cases a)
      case (WFail e)
      show ?thesis
      proof (cases "e = EINTR")
        case True
        with 1(2) [OF ne a refl WFail True] 1(3) ne a WFail show ?thesis by (simp add: unf)
      next
        case False
        with 1(3) ne a WFail show ?thesis by (auto simp: unf intro: exI [of _ 0])
      qed
    next
      case (Takes k)
      show ?thesis
      proof (cases "k = 0")
        case True
        with 1(3) ne a Takes show ?thesis by (auto simp: unf intro: exI [of _ 0])
      next
        case nz: False
        with 1(3) ne a Takes
        have "writen_loop n (drop k left) (out @ take k left) s1 = Some (r, out', s')"
          by (simp add: unf)
        from 1(1) [OF ne a refl Takes nz this] show ?thesis
        proof (elim disjE conjE exE)
          fix j
          assume "r = -1" and j: "j < length (drop k left)"
            and "out' = (out @ take k left) @ take j (drop k left)"
          then have "k + j < length left \<and> out' = out @ take (k + j) left"
            by (simp add: take_add)
          with \<open>r = -1\<close> show ?thesis by blast
        qed auto
      qed
    qed
  qed
qed

text \<open>A kernel that keeps taking at least one byte lets \<open>writen\<close> finish.\<close>

definition obliging :: "answer \<Rightarrow> bool" where
  "obliging a = (case a of Takes k \<Rightarrow> 0 < k | WFail e \<Rightarrow> e = EINTR)"

lemma writen_loop_finishes:
  assumes "\<forall>a \<in> set s. obliging a"
    and "length left \<le> length (filter (\<lambda>a. a \<noteq> WFail EINTR) s)"
  shows "\<exists>s'. writen_loop n left out s = Some (int n, out @ left, s') \<and> set s' \<subseteq> set s \<and>
    length (filter (\<lambda>a. a \<noteq> WFail EINTR) s) \<le> length (filter (\<lambda>a. a \<noteq> WFail EINTR) s') + length left"
  using assms
proof (induction s arbitrary: left out)
  case Nil
  then show ?case by (simp add: writen_loop.simps)
next
  case (Cons a s)
  show ?case
  proof (cases "left = []")
    case True
    then show ?thesis by (simp add: writen_loop.simps)
  next
    case ne: False
    show ?thesis
    proof (cases a)
      case (WFail e)
      with Cons.prems have e: "e = EINTR" by (simp add: obliging_def)
      with WFail Cons.prems Cons.IH [of left out]
      obtain s' where "writen_loop n left out s = Some (int n, out @ left, s')" "set s' \<subseteq> set s"
          "length (filter (\<lambda>a. a \<noteq> WFail EINTR) s) \<le> length (filter (\<lambda>a. a \<noteq> WFail EINTR) s') + length left"
        by auto
      with WFail e ne show ?thesis by (subst writen_loop.simps) auto
    next
      case (Takes k)
      let ?k = "min k (length left)"
      from Takes Cons.prems ne have k: "0 < ?k" by (simp add: obliging_def)
      from Takes Cons.prems k have "length (drop ?k left) \<le> length (filter (\<lambda>a. a \<noteq> WFail EINTR) s)" by auto
      with Cons.IH [of "drop ?k left" "out @ take ?k left"] Cons.prems(1)
      obtain s' where "writen_loop n (drop ?k left) (out @ take ?k left) s = Some (int n, out @ left, s')" "set s' \<subseteq> set s"
          "length (filter (\<lambda>a. a \<noteq> WFail EINTR) s) \<le> length (filter (\<lambda>a. a \<noteq> WFail EINTR) s') + length (drop ?k left)"
        by auto
      moreover have "Suc (length (drop ?k left)) \<le> length left" using k unfolding length_drop by linarith
      ultimately have "Suc (length (filter (\<lambda>a. a \<noteq> WFail EINTR) s)) \<le> length (filter (\<lambda>a. a \<noteq> WFail EINTR) s') + length left"
        by linarith
      with Takes ne k \<open>set s' \<subseteq> set s\<close> \<open>writen_loop n (drop ?k left) (out @ take ?k left) s = Some (int n, out @ left, s')\<close>
      show ?thesis by (subst writen_loop.simps) auto
    qed
  qed
qed


subsection \<open>The interface of a byte source, and lines read through it\<close>

text \<open>The bytes of the next line, its newline included, when at most \<open>m\<close> bytes fit.\<close>

fun upto_nl :: "nat \<Rightarrow> byte list \<Rightarrow> byte list" where
  "upto_nl 0 bs = []"
| "upto_nl (Suc m) [] = []"
| "upto_nl (Suc m) (b # bs) = (if b = 10 then [b] else b # upto_nl m bs)"

definition ends_line :: "byte list \<Rightarrow> bool" where
  "ends_line l = (l \<noteq> [] \<and> last l = 10)"

lemma ends_line_simps [simp]:
  "\<not> ends_line []"
  "ends_line [b] = (b = 10)"
  "l \<noteq> [] \<Longrightarrow> ends_line (b # l) = ends_line l"
  by (simp_all add: ends_line_def)

text \<open>
  How a run of the shared loop must end on a source whose view is \<open>bs\<close> followed by \<open>t\<close>,
  with \<open>n - 1\<close> bytes already stored in \<open>buf\<close>.
\<close>

definition line_spec ::
  "('s \<Rightarrow> byte list \<times> ending) \<Rightarrow> ('s \<Rightarrow> bool) \<Rightarrow> nat \<Rightarrow> nat \<Rightarrow> byte list \<Rightarrow> byte list \<Rightarrow> ending \<Rightarrow>
   (stop \<times> nat \<times> byte list \<times> 's) option \<Rightarrow> bool" where
  "line_spec view ok maxlen n buf bs t res \<longleftrightarrow>
    (let l = upto_nl (maxlen - n) bs in
     if ends_line l then
       \<exists>st'. res = Some (Newline, n + length l - 1, buf @ l, st') \<and>
             view st' = (drop (length l) bs, t) \<and> ok st'
     else if length l = maxlen - n then
       \<exists>st'. res = Some (Full, maxlen, buf @ l, st') \<and> view st' = (drop (length l) bs, t) \<and> ok st'
     else l = bs \<and> (case t of
         E_block \<Rightarrow> res = None
       | E_eof \<Rightarrow> \<exists>st'. res = Some (AtEof, n + length bs, buf @ bs, st') \<and> ok st'
       | E_err e \<Rightarrow> \<exists>st'. res = Some (AtErr, n + length bs, buf @ bs, st') \<and> ok st'))"

lemma line_spec_Cons:
  assumes "line_spec view ok maxlen (Suc n) (buf @ [b]) bs t res" and "b \<noteq> 10" and "n < maxlen"
  shows "line_spec view ok maxlen n buf (b # bs) t res"
proof -
  from assms(3) obtain k where k: "maxlen - n = Suc k" "maxlen - Suc n = k"
    by (metis Suc_diff_Suc)
  show ?thesis
  proof (cases "upto_nl k bs = []")
    case True
    with assms k show ?thesis
      by (auto simp: line_spec_def Let_def split: ending.splits if_splits)
  next
    case False
    with assms k show ?thesis
      by (auto simp: line_spec_def Let_def split: ending.splits if_splits)
  qed
qed

lemma length_upto_nl: "length (upto_nl m bs) \<le> m"
  by (induction m bs rule: upto_nl.induct) auto

text \<open>The five ways a call of a line reader ends.\<close>

lemma line_specE:
  assumes "line_spec view ok maxlen 1 [] bs t res" and "1 \<le> maxlen"
    and "l = upto_nl (maxlen - 1) bs"
  obtains (Line) st' where "ends_line l" "res = Some (Newline, length l, l, st')"
      "view st' = (drop (length l) bs, t)" "ok st'" "length l < maxlen"
  | (Full) st' where "\<not> ends_line l" "length l = maxlen - 1" "res = Some (Full, maxlen, l, st')"
      "view st' = (drop (length l) bs, t)" "ok st'"
  | (Eof) st' where "\<not> ends_line l" "l = bs" "length l < maxlen - 1" "t = E_eof"
      "res = Some (AtEof, Suc (length bs), bs, st')" "ok st'"
  | (Err) st' e where "\<not> ends_line l" "l = bs" "length l < maxlen - 1" "t = E_err e"
      "res = Some (AtErr, Suc (length bs), bs, st')" "ok st'"
  | (Block) "\<not> ends_line l" "l = bs" "length l < maxlen - 1" "t = E_block" "res = None"
proof (cases "ends_line l")
  case True
  with assms length_upto_nl [of "maxlen - 1" bs] show ?thesis
    by (auto simp: line_spec_def Let_def intro!: Line)
next
  case nc: False
  show ?thesis
  proof (cases "length l = maxlen - 1")
    case True
    with nc assms show ?thesis by (auto simp: line_spec_def Let_def intro!: Full)
  next
    case False
    with length_upto_nl [of "maxlen - 1" bs] assms(3) have lt: "length l < maxlen - 1" by simp
    from nc False assms have "l = bs" "case t of
         E_block \<Rightarrow> res = None
       | E_eof \<Rightarrow> \<exists>st'. res = Some (AtEof, Suc (length bs), bs, st') \<and> ok st'
       | E_err e \<Rightarrow> \<exists>st'. res = Some (AtErr, Suc (length bs), bs, st') \<and> ok st'"
      by (auto simp: line_spec_def Let_def split: ending.splits)
    with nc lt Eof Err Block show ?thesis by (cases t) auto
  qed
qed

text \<open>
  What the line readers rely on: a function that hands out the bytes of an abstract view one
  by one, and reports its end.
\<close>

locale byte_source =
  fixes get :: "'s \<Rightarrow> (got \<times> 's) option"
    and view :: "'s \<Rightarrow> byte list \<times> ending"
    and ok :: "'s \<Rightarrow> bool"
  assumes get_byte: "ok st \<Longrightarrow> view st = (b # bs, t) \<Longrightarrow>
      \<exists>st'. get st = Some (Got b, st') \<and> view st' = (bs, t) \<and> ok st'"
    and get_eof: "ok st \<Longrightarrow> view st = ([], E_eof) \<Longrightarrow> \<exists>st'. get st = Some (GEof, st') \<and> ok st'"
    and get_err: "ok st \<Longrightarrow> view st = ([], E_err e) \<Longrightarrow> \<exists>st'. get st = Some (GErr, st') \<and> ok st'"
    and get_block: "ok st \<Longrightarrow> view st = ([], E_block) \<Longrightarrow> get st = None"
begin

lemma line_loop_spec:
  assumes "ok st" and "view st = (bs, t)" and "n \<le> maxlen"
  shows "line_spec view ok maxlen n buf bs t (line_loop get maxlen n buf st)"
  using assms
proof (induction "maxlen - n" arbitrary: n buf st bs)
  case 0
  then show ?case by (simp add: line_spec_def line_loop.simps [of get n n])
next
  case (Suc k)
  note unf = line_loop.simps [of get maxlen n buf st]
  have lt: "n < maxlen" and k: "maxlen - n = Suc k" using Suc.hyps(2) by auto
  show ?case
  proof (cases bs)
    case Nil
    then show ?thesis
      using Suc.prems lt k get_eof [of st] get_err [of st] get_block [of st]
      by (cases t) (force simp: line_spec_def unf)+
  next
    case (Cons b cs)
    with Suc.prems obtain st' where st': "get st = Some (Got b, st')" "view st' = (cs, t)" "ok st'"
      using get_byte by metis
    show ?thesis
    proof (cases "b = 10")
      case True
      with st' Cons lt k show ?thesis by (simp add: line_spec_def unf)
    next
      case False
      have "line_spec view ok maxlen (Suc n) (buf @ [b]) cs t
          (line_loop get maxlen (Suc n) (buf @ [b]) st')"
        using Suc.hyps st' lt by simp
      moreover have "line_loop get maxlen n buf st = line_loop get maxlen (Suc n) (buf @ [b]) st'"
        using False st' lt by (simp add: unf)
      ultimately show ?thesis
        using False lt Cons line_spec_Cons by metis
    qed
  qed
qed

end

subsection \<open>The two readers provide the interface\<close>

text \<open>A refill is the first \<open>read\<close> that was not interrupted.\<close>

definition refill_ok :: "arrival list \<Rightarrow> (arrival \<times> arrival list) option \<Rightarrow> bool" where
  "refill_ok s r = (case r of
     None \<Rightarrow> avail s = ([], E_block)
   | Some (Eof, s') \<Rightarrow> avail s = ([], E_eof)
   | Some (Fail e, s') \<Rightarrow> avail s = ([], E_err e)
   | Some (Data bs, s') \<Rightarrow> bs \<noteq> [] \<and> avail s = (bs @ fst (avail s'), snd (avail s')))"

lemma refill_ok: "refill_ok s (refill s)"
proof (induction s rule: refill.induct)
  case (1 s)
  show ?case
  proof (cases "sys_read MAXLINE s")
    case None
    then show ?thesis
      using sys_read_block [OF None] by (simp add: refill.simps [of s] refill_ok_def)
  next
    case (Some r)
    then obtain a s' where a: "sys_read MAXLINE s = Some (a, s')" by (cases r) simp
    show ?thesis
    proof (cases "a = Fail EINTR")
      case True
      with 1 [OF a refl True] a sys_read_fail [of MAXLINE s EINTR s'] show ?thesis
        by (auto simp: refill.simps [of s] refill_ok_def split: option.splits prod.splits arrival.splits)
    next
      case False
      with a sys_read_data [of MAXLINE s _ s'] sys_read_eof [of MAXLINE s s']
        sys_read_fail [of MAXLINE s _ s'] show ?thesis
        by (cases a) (auto simp: refill.simps [of s] refill_ok_def MAXLINE_def)
    qed
  qed
qed

lemmas refill_cases = refill_ok [unfolded refill_ok_def]

lemma refill_data:
  assumes "fst (avail s) \<noteq> []"
  obtains c cs s' where "refill s = Some (Data (c # cs), s')"
    and "avail s = (c # cs @ fst (avail s'), snd (avail s'))"
  using assms refill_cases [of s]
  by (auto simp: neq_Nil_conv split: option.splits prod.splits arrival.splits)

definition reader_view :: "reader \<Rightarrow> byte list \<times> ending" where
  "reader_view st = ((if read_cnt st \<le> 0 then [] else drop (read_ptr st) (read_buf st)) @
     fst (avail (read_src st)), snd (avail (read_src st)))"

definition reader_ok :: "reader \<Rightarrow> bool" where
  "reader_ok st = (0 < read_cnt st \<longrightarrow> int (read_ptr st) + read_cnt st = int (length (read_buf st)))"

definition Rline_view :: "Rline \<Rightarrow> byte list \<times> ending" where
  "Rline_view r = ((if rl_cnt r \<le> 0 then [] else drop (rl_bufptr r) (rl_buf r)) @
     fst (avail (rl_src r)), snd (avail (rl_src r)))"

definition Rline_ok :: "Rline \<Rightarrow> bool" where
  "Rline_ok r = (0 < rl_cnt r \<longrightarrow> int (rl_bufptr r) + rl_cnt r = int (length (rl_buf r)))"

lemmas reader_defs = reader_view_def reader_ok_def my_read_def my_read_take_def
lemmas Rline_defs = Rline_view_def Rline_ok_def my_read_r_def my_read_r_take_def

lemma byte_and_255 [simp]: "(b::byte) AND 255 = b"
proof -
  have "b AND mask 8 = b" 
    by (simp only: take_bit_eq_mask [symmetric]) (rule take_bit_word_eq_self, simp)
  then show ?thesis by (simp add: mask_eq_exp_minus_1)
qed

lemma drop_shift: "drop p xs = b # bs \<Longrightarrow> xs ! p = b \<and> drop (Suc p) xs = bs \<and> p < length xs"
  by (metis Cons_nth_drop_Suc drop_all leI list.inject list.distinct(1))

interpretation rd: byte_source my_read reader_view reader_ok
proof
  fix st b bs t
  assume ok: "reader_ok st" and v: "reader_view st = (b # bs, t)"
  show "\<exists>st'. my_read st = Some (Got b, st') \<and> reader_view st' = (bs, t) \<and> reader_ok st'"
  proof (cases "read_cnt st \<le> 0")
    case False
    with ok v show ?thesis
      by (cases "drop (read_ptr st) (read_buf st)") (auto simp: reader_defs dest!: drop_shift)
  next
    case True
    with v have "fst (avail (read_src st)) \<noteq> []" by (auto simp: reader_view_def)
    then obtain c cs s' where "refill (read_src st) = Some (Data (c # cs), s')"
      "avail (read_src st) = (c # cs @ fst (avail s'), snd (avail s'))"
      by (rule refill_data)
    with True ok v show ?thesis by (auto simp: reader_defs)
  qed
next
  fix st assume "reader_ok st" and "reader_view st = ([], E_eof)"
  then show "\<exists>st'. my_read st = Some (GEof, st') \<and> reader_ok st'"
    using refill_cases [of "read_src st"]
    by (auto simp: reader_defs split: option.splits prod.splits arrival.splits if_splits)
next
  fix st e assume "reader_ok st" and "reader_view st = ([], E_err e)"
  then show "\<exists>st'. my_read st = Some (GErr, st') \<and> reader_ok st'"
    using refill_cases [of "read_src st"]
    by (auto simp: reader_defs split: option.splits prod.splits arrival.splits if_splits)
next
  fix st assume "reader_ok st" and "reader_view st = ([], E_block)"
  then show "my_read st = None"
    using refill_cases [of "read_src st"]
    by (auto simp: reader_defs split: option.splits prod.splits arrival.splits if_splits)
qed

interpretation rlr: byte_source my_read_r Rline_view Rline_ok
proof
  fix r b bs t
  assume ok: "Rline_ok r" and v: "Rline_view r = (b # bs, t)"
  show "\<exists>r'. my_read_r r = Some (Got b, r') \<and> Rline_view r' = (bs, t) \<and> Rline_ok r'"
  proof (cases "rl_cnt r \<le> 0")
    case False
    with ok v show ?thesis
      by (cases "drop (rl_bufptr r) (rl_buf r)") (auto simp: Rline_defs dest!: drop_shift)
  next
    case True
    with v have "fst (avail (rl_src r)) \<noteq> []" by (auto simp: Rline_view_def)
    then obtain c cs s' where "refill (rl_src r) = Some (Data (c # cs), s')"
      "avail (rl_src r) = (c # cs @ fst (avail s'), snd (avail s'))"
      by (rule refill_data)
    with True ok v show ?thesis by (auto simp: Rline_defs)
  qed
next
  fix r assume "Rline_ok r" and "Rline_view r = ([], E_eof)"
  then show "\<exists>r'. my_read_r r = Some (GEof, r') \<and> Rline_ok r'"
    using refill_cases [of "rl_src r"]
    by (auto simp: Rline_defs split: option.splits prod.splits arrival.splits if_splits)
next
  fix r e assume "Rline_ok r" and "Rline_view r = ([], E_err e)"
  then show "\<exists>r'. my_read_r r = Some (GErr, r') \<and> Rline_ok r'"
    using refill_cases [of "rl_src r"]
    by (auto simp: Rline_defs split: option.splits prod.splits arrival.splits if_splits)
next
  fix r assume "Rline_ok r" and "Rline_view r = ([], E_block)"
  then show "my_read_r r = None"
    using refill_cases [of "rl_src r"]
    by (auto simp: Rline_defs split: option.splits prod.splits arrival.splits if_splits)
qed

definition Tline_view :: "Tline \<times> arrival list \<Rightarrow> byte list \<times> ending" where
  "Tline_view p = (case p of (t, fd) \<Rightarrow>
     ((if tl_cnt t \<le> 0 then [] else drop (tl_bufptr t) (tl_buf t)) @ fst (avail fd), snd (avail fd)))"

definition Tline_ok :: "Tline \<times> arrival list \<Rightarrow> bool" where
  "Tline_ok p = (case p of (t, fd) \<Rightarrow>
     0 < tl_cnt t \<longrightarrow> int (tl_bufptr t) + tl_cnt t = int (length (tl_buf t)))"

lemmas Tline_defs = Tline_view_def Tline_ok_def my_read_t_def

interpretation tls: byte_source my_read_t Tline_view Tline_ok
proof
  fix p b bs t
  assume ok: "Tline_ok p" and v: "Tline_view p = (b # bs, t)"
  obtain tl fd where p: "p = (tl, fd)" by fastforce
  show "\<exists>p'. my_read_t p = Some (Got b, p') \<and> Tline_view p' = (bs, t) \<and> Tline_ok p'"
  proof (cases "tl_cnt tl \<le> 0")
    case False
    with ok v p show ?thesis
      by (cases "drop (tl_bufptr tl) (tl_buf tl)") (auto simp: Tline_defs dest!: drop_shift)
  next
    case True
    with v p have "fst (avail fd) \<noteq> []" by (auto simp: Tline_view_def)
    then obtain c cs s' where "refill fd = Some (Data (c # cs), s')"
      "avail fd = (c # cs @ fst (avail s'), snd (avail s'))"
      by (rule refill_data)
    with True ok v p show ?thesis by (auto simp: Tline_defs)
  qed
next
  fix p assume "Tline_ok p" and "Tline_view p = ([], E_eof)"
  then show "\<exists>p'. my_read_t p = Some (GEof, p') \<and> Tline_ok p'"
    using refill_cases [of "snd p"]
    by (auto simp: Tline_defs split: option.splits prod.splits arrival.splits if_splits)
next
  fix p e assume "Tline_ok p" and "Tline_view p = ([], E_err e)"
  then show "\<exists>p'. my_read_t p = Some (GErr, p') \<and> Tline_ok p'"
    using refill_cases [of "snd p"]
    by (auto simp: Tline_defs split: option.splits prod.splits arrival.splits if_splits)
next
  fix p assume "Tline_ok p" and "Tline_view p = ([], E_block)"
  then show "my_read_t p = None"
    using refill_cases [of "snd p"]
    by (auto simp: Tline_defs split: option.splits prod.splits arrival.splits if_splits)
qed

subsection \<open>Properties\<close>

text \<open>
  C1. \<open>readn\<close> delivers exactly the first \<open>n\<close> bytes of the stream, whatever the sizes of the
  pieces they arrive in and however often \<open>read\<close> is interrupted, and leaves the rest of the
  stream unread; a stream that ends earlier gives the bytes there were and their count, one
  that fails gives -1, and only a stream that stays open without enough data blocks.
\<close>

theorem readn_correct:
  assumes "avail s = (bs, t)"
  shows "if n \<le> length bs
    then \<exists>s'. readn n s = Some (int n, take n bs, s') \<and> avail s' = (drop n bs, t)
    else case t of
      E_block \<Rightarrow> readn n s = None
    | E_eof \<Rightarrow> \<exists>s'. readn n s = Some (int (length bs), bs, s')
    | E_err e \<Rightarrow> \<exists>s'. readn n s = Some (-1, bs, s')"
  using readn_loop_spec [OF assms order_refl, of n "[]"]
  by (auto simp: readn_def split: ending.splits)

theorem readn_correct_witness:
  "\<exists>s'. readn 3 [Data [1, 2], Fail EINTR, Data [3, 4], Eof] = Some (3, [1, 2, 3], s') \<and>
        avail s' = ([4], E_eof)"
  using readn_correct [of "[Data [1, 2], Fail EINTR, Data [3, 4], Eof]" "[1, 2, 3, 4]" E_eof 3]
  by simp

text \<open>
  C2. \<open>writen\<close> is all or nothing to its caller: when it returns, either it returns the length
  of the buffer and the kernel took the whole buffer in order, or it returns -1 and the
  kernel took a strict prefix of it. A kernel that takes at least one byte per call (or
  interrupts the call) makes it finish with the whole buffer written.
\<close>

theorem writen_correct:
  "(\<forall>r out s'. writen buf s = Some (r, out, s') \<longrightarrow>
      r = int (length buf) \<and> out = buf \<or>
      r = -1 \<and> (\<exists>k < length buf. out = take k buf)) \<and>
   ((\<forall>a \<in> set s. obliging a) \<and> length buf \<le> length (filter (\<lambda>a. a \<noteq> WFail EINTR) s) \<longrightarrow>
      (\<exists>s'. writen buf s = Some (int (length buf), buf, s')))"
  using writen_loop_spec [of "length buf" buf "[]" s]
    writen_loop_finishes [of s buf "length buf" "[]"]
  by (auto simp: writen_def)

theorem writen_correct_witness:
  "\<exists>s'. writen [1, 2, 3] [Takes 2, WFail EINTR, Takes 1, Takes 9] = Some (3, [1, 2, 3], s')"
  using writen_correct [of "[1, 2, 3]" "[Takes 2, WFail EINTR, Takes 1, Takes 9]"]
  by (simp add: obliging_def)

text \<open>
  C3. \<open>readline\<close> on a well-formed buffer returns the next line: when a newline is among the
  first \<open>maxlen - 1\<close> bytes still to come (buffered or not, however segmented), the caller
  gets the bytes up to and including it, NUL-terminated, and their exact count, and the next
  call goes on right after it; at the end of the file the caller gets what is left and its
  count. The buffer handed back never holds more than \<open>maxlen\<close> bytes.
\<close>

theorem readline_correct:
  assumes "reader_ok st" and "reader_view st = (bs, t)" and "1 \<le> maxlen"
    and "l = upto_nl (maxlen - 1) bs"
  shows "(ends_line l \<longrightarrow> (\<exists>st'. readline maxlen st = Some (int (length l), l @ [0], st') \<and>
            reader_view st' = (drop (length l) bs, t) \<and> reader_ok st')) \<and>
         (\<not> ends_line l \<and> length l < maxlen - 1 \<and> t = E_eof \<longrightarrow>
            (\<exists>st'. readline maxlen st = Some (int (length bs), bs @ [0], st') \<and> reader_ok st')) \<and>
         (\<forall>r buf st'. readline maxlen st = Some (r, buf, st') \<longrightarrow> length buf \<le> maxlen)"
proof -
  have "line_spec reader_view reader_ok maxlen 1 [] bs t (line_loop my_read maxlen 1 [] st)"
    using rd.line_loop_spec assms(1-3) by blast
  then show ?thesis
    using assms(3,4)
    by (cases rule: line_specE) (use assms(3) in \<open>auto simp: readline_def\<close>)
qed

theorem readline_correct_witness:
  "\<exists>st'. readline 10 \<lparr>read_cnt = 1, read_ptr = 1, read_buf = [9, 65], read_src = [Data [66, 10, 67]]\<rparr>
      = Some (3, [65, 66, 10, 0], st') \<and> reader_view st' = ([67], E_block)"
proof -
  have l: "upto_nl (10 - 1) [65, 66, 10, 67] = [65, 66, 10]" by code_simp
  have "reader_view \<lparr>read_cnt = 1, read_ptr = 1, read_buf = [9, 65],
      read_src = [Data [66, 10, 67]]\<rparr> = ([65, 66, 10, 67], E_block)"
    by (simp add: reader_view_def)
  moreover have "ends_line [65, 66, 10]" by (simp add: ends_line_def)
  ultimately show ?thesis
    using readline_correct [of "\<lparr>read_cnt = 1, read_ptr = 1, read_buf = [9, 65],
      read_src = [Data [66, 10, 67]]\<rparr>" "[65, 66, 10, 67]" E_block 10 "[65, 66, 10]", OF _ _ _ l [symmetric]]
    by (auto simp: reader_ok_def)
qed

text \<open>
  When the buffer fills up before a newline, \<open>readline\<close> has stored \<open>maxlen - 1\<close> bytes of
  the line but returns \<open>maxlen\<close>, one more than it read.
\<close>

theorem readline_full_overcounts:
  assumes "reader_ok st" and "reader_view st = (bs, t)" and "1 \<le> maxlen"
    and "maxlen - 1 \<le> length bs" and "10 \<notin> set (take (maxlen - 1) bs)"
  shows "\<exists>st'. readline maxlen st = Some (int maxlen, take (maxlen - 1) bs @ [0], st') \<and>
    length (take (maxlen - 1) bs) + 1 = maxlen"
proof -
  have upto: "m \<le> length xs \<Longrightarrow> 10 \<notin> set (take m xs) \<Longrightarrow> upto_nl m xs = take m xs" for m xs
    by (induction m xs rule: upto_nl.induct) auto
  have l: "take (maxlen - 1) bs = upto_nl (maxlen - 1) bs"
    using upto assms(4,5) by simp
  have nc: "\<not> ends_line (take (maxlen - 1) bs)"
    using assms(5) by (metis ends_line_def last_in_set)
  have "line_spec reader_view reader_ok maxlen 1 [] bs t (line_loop my_read maxlen 1 [] st)"
    using rd.line_loop_spec assms(1-3) by blast
  then show ?thesis
    using assms(3) l
  proof (cases rule: line_specE)
    case Full
    with assms(3) show ?thesis by (simp add: readline_def)
  qed (use nc assms(4) in simp_all)
qed

theorem readline_full_overcounts_witness:
  "\<exists>st'. readline 3 \<lparr>read_cnt = 0, read_ptr = 0, read_buf = [], read_src = [Data [65, 66, 67]]\<rparr>
      = Some (3, [65, 66, 0], st')"
  using readline_full_overcounts [of "\<lparr>read_cnt = 0, read_ptr = 0, read_buf = [],
      read_src = [Data [65, 66, 67]]\<rparr>" "[65, 66, 67]" E_block 3]
  by (simp add: reader_ok_def reader_view_def)

text \<open>
  On the same stream the re-entrant \<open>readline_r\<close> and the static \<open>readline\<close> give the
  caller the same bytes and the same count, and leave the same bytes unread, whenever the
  line is complete or fills the buffer. At an end of file after a partial line they store the
  same bytes, but \<open>readline_r\<close> returns one more than it read.
\<close>

theorem readline_r_agrees:
  assumes "reader_ok st" and "Rline_ok r" and "reader_view st = (bs, t)" and "Rline_view r = (bs, t)"
    and "1 \<le> rl_maxlen r" and "l = upto_nl (rl_maxlen r - 1) bs"
  shows "(ends_line l \<or> length l = rl_maxlen r - 1 \<longrightarrow>
           (\<exists>n st' r'. readline (rl_maxlen r) st = Some (n, l @ [0], st') \<and>
              readline_r r = Some (n, l @ [0], r') \<and> reader_view st' = Rline_view r')) \<and>
         (\<not> ends_line l \<and> length l < rl_maxlen r - 1 \<and> t = E_eof \<and> bs \<noteq> [] \<longrightarrow>
           (\<exists>st' r'. readline (rl_maxlen r) st = Some (int (length bs), bs @ [0], st') \<and>
              readline_r r = Some (int (length bs) + 1, bs @ [0], r')))"
proof -
  have 1: "line_spec reader_view reader_ok (rl_maxlen r) 1 [] bs t
      (line_loop my_read (rl_maxlen r) 1 [] st)"
    using rd.line_loop_spec assms by blast
  have 2: "line_spec Rline_view Rline_ok (rl_maxlen r) 1 [] bs t
      (line_loop my_read_r (rl_maxlen r) 1 [] r)"
    using rlr.line_loop_spec assms by blast
  show ?thesis
    using 1 assms(5,6)
  proof (cases rule: line_specE)
    case Line
    from 2 assms(5,6) Line show ?thesis
      by (cases rule: line_specE) (auto simp: readline_def readline_r_def)
  next
    case Full
    from 2 assms(5,6) Full show ?thesis
      by (cases rule: line_specE) (auto simp: readline_def readline_r_def)
  next
    case Eof
    from 2 assms(5,6) Eof show ?thesis
      by (cases rule: line_specE) (auto simp: readline_def readline_r_def)
  qed auto
qed

theorem readline_r_agrees_witness:
  "\<exists>st' r'. readline 9 \<lparr>read_cnt = 0, read_ptr = 0, read_buf = [], read_src = [Data [65], Eof]\<rparr>
      = Some (1, [65, 0], st') \<and>
    readline_r (readline_rinit [Data [65], Eof] 9 []) = Some (2, [65, 0], r')"
proof -
  have "[65] = upto_nl (9 - 1) [65]" by code_simp
  then show ?thesis
    using readline_r_agrees [of "\<lparr>read_cnt = 0, read_ptr = 0, read_buf = [],
      read_src = [Data [65], Eof]\<rparr>" "readline_rinit [Data [65], Eof] 9 []" "[65]" E_eof "[65]"]
    by (simp add: reader_ok_def reader_view_def Rline_ok_def Rline_view_def readline_rinit_def)
qed



end
