(* ===== verification/Echo_Service.thy ===== *)
theory Echo_Service
  imports Byte_IO
begin

text \<open>
  The echo service of \<open>lib/str_echo.c\<close> and \<open>lib/str_cli.c\<close>, over the reading and writing of \<open>Byte_IO\<close>: each of
  the two functions as a whole, and then both at the two ends of a connection, with the bytes in flight in both
  directions and every segmentation of them.
\<close>

subsection \<open>The server\<close>

text \<open>\<open>str_echo\<close>: what it reads from \<open>rd\<close> it writes to \<open>wr\<close>; the result is everything written.\<close>

function str_echo :: "arrival list \<Rightarrow> answer list \<Rightarrow> byte list \<Rightarrow> byte list outcome option" where
  "str_echo rd wr out =
     (case sys_read MAXLINE rd of
        None \<Rightarrow> None
      | Some (Data bs, rd') \<Rightarrow>
          (case Writen bs wr of
             None \<Rightarrow> None
           | Some (Inl e) \<Rightarrow> Some (Inl e)
           | Some (Inr (w, wr')) \<Rightarrow> str_echo rd' wr' (out @ w))
      | Some (Eof, rd') \<Rightarrow> Some (Inr out)
      | Some (Fail e, rd') \<Rightarrow>
          if e = EINTR then str_echo rd' wr out else Some (Inl (Err_sys ''str_echo: read error'')))"
  by pat_completeness auto
termination
  by (relation "measure (\<lambda>(rd, wr, out). weight rd)") (auto simp: MAXLINE_def dest: sys_read_weight [rotated])

declare str_echo.simps [simp del]

subsection \<open>The client\<close>

text \<open>\<open>fgets(buf, n, fp)\<close> on the input that is left; \<open>None\<close> is the end of file.\<close>

definition fgets :: "nat \<Rightarrow> byte list \<Rightarrow> (byte list \<times> byte list) option" where
  "fgets n inp =
     (if inp = [] then None else let l = upto_nl (n - 1) inp in Some (l, drop (length l) inp))"

text \<open>The bytes before the first NUL: what \<open>strlen\<close> counts and \<open>Fputs\<close> prints.\<close>

definition c_string :: "byte list \<Rightarrow> byte list" where
  "c_string bs = takeWhile (\<lambda>b. b \<noteq> 0) bs"

lemma fgets_shorter [termination_simp]:
  assumes "fgets n inp = Some (line, rest)" and "1 < n"
  shows "length rest < length inp"
proof -
  from assms(2) obtain m where "n - 1 = Suc m" by (cases "n - 1") auto
  then show ?thesis using assms(1) by (cases inp) (auto simp: fgets_def Let_def split: if_splits)
qed

text \<open>\<open>str_cli\<close> on the rest of its input; \<open>sent\<close> and \<open>out\<close> are what went to the socket and to standard output.\<close>

function str_cli ::
  "byte list \<Rightarrow> answer list \<Rightarrow> reader \<Rightarrow> byte list \<Rightarrow> byte list \<Rightarrow> (byte list \<times> byte list) outcome option" where
  "str_cli inp wr rd sent out =
     (case fgets MAXLINE inp of
        None \<Rightarrow> Some (Inr (sent, out))
      | Some (sendline, inp') \<Rightarrow>
          (case Writen (c_string sendline) wr of
             None \<Rightarrow> None
           | Some (Inl e) \<Rightarrow> Some (Inl e)
           | Some (Inr (w, wr')) \<Rightarrow>
               (case Readline MAXLINE rd of
                  None \<Rightarrow> None
                | Some (Inl e) \<Rightarrow> Some (Inl e)
                | Some (Inr (n, recvline, rd')) \<Rightarrow>
                    if n = 0 then Some (Inl (Err_quit ''str_cli: server terminated prematurely''))
                    else str_cli inp' wr' rd' (sent @ w) (out @ c_string recvline))))"
  by pat_completeness auto
termination
  by (relation "measure (\<lambda>(inp, wr, rd, sent, out). length inp)") (auto simp: MAXLINE_def dest: fgets_shorter)

declare str_cli.simps [simp del]

subsection \<open>Both ends of a connection\<close>

text \<open>
  \<open>waiting\<close>: the client is in \<open>Readline\<close>. \<open>c2s\<close> and \<open>s2c\<close> are the bytes in flight; what has arrived at the client
  is in its \<open>reader\<close>. The steps of the client are the two halves of its loop, the step of the server is a turn
  of its loop.
\<close>

record echo =
  typed :: "byte list"
  waiting :: bool
  c2s :: "byte list"
  s2c :: "byte list"
  rdr :: reader
  shown :: "byte list"

definition echo_start :: "byte list \<Rightarrow> echo" where
  "echo_start inp =
     \<lparr>typed = inp, waiting = False, c2s = [], s2c = [],
      rdr = \<lparr>read_cnt = 0, read_ptr = 0, read_buf = [], read_src = []\<rparr>, shown = []\<rparr>"

inductive echo_step :: "echo \<Rightarrow> echo \<Rightarrow> bool" where
  send: "\<not> waiting x \<Longrightarrow> fgets MAXLINE (typed x) = Some (line, rest) \<Longrightarrow>
    echo_step x (x\<lparr>typed := rest, waiting := True, c2s := c2s x @ c_string line\<rparr>)"
| serve: "1 \<le> k \<Longrightarrow> k \<le> length (c2s x) \<Longrightarrow> sys_read MAXLINE [Data (take k (c2s x))] = Some (Data bs, rest) \<Longrightarrow>
    echo_step x (x\<lparr>c2s := drop (length bs) (c2s x), s2c := s2c x @ bs\<rparr>)"
| arrive: "1 \<le> k \<Longrightarrow> k \<le> length (s2c x) \<Longrightarrow>
    echo_step x (x\<lparr>s2c := drop k (s2c x), rdr := (rdr x)\<lparr>read_src := read_src (rdr x) @ [Data (take k (s2c x))]\<rparr>\<rparr>)"
| receive: "waiting x \<Longrightarrow> Readline MAXLINE (rdr x) = Some (Inr (n, recvline, rd')) \<Longrightarrow> n \<noteq> 0 \<Longrightarrow>
    echo_step x (x\<lparr>waiting := False, rdr := rd', shown := shown x @ c_string recvline\<rparr>)"

inductive echo_reach :: "byte list \<Rightarrow> echo \<Rightarrow> bool" for inp where
  start: "echo_reach inp (echo_start inp)"
| step: "echo_reach inp x \<Longrightarrow> echo_step x y \<Longrightarrow> echo_reach inp y"

subsection \<open>Lines\<close>

lemma upto_nl_append: "upto_nl m bs @ drop (length (upto_nl m bs)) bs = bs"
  by (induction m bs rule: upto_nl.induct) auto

lemma upto_nl_idem: "upto_nl m (upto_nl m bs) = upto_nl m bs"
  by (induction m bs rule: upto_nl.induct) auto

lemma upto_nl_prefix:
  assumes "upto_nl m (xs @ ys) = xs @ ys" and "ys \<noteq> []"
  shows "upto_nl m xs = xs \<and> \<not> ends_line xs \<and> length xs < m"
  using assms
proof (induction xs arbitrary: m)
  case Nil
  then show ?case by (cases m) auto
next
  case (Cons x xs)
  then obtain k where "m = Suc k" by (cases m) auto
  with Cons show ?case by (cases "xs = []") (auto split: if_splits)
qed

lemma upto_nl_short: "\<not> ends_line (upto_nl m bs) \<Longrightarrow> length (upto_nl m bs) < m \<Longrightarrow> upto_nl m bs = bs"
proof (induction m bs rule: upto_nl.induct)
  case (3 m b bs)
  then show ?case by (cases "upto_nl m bs = []") (auto split: if_splits)
qed auto

lemma reader_view_arrive:
  assumes "reader_view rd = (bs, E_block)"
  shows "reader_view (rd\<lparr>read_src := read_src rd @ [Data new]\<rparr>) = (bs @ new, E_block)"
proof -
  have "snd (avail s) = E_block \<Longrightarrow> avail (s @ [Data new]) = (fst (avail s) @ new, E_block)" for s
    by (induction s rule: avail.induct) (auto split: if_splits)
  from this [of "read_src rd"] assms show ?thesis by (auto simp: reader_view_def)
qed

text \<open>\<open>Readline\<close> on a connection that stays open: a whole line or a full buffer, or it waits.\<close>

lemma Readline_open:
  assumes "reader_ok rd" and "reader_view rd = (bs, E_block)" and "l = upto_nl (MAXLINE - 1) bs"
  shows "if ends_line l \<or> length l = MAXLINE - 1
    then \<exists>n rd'. Readline MAXLINE rd = Some (Inr (n, l @ [0], rd')) \<and> n \<noteq> 0 \<and> reader_ok rd' \<and>
      reader_view rd' = (drop (length l) bs, E_block)
    else Readline MAXLINE rd = None"
proof -
  have M: "1 \<le> MAXLINE" by (simp add: MAXLINE_def)
  have "line_spec reader_view reader_ok MAXLINE 1 [] bs E_block (line_loop my_read MAXLINE 1 [] rd)"
    using rd.line_loop_spec assms(1,2) M by blast
  then show ?thesis using M assms(3)
  proof (cases rule: line_specE)
    case (Line st')
    then have "l \<noteq> []" by (auto simp: ends_line_def)
    with Line show ?thesis by (simp add: Readline_def readline_def)
  next
    case (Full st')
    then show ?thesis by (simp add: Readline_def readline_def MAXLINE_def)
  qed (auto simp: Readline_def readline_def)
qed


subsection \<open>The invariant\<close>

text \<open>
  \<open>have\<close> has arrived at the client and was not shown; with what is in flight it is nothing, or the line the client waits
  for.
\<close>

definition line_ok :: "bool \<Rightarrow> byte list \<Rightarrow> byte list \<Rightarrow> bool" where
  "line_ok wait pend more_input =
     (if wait
      then pend \<noteq> [] \<and> upto_nl (MAXLINE - 1) pend = pend \<and> (ends_line pend \<or> length pend = MAXLINE - 1 \<or> more_input = [])
      else pend = [])"

definition echo_inv :: "byte list \<Rightarrow> echo \<Rightarrow> bool" where
  "echo_inv inp x =
     (\<exists>have. reader_ok (rdr x) \<and> reader_view (rdr x) = (have, E_block) \<and>
        inp = shown x @ (have @ s2c x @ c2s x) @ typed x \<and>
        line_ok (waiting x) (have @ s2c x @ c2s x) (typed x))"

lemma c_string_id: "0 \<notin> set bs \<Longrightarrow> c_string bs = bs" "0 \<notin> set bs \<Longrightarrow> c_string (bs @ [0]) = bs"
  by (auto simp: c_string_def takeWhile_eq_all_conv takeWhile_append)

lemma echo_start_inv: "echo_inv inp (echo_start inp)"
  by (simp add: echo_inv_def echo_start_def reader_ok_def reader_view_def line_ok_def)

lemma fgets_line:
  assumes "fgets MAXLINE inp = Some (line, rest)"
  shows "inp = line @ rest" "line \<noteq> []" "upto_nl (MAXLINE - 1) line = line"
    "ends_line line \<or> length line = MAXLINE - 1 \<or> rest = []"
proof -
  have l: "line = upto_nl (MAXLINE - 1) inp" "rest = drop (length line) inp" "inp \<noteq> []"
    using assms by (auto simp: fgets_def Let_def split: if_splits)
  then show "inp = line @ rest" "upto_nl (MAXLINE - 1) line = line" using upto_nl_append [of "MAXLINE - 1" inp] upto_nl_idem by simp_all
  obtain m where "MAXLINE - 1 = Suc m" using not0_implies_Suc [of "MAXLINE - 1"] by (auto simp: MAXLINE_def)
  then show "line \<noteq> []" using l by (cases inp) simp_all
  show "ends_line line \<or> length line = MAXLINE - 1 \<or> rest = []"
  proof (cases "length line = MAXLINE - 1 \<or> ends_line line")
    case False
    then have "length line < MAXLINE - 1" using length_upto_nl [of "MAXLINE - 1" inp] l(1) by auto
    with False upto_nl_short [of "MAXLINE - 1" inp] l(1) have "line = inp" by simp
    then show ?thesis using l(2) by simp
  qed auto
qed

lemma echo_step_inv:
  assumes "echo_step x y" and "echo_inv inp x" and "0 \<notin> set inp"
  shows "echo_inv inp y"
proof -
  from assms(2) obtain got where ok: "reader_ok (rdr x)" "reader_view (rdr x) = (got, E_block)"
    and inp: "inp = shown x @ (got @ s2c x @ c2s x) @ typed x"
    and w: "line_ok (waiting x) (got @ s2c x @ c2s x) (typed x)"
    unfolding echo_inv_def by blast
  from assms(1) show ?thesis
  proof cases
    case (send line rest)
    note f = fgets_line [OF send(3)]
    have "0 \<notin> set line" using assms(3) inp f(1) by auto
    moreover have "got = []" "s2c x = []" "c2s x = []" using w send(2) by (simp_all add: line_ok_def)
    ultimately show ?thesis using send(1,2) ok inp f by (simp add: echo_inv_def c_string_id line_ok_def)
  next
    case (serve k bs rest)
    have bs: "bs = take (min MAXLINE k) (c2s x)" "length bs \<le> length (c2s x)"
      using serve by (auto split: if_splits)
    moreover have "take j xs @ drop (length (take j xs)) xs = xs" for j and xs :: "byte list" by (cases "j \<le> length xs") simp_all
    ultimately have "bs @ drop (length bs) (c2s x) = c2s x" by metis
    then have "got @ (s2c x @ bs) @ drop (length bs) (c2s x) = got @ s2c x @ c2s x" by simp
    then show ?thesis using serve(1) w ok inp unfolding echo_inv_def by (intro exI [of _ got]) simp
  next
    case (arrive k)
    have "reader_ok ((rdr x)\<lparr>read_src := read_src (rdr x) @ [Data (take k (s2c x))]\<rparr>)" using ok(1) by (simp add: reader_ok_def)
    moreover note reader_view_arrive [OF ok(2), of "take k (s2c x)"]
    moreover have "(got @ take k (s2c x)) @ drop k (s2c x) @ c2s x = got @ s2c x @ c2s x" by (metis append_assoc append_take_drop_id)
    then have "line_ok (waiting x) ((got @ take k (s2c x)) @ drop k (s2c x) @ c2s x) (typed x)"
        "inp = shown x @ ((got @ take k (s2c x)) @ drop k (s2c x) @ c2s x) @ typed x"
      using w inp by (simp_all only:)
    ultimately show ?thesis unfolding arrive(1) echo_inv_def by (intro exI [of _ "got @ take k (s2c x)"]) simp
  next
    case (receive n recvline rd')
    let ?all = "got @ s2c x @ c2s x" and ?l = "upto_nl (MAXLINE - 1) got"
    have all: "upto_nl (MAXLINE - 1) ?all = ?all" using w receive(2) by (simp add: line_ok_def)
    have "s2c x @ c2s x = []"
    proof (rule ccontr)
      assume ne: "s2c x @ c2s x \<noteq> []"
      from upto_nl_prefix [OF all ne] Readline_open [OF ok refl] receive(3) show False by simp
    qed
    then have e: "s2c x = []" "c2s x = []" "?l = got" using all by simp_all
    with Readline_open [OF ok refl] receive(3) have r: "recvline = got @ [0]" "reader_ok rd'" "reader_view rd' = ([], E_block)"
      by (auto split: if_splits)
    have "0 \<notin> set got" using assms(3) inp by auto
    then show ?thesis using receive(1) r e inp by (simp add: echo_inv_def c_string_id line_ok_def)
  qed
qed

lemma echo_reach_inv: "echo_reach inp x \<Longrightarrow> 0 \<notin> set inp \<Longrightarrow> echo_inv inp x"
  by (induction rule: echo_reach.induct) (auto simp: echo_start_inv echo_step_inv)


text \<open>What is left to do: every step makes it less.\<close>

definition echo_left :: "echo \<Rightarrow> nat" where
  "echo_left x =
     5 * length (typed x) + 3 * length (c2s x) + 2 * length (s2c x) + length (fst (reader_view (rdr x))) +
     (if waiting x then 1 else 0)"

lemma echo_step_less:
  assumes "echo_step x y" and "echo_inv inp x" and "0 \<notin> set inp"
  shows "echo_left y < echo_left x"
proof -
  have inv': "echo_inv inp y" by (rule echo_step_inv [OF assms])
  from assms(2) obtain got where v: "reader_view (rdr x) = (got, E_block)" unfolding echo_inv_def by blast
  from assms(1) show ?thesis
  proof cases
    case (send line rest)
    have "length (c_string line) \<le> length line" by (simp add: c_string_def length_takeWhile_le)
    then show ?thesis using send fgets_line(1,2) [OF send(3)] by (cases line) (simp_all add: echo_left_def)
  next
    case (serve k bs rest)
    have "bs \<noteq> []" "length bs \<le> length (c2s x)" using serve by (auto simp: MAXLINE_def split: if_splits)
    then show ?thesis using serve by (cases bs) (simp_all add: echo_left_def)
  next
    case (arrive k)
    then show ?thesis using reader_view_arrive [OF v, of "take k (s2c x)"] v by (simp add: echo_left_def)
  next
    case (receive n recvline rd')
    have "fst (reader_view rd') = []" using inv' receive(1) by (auto simp: echo_inv_def line_ok_def)
    then show ?thesis using receive by (simp add: echo_left_def)
  qed
qed

lemma echo_progress:
  assumes "echo_inv inp x" and "ends_line inp" and "typed x \<noteq> [] \<or> waiting x"
  shows "\<exists>y. echo_step x y"
proof -
  from assms(1) obtain got where ok: "reader_ok (rdr x)" "reader_view (rdr x) = (got, E_block)"
    and inp: "inp = shown x @ (got @ s2c x @ c2s x) @ typed x"
    and w: "line_ok (waiting x) (got @ s2c x @ c2s x) (typed x)"
    unfolding echo_inv_def by blast
  consider "\<not> waiting x" | "c2s x \<noteq> []" | "s2c x \<noteq> []" | "waiting x" "c2s x = []" "s2c x = []" by blast
  then show ?thesis
  proof cases
    case 1
    with assms(3) have "typed x \<noteq> []" by simp
    then obtain line rest where "fgets MAXLINE (typed x) = Some (line, rest)" by (auto simp: fgets_def Let_def)
    then show ?thesis using send [OF 1] by blast
  next
    case 2
    then have "sys_read MAXLINE [Data (take 1 (c2s x))] = Some (Data (take 1 (c2s x)), [])"
      by (cases "c2s x") (simp_all add: MAXLINE_def)
    moreover have "1 \<le> length (c2s x)" using 2 by (cases "c2s x") simp_all
    ultimately show ?thesis using serve [of 1 x] by blast
  next
    case 3
    then have "1 \<le> length (s2c x)" by (cases "s2c x") simp_all
    then show ?thesis using arrive [of 1 x] by blast
  next
    case 4
    have "ends_line got \<or> length got = MAXLINE - 1"
      using w 4 assms(2) inp by (auto simp: line_ok_def ends_line_def)
    moreover have "upto_nl (MAXLINE - 1) got = got" using w 4 by (simp add: line_ok_def)
    ultimately have "ends_line (upto_nl (MAXLINE - 1) got) \<or> length (upto_nl (MAXLINE - 1) got) = MAXLINE - 1" by simp
    with Readline_open [OF ok refl] obtain n l rd' where "Readline MAXLINE (rdr x) = Some (Inr (n, l, rd'))" "n \<noteq> 0"
      by (auto split: if_splits)
    then show ?thesis using receive [OF 4(1)] by blast
  qed
qed

text \<open>
  The server echoes: on a connection that the client closes, with a kernel that goes on taking bytes, \<open>str_echo\<close> returns and has written exactly
  the bytes it was sent.
\<close>

lemma str_echo_echoes:
  assumes "avail rd = (bs, E_eof)" and "\<forall>a \<in> set wr. obliging a" and "length bs \<le> length (filter (\<lambda>a. a \<noteq> WFail EINTR) wr)"
  shows "str_echo rd wr out = Some (Inr (out @ bs))"
  using assms
proof (induction rd wr out arbitrary: bs rule: str_echo.induct)
  case (1 rd wr out)
  have M: "0 < MAXLINE" by (simp add: MAXLINE_def)
  obtain a rd' where r: "sys_read MAXLINE rd = Some (a, rd')"
    using sys_read_block [of MAXLINE rd] 1(3) by (cases "sys_read MAXLINE rd") auto
  show ?case
  proof (cases a)
    case Eof
    then show ?thesis using sys_read_eof [of MAXLINE rd rd'] r 1(3) by (subst str_echo.simps) simp
  next
    case (Fail e)
    then have "e = EINTR" "avail rd' = (bs, E_eof)" using sys_read_fail [of MAXLINE rd e rd'] r 1(3) by (auto split: if_splits)
    then show ?thesis using 1(2) [OF r _ Fail] 1(4,5) r Fail by (subst str_echo.simps) simp
  next
    case (Data d)
    then obtain rest where d: "bs = d @ rest" "avail rd' = (rest, E_eof)"
      using sys_read_data [OF M, of rd d rd'] r 1(3) by (cases "avail rd'") auto
    with 1(5) writen_loop_finishes [OF 1(4), of d "length d" "[]"] obtain wr' where
      w: "writen d wr = Some (int (length d), d, wr')" "set wr' \<subseteq> set wr"
        "length (filter (\<lambda>a. a \<noteq> WFail EINTR) wr) \<le> length (filter (\<lambda>a. a \<noteq> WFail EINTR) wr') + length d"
      by (auto simp: writen_def)
    then have W: "Writen d wr = Some (Inr (d, wr'))" by (simp add: Writen_def)
    have "str_echo rd' wr' (out @ d) = Some (Inr ((out @ d) @ rest))"
    proof (rule 1(1) [OF r refl Data W refl refl d(2)])
      show "\<forall>a \<in> set wr'. obliging a" using w(2) 1(4) by blast
      show "length rest \<le> length (filter (\<lambda>a. a \<noteq> WFail EINTR) wr')" using w(3) 1(5) d(1) by simp
    qed
    then show ?thesis using r Data W d(1) by (subst str_echo.simps) simp
  qed
qed



end
