(* ===== verification/Inet_Addr.thy ===== *)
theory Inet_Addr
  imports NP_Prelude
begin

text \<open>
  Presentation and network form of addresses: \<open>libfree/inet_pton.c\<close>, \<open>libfree/inet_ntop.c\<close>
  (the BIND routines for IPv4 and IPv6), \<open>libfree/inet_aton.c\<close> and the IPv4-only
  \<open>libfree/inet_pton_ipv4.c\<close> and \<open>libfree/inet_ntop_ipv4.c\<close>.

  An address in network form is the list of its bytes, most significant first, as \<open>memcpy\<close>
  moves them.
\<close>

subsection \<open>inet\_pton4\<close>

text \<open>
  The \<open>while\<close> loop of \<open>inet_pton4\<close>. \<open>tmp\<close> holds the cells of the array written so far, the
  last of them being \<open>*tp\<close>; \<open>None\<close> is the return value 0.
\<close>

fun pton4_loop :: "string \<Rightarrow> bool \<Rightarrow> nat \<Rightarrow> byte list \<Rightarrow> byte list option" where
  "pton4_loop [] saw_digit octets tmp = (if octets < 4 then None else Some tmp)"
| "pton4_loop (ch # src) saw_digit octets tmp =
     (case digit_val ch of
        Some d \<Rightarrow>
          let new = unat (last tmp) * 10 + d in
          if new > 255 then None
          else let tmp' = butlast tmp @ [of_nat new] in
            if \<not> saw_digit then
              (if octets + 1 > 4 then None else pton4_loop src True (octets + 1) tmp')
            else pton4_loop src saw_digit octets tmp'
      | None \<Rightarrow>
          if ch = CHR ''.'' \<and> saw_digit then
            (if octets = 4 then None else pton4_loop src False octets (tmp @ [0]))
          else None)"

definition inet_pton4 :: "string \<Rightarrow> byte list option" where
  "inet_pton4 src = pton4_loop src False 0 [0]"

subsection \<open>inet\_pton6\<close>

text \<open>
  The scanner's variables at the end of the loop: the array, \<open>tp\<close> and \<open>colonp\<close> as offsets
  into it, \<open>saw_xdigit\<close> and \<open>val\<close>. \<open>val\<close> stays at most 0xffff between iterations, so the
  shift and the or on it are \<open>16 * val + d\<close>.
\<close>

record pton6_state =
  p_tmp :: "byte list"
  p_tp :: nat
  p_colonp :: "nat option"
  p_saw :: bool
  p_val :: nat

definition store16 :: "pton6_state \<Rightarrow> pton6_state" where
  "store16 st = st\<lparr>p_tmp := (p_tmp st)[p_tp st := of_nat (p_val st div 256),
     Suc (p_tp st) := of_nat (p_val st mod 256)], p_tp := p_tp st + 2\<rparr>"

definition store32 :: "byte list \<Rightarrow> pton6_state \<Rightarrow> pton6_state" where
  "store32 a st = st\<lparr>p_tmp := (p_tmp st)[p_tp st := a ! 0, p_tp st + 1 := a ! 1,
     p_tp st + 2 := a ! 2, p_tp st + 3 := a ! 3], p_tp := p_tp st + 4, p_saw := False\<rparr>"

fun pton6_loop :: "string \<Rightarrow> string \<Rightarrow> pton6_state \<Rightarrow> pton6_state option" where
  "pton6_loop [] curtok st = Some st"
| "pton6_loop (ch # src) curtok st =
     (case xdigit_val ch of
        Some d \<Rightarrow>
          let val = 16 * p_val st + d in
          if val > 65535 then None
          else pton6_loop src curtok (st\<lparr>p_val := val, p_saw := True\<rparr>)
      | None \<Rightarrow>
          if ch = CHR '':'' then
            (if \<not> p_saw st then
               (if p_colonp st \<noteq> None then None
                else pton6_loop src src (st\<lparr>p_colonp := Some (p_tp st)\<rparr>))
             else if p_tp st + 2 > 16 then None
             else pton6_loop src src ((store16 st)\<lparr>p_saw := False, p_val := 0\<rparr>))
          else if ch = CHR ''.'' \<and> p_tp st + 4 \<le> 16 then
            (case inet_pton4 curtok of
               None \<Rightarrow> None
             | Some a \<Rightarrow> Some (store32 a st))
          else None)"

text \<open>The shift of the bytes after \<open>::\<close> to the end of the array, one byte per iteration.\<close>

definition shift_loop :: "nat \<Rightarrow> nat \<Rightarrow> byte list \<Rightarrow> byte list" where
  "shift_loop colonp n tmp =
     fold (\<lambda>i tmp. tmp[16 - i := tmp ! (colonp + n - i), colonp + n - i := 0]) [1..<Suc n] tmp"

definition pton6_finish :: "pton6_state \<Rightarrow> byte list option" where
  "pton6_finish st =
     (if p_saw st \<and> p_tp st + 2 > 16 then None
      else let st1 = (if p_saw st then store16 st else st) in
        case p_colonp st1 of
          Some c \<Rightarrow> Some (shift_loop c (p_tp st1 - c) (p_tmp st1))
        | None \<Rightarrow> if p_tp st1 \<noteq> 16 then None else Some (p_tmp st1))"

definition pton6_init :: pton6_state where
  "pton6_init = \<lparr>p_tmp = replicate 16 0, p_tp = 0, p_colonp = None, p_saw = False, p_val = 0\<rparr>"

definition inet_pton6 :: "string \<Rightarrow> byte list option" where
  "inet_pton6 src =
     (if take 1 src = '':'' \<and> take 1 (tl src) \<noteq> '':'' then None
      else let src = (if take 1 src = '':'' then tl src else src) in
        Option.bind (pton6_loop src src pton6_init) pton6_finish)"

datatype pton_result = Valid "byte list" | Invalid | Pton_error errno

definition inet_pton :: "int \<Rightarrow> string \<Rightarrow> pton_result" where
  "inet_pton af src =
     (if af = AF_INET then (case inet_pton4 src of Some a \<Rightarrow> Valid a | None \<Rightarrow> Invalid)
      else if af = AF_INET6 then (case inet_pton6 src of Some a \<Rightarrow> Valid a | None \<Rightarrow> Invalid)
      else Pton_error EAFNOSUPPORT)"

subsection \<open>inet\_ntop4 and inet\_ntop6\<close>

definition dotted :: "byte list \<Rightarrow> string" where
  "dotted src = print_dec (unat (src ! 0)) @ ''.'' @ print_dec (unat (src ! 1)) @ ''.'' @
     print_dec (unat (src ! 2)) @ ''.'' @ print_dec (unat (src ! 3))"

text \<open>The result is the string copied to \<open>dst\<close> (with its NUL), or the error number.\<close>

definition inet_ntop4 :: "byte list \<Rightarrow> nat \<Rightarrow> errno + string" where
  "inet_ntop4 src sz = (let tmp = dotted src in if length tmp > sz then Inl ENOSPC else Inr tmp)"

definition ntop6_words :: "byte list \<Rightarrow> 32 word list" where
  "ntop6_words src =
     fold (\<lambda>i ws. ws[i div 2 := ws ! (i div 2) OR push_bit ((1 - i mod 2) * 8) (ucast (src ! i))])
       [0..<16] (replicate 8 0)"

text \<open>Runs of zero words as (base, length); \<open>None\<close> is a base of -1.\<close>

type_synonym run = "(nat \<times> nat) option"

fun better :: "run \<Rightarrow> run \<Rightarrow> run" where
  "better best None = best"
| "better None (Some c) = Some c"
| "better (Some b) (Some c) = (if snd c > snd b then Some c else Some b)"

fun scan_runs :: "32 word list \<Rightarrow> nat \<Rightarrow> run \<Rightarrow> run \<Rightarrow> run" where
  "scan_runs [] i best cur = better best cur"
| "scan_runs (w # ws) i best cur =
     (if w = 0 then
        scan_runs ws (Suc i) best (case cur of None \<Rightarrow> Some (i, 1) | Some (b, l) \<Rightarrow> Some (b, Suc l))
      else scan_runs ws (Suc i) (better best cur) None)"

definition best_run :: "32 word list \<Rightarrow> run" where
  "best_run ws = (case scan_runs ws 0 None None of
     Some (b, l) \<Rightarrow> if l < 2 then None else Some (b, l) | None \<Rightarrow> None)"

definition in_run :: "run \<Rightarrow> nat \<Rightarrow> bool" where
  "in_run r i = (case r of None \<Rightarrow> False | Some (b, l) \<Rightarrow> b \<le> i \<and> i < b + l)"

definition encapsulated :: "run \<Rightarrow> 32 word list \<Rightarrow> bool" where
  "encapsulated r ws = (case r of None \<Rightarrow> False
     | Some (b, l) \<Rightarrow> b = 0 \<and> (l = 6 \<or> (l = 5 \<and> ws ! 5 = 0xffff)))"

function ntop6_loop ::
  "byte list \<Rightarrow> 32 word list \<Rightarrow> run \<Rightarrow> nat \<Rightarrow> string \<Rightarrow> errno + string" where
  "ntop6_loop src ws best i tmp =
     (if i < 8 then
        if in_run best i then
          ntop6_loop src ws best (Suc i) (if map_option fst best = Some i then tmp @ '':'' else tmp)
        else
          let tmp1 = (if i \<noteq> 0 then tmp @ '':'' else tmp) in
          if i = 6 \<and> encapsulated best ws then
            (case inet_ntop4 (drop 12 src) (46 - length tmp1) of
               Inl e \<Rightarrow> Inl e | Inr s \<Rightarrow> Inr (tmp1 @ s))
          else ntop6_loop src ws best (Suc i) (tmp1 @ print_hex (unat (ws ! i)))
      else Inr tmp)"
  by pat_completeness auto
termination
  by (relation "measure (\<lambda>(src, ws, best, i, tmp). 8 - i)") auto

declare ntop6_loop.simps [simp del]

definition inet_ntop6 :: "byte list \<Rightarrow> nat \<Rightarrow> errno + string" where
  "inet_ntop6 src sz =
     (let ws = ntop6_words src; best = best_run ws in
      case ntop6_loop src ws best 0 [] of
        Inl e \<Rightarrow> Inl e
      | Inr t \<Rightarrow>
          let tmp = (case best of Some (b, l) \<Rightarrow> if b + l = 8 then t @ '':'' else t | None \<Rightarrow> t) in
          if length tmp + 1 > sz then Inl ENOSPC else Inr tmp)"

definition inet_ntop :: "int \<Rightarrow> byte list \<Rightarrow> nat \<Rightarrow> errno + string" where
  "inet_ntop af src sz =
     (if af = AF_INET then inet_ntop4 src sz
      else if af = AF_INET6 then inet_ntop6 src sz
      else Inl EAFNOSUPPORT)"

subsection \<open>inet\_aton and the IPv4-only pair\<close>

text \<open>\<open>u_long\<close> is 64 bits wide: \<open>acc\<close> and \<open>addr\<close> wrap around.\<close>

fun aton_loop :: "string \<Rightarrow> nat \<Rightarrow> 64 word \<Rightarrow> 64 word \<Rightarrow> (nat \<times> 64 word) option" where
  "aton_loop [] dots acc addr =
     (if acc > 255 then None else Some (dots, push_bit 8 addr OR acc))"
| "aton_loop (cc # cp) dots acc addr =
     (case digit_val cc of
        Some d \<Rightarrow> aton_loop cp dots (acc * 10 + of_nat d) addr
      | None \<Rightarrow>
          if cc = CHR ''.'' then
            (if dots + 1 > 3 then None
             else if acc > 255 then None
             else aton_loop cp (dots + 1) 0 (push_bit 8 addr OR acc))
          else None)"

definition inet_aton :: "string \<Rightarrow> byte list option" where
  "inet_aton cp =
     map_option (\<lambda>(dots, addr).
       be32 (ucast (if dots < 3 then push_bit (8 * (3 - dots)) addr else addr))) (aton_loop cp 0 0 0)"

definition inet_pton_ipv4 :: "int \<Rightarrow> string \<Rightarrow> pton_result" where
  "inet_pton_ipv4 family strptr =
     (if family = AF_INET then
        (case inet_aton strptr of Some in_val \<Rightarrow> Valid in_val | None \<Rightarrow> Invalid)
      else Pton_error EAFNOSUPPORT)"

definition inet_ntop_ipv4 :: "int \<Rightarrow> byte list \<Rightarrow> nat \<Rightarrow> errno + string" where
  "inet_ntop_ipv4 family p len =
     (if family = AF_INET then
        let temp = snprintf_buf 16 (dotted p) in
        if length temp \<ge> len then Inl ENOSPC else Inr temp
      else Inl EAFNOSUPPORT)"

subsection \<open>A reference reading of dotted quads\<close>

fun split_on :: "char \<Rightarrow> string \<Rightarrow> string list" where
  "split_on c [] = [[]]"
| "split_on c (x # xs) =
     (if x = c then [] # split_on c xs
      else case split_on c xs of [] \<Rightarrow> [[x]] | p # ps \<Rightarrow> (x # p) # ps)"

definition dec_val :: "string \<Rightarrow> nat" where
  "dec_val p = num_of 10 (map (the \<circ> digit_val) p)"

definition quad_part :: "string \<Rightarrow> bool" where
  "quad_part p = (p \<noteq> [] \<and> list_all isdigit p \<and> dec_val p \<le> 255)"

text \<open>Four decimal numbers of at least one digit, each at most 255, separated by dots.\<close>

definition dotted_quad :: "string \<Rightarrow> byte list option" where
  "dotted_quad s = (let ps = split_on CHR ''.'' s in
     if length ps = 4 \<and> list_all quad_part ps then Some (map (of_nat \<circ> dec_val) ps) else None)"

lemma split_on_nonempty [simp]: "split_on c s \<noteq> []"
  by (induction s) (auto split: list.splits)

lemma split_on_append: "c \<notin> set p \<Longrightarrow> split_on c (p @ c # s) = p # split_on c s"
  by (induction p) auto

lemma split_on_none: "c \<notin> set p \<Longrightarrow> split_on c p = [p]"
  by (induction p) auto

lemma digit_val_dot [simp]: "digit_val CHR ''.'' = None"
  by code_simp

text \<open>
  The loop, started in the middle of the string: \<open>xs\<close> are the octets already finished and
  \<open>v\<close> is the value of the current one.
\<close>

definition pton4_expect :: "byte list \<Rightarrow> nat \<Rightarrow> bool \<Rightarrow> string list \<Rightarrow> byte list option" where
  "pton4_expect xs v saw ps = (case ps of [] \<Rightarrow> None | p # ps \<Rightarrow>
     let n = foldl (\<lambda>a d. a * 10 + d) v (map (the \<circ> digit_val) p) in
     if list_all isdigit p \<and> (saw \<or> p \<noteq> []) \<and> n \<le> 255 \<and> list_all quad_part ps \<and>
        length xs + length ps = 3
     then Some (xs @ of_nat n # map (of_nat \<circ> dec_val) ps) else None)"

lemma pton4_expect_digit:
  assumes "digit_val c = Some d" and "split_on CHR ''.'' src = p # ps"
  shows "pton4_expect xs v saw (split_on CHR ''.'' (c # src)) =
    (if v * 10 + d > 255 then None else pton4_expect xs (v * 10 + d) True (p # ps))"
proof -
  have "c \<noteq> CHR ''.''" using assms(1) by auto
  moreover have "v * 10 + d \<le> foldl (\<lambda>a d. a * 10 + d) (v * 10 + d) (map (the \<circ> digit_val) p)"
    by (rule foldl_digits_mono) simp
  ultimately show ?thesis
    using assms by (auto simp: pton4_expect_def isdigit_def Let_def)
qed

lemma pton4_expect_dot:
  assumes "split_on CHR ''.'' src = p # ps" and "v \<le> 255"
  shows "pton4_expect xs v saw (split_on CHR ''.'' (CHR ''.'' # src)) =
    (if saw \<and> length xs < 3 then pton4_expect (xs @ [of_nat v]) 0 False (p # ps) else None)"
  using assms
  by (auto simp: pton4_expect_def quad_part_def dec_val_def num_of_def Let_def)

lemma pton4_loop_expect:
  assumes "v \<le> 255" and "length xs \<le> 3" and "\<not> saw \<longrightarrow> v = 0"
  shows "pton4_loop src saw (length xs + (if saw then 1 else 0)) (xs @ [of_nat v]) =
    pton4_expect xs v saw (split_on CHR ''.'' src)"
  using assms
proof (induction src arbitrary: xs v saw)
  case Nil
  then show ?case by (auto simp: pton4_expect_def)
next
  case (Cons c src)
  obtain p ps where sp: "split_on CHR ''.'' src = p # ps"
    by (meson list.exhaust split_on_nonempty)
  have v: "unat (of_nat v :: byte) = v"
    using Cons.prems(1) by (simp add: unat_of_nat)
  show ?case
  proof (cases "digit_val c")
    case (Some d)
    have "pton4_loop (c # src) saw (length xs + (if saw then 1 else 0)) (xs @ [of_nat v]) =
      (if v * 10 + d > 255 then None
       else pton4_loop src True (length xs + (if True then 1 else 0)) (xs @ [of_nat (v * 10 + d)]))"
      using Some v Cons.prems(2) by (simp add: Let_def)
    then show ?thesis
      using Cons.IH [of "v * 10 + d" xs True] Cons.prems(2) pton4_expect_digit [OF Some sp] sp
      by simp
  next
    case None
    show ?thesis
    proof (cases "c = CHR ''.''")
      case True
      have "pton4_loop (c # src) saw (length xs + (if saw then 1 else 0)) (xs @ [of_nat v]) =
        (if saw \<and> length xs < 3
         then pton4_loop src False (length (xs @ [of_nat v :: byte]) + (if False then 1 else 0))
           ((xs @ [of_nat v]) @ [of_nat 0]) else None)"
        using True Cons.prems(2) by auto
      then show ?thesis
        using Cons.IH [of 0 "xs @ [of_nat v]" False] pton4_expect_dot [OF sp Cons.prems(1)] True sp
        by auto
    next
      case False
      with None sp show ?thesis
        by (auto simp: pton4_expect_def isdigit_def Let_def)
    qed
  qed
qed

lemma inet_pton4_eq: "inet_pton4 s = dotted_quad s"
proof -
  obtain p ps where sp: "split_on CHR ''.'' s = p # ps"
    by (meson list.exhaust split_on_nonempty)
  have "inet_pton4 s = pton4_expect [] 0 False (p # ps)"
    using pton4_loop_expect [of 0 "[]" False s] sp by (simp add: inet_pton4_def)
  then show ?thesis
    using sp by (auto simp: dotted_quad_def pton4_expect_def quad_part_def dec_val_def num_of_def Let_def)
qed

lemma digits_print_dec:
  "list_all isdigit (print_dec n)" "print_dec n \<noteq> []" "dec_val (print_dec n) = n"
  "CHR ''.'' \<notin> set (print_dec n)" "CHR '':'' \<notin> set (print_dec n)"
proof -
  have d: "d \<in> set (digits_of 10 n) \<Longrightarrow> d < 10" for d using digits_of_bound by force
  show "list_all isdigit (print_dec n)"
    using d by (auto simp: print_dec_def print_base_digits list_all_iff isdigit_def digit_simps)
  then show "CHR ''.'' \<notin> set (print_dec n)" "CHR '':'' \<notin> set (print_dec n)"
    by (auto simp: list_all_iff isdigit_def) (auto simp: digit_val_def)
  show "print_dec n \<noteq> []" by (simp add: print_dec_def print_base_digits)
  have "map (the \<circ> digit_val) (print_dec n) = digits_of 10 n"
    using d by (auto simp: print_dec_def print_base_digits digit_simps intro!: map_idI)
  then show "dec_val (print_dec n) = n" by (simp add: dec_val_def digit_simps)
qed

lemma length_print_dec_byte: "length (print_dec (unat (b::byte))) \<le> 3"
proof -
  have "unat b < 10 ^ 3" by (rule less_trans [OF unat_byte_lt]) simp
  then show ?thesis
    using length_digits_of [of 10 "unat b" 3] by (simp add: print_dec_def print_base_digits)
qed

lemma length_dotted: "length (dotted bs) \<le> 15"
  using length_print_dec_byte [of "bs ! 0"] length_print_dec_byte [of "bs ! 1"]
    length_print_dec_byte [of "bs ! 2"] length_print_dec_byte [of "bs ! 3"]
  by (simp add: dotted_def)

lemma split_dotted:
  "split_on CHR ''.'' (dotted bs) = map (\<lambda>i. print_dec (unat (bs ! i))) [0, 1, 2, 3]"
  by (simp add: dotted_def split_on_append split_on_none digits_print_dec)

lemma inet_pton4_dotted: "inet_pton4 (dotted [a, b, c, d]) = Some [a, b, c, d]"
  by (simp add: inet_pton4_eq dotted_quad_def split_dotted quad_part_def digits_print_dec
      less_Suc_eq_le [symmetric])

subsection \<open>inet\_aton against inet\_pton4\<close>

definition quad_num :: "byte list \<Rightarrow> nat" where
  "quad_num bs = num_of 256 (map unat bs)"

lemma quad_num_snoc: "quad_num (bs @ [b]) = quad_num bs * 256 + unat b"
  by (simp add: quad_num_def)

lemma quad_num_bound: "quad_num bs < 256 ^ length bs"
proof (induction bs rule: rev_induct)
  case Nil
  then show ?case by (simp add: quad_num_def)
next
  case (snoc b bs)
  then have "quad_num bs * 256 + unat b < (quad_num bs + 1) * 256"
    using unat_byte_lt [of b] by simp
  also have "\<dots> \<le> 256 ^ length bs * 256" using snoc by (intro mult_right_mono) auto
  finally show ?case by (simp add: quad_num_snoc)
qed

lemma unat_append_octet:
  assumes "unat addr = quad_num xs" and "length xs \<le> 3" and "v \<le> 255"
  shows "unat (push_bit 8 addr OR (of_nat v :: 64 word)) = quad_num (xs @ [of_nat v])"
proof -
  have v: "unat (of_nat v :: 64 word) = v" "unat (of_nat v :: byte) = v"
    using assms(3) by (simp_all add: unat_of_nat)
  have "quad_num xs < 256 ^ length xs" by (rule quad_num_bound)
  also have "\<dots> \<le> 256 ^ 3" using assms(2) by (intro power_increasing) auto
  finally have "unat addr * 256 + 255 < 2 ^ LENGTH(64)" using assms(1) by simp
  with unat_push8_or [of "of_nat v :: 64 word" addr] v assms show ?thesis
    by (simp add: quad_num_snoc)
qed

lemma aton_loop_pton4:
  assumes "pton4_loop src saw (length xs + (if saw then 1 else 0)) (xs @ [of_nat v]) = Some bs"
    and "v \<le> 255" and "length xs \<le> 3" and "unat addr = quad_num xs"
  shows "\<exists>addr'. aton_loop src (length xs) (of_nat v) addr = Some (3, addr') \<and>
    unat addr' = quad_num bs \<and> length bs = 4"
  using assms
proof (induction src arbitrary: xs v saw addr)
  case Nil
  have "\<not> (of_nat v :: 64 word) > 255"
    using Nil.prems(2) by (simp add: word_less_nat_alt unat_of_nat)
  with Nil unat_append_octet [of addr xs v] show ?case
    by (auto split: if_splits)
next
  case (Cons c src)
  have v: "unat (of_nat v :: byte) = v"
    using Cons.prems(2) by (simp add: unat_of_nat)
  show ?case
  proof (cases "digit_val c")
    case (Some d)
    with Cons.prems v have "v * 10 + d \<le> 255"
      and "pton4_loop src True (length xs + (if True then 1 else 0)) (xs @ [of_nat (v * 10 + d)]) = Some bs"
      by (auto simp: Let_def split: if_splits)
    from Cons.IH [OF this(2,1) Cons.prems(3,4)] Some show ?thesis
      by (simp add: algebra_simps)
  next
    case None
    with Cons.prems have c: "c = CHR ''.''" "length xs < 3"
      and rest: "pton4_loop src False (length (xs @ [of_nat v :: byte]) + (if False then 1 else 0))
        ((xs @ [of_nat v]) @ [of_nat 0]) = Some bs"
      by (auto split: if_splits)
    have "\<not> (of_nat v :: 64 word) > 255"
      using Cons.prems(2) by (simp add: word_less_nat_alt unat_of_nat)
    with Cons.IH [OF rest, of "push_bit 8 addr OR of_nat v"] c
      unat_append_octet [OF Cons.prems(4,3,2)] show ?thesis
      by simp
  qed
qed

lemma inet_aton_pton4: "inet_pton4 s = Some bs \<Longrightarrow> inet_aton s = Some bs"
proof -
  assume "inet_pton4 s = Some bs"
  then have "pton4_loop s False (length ([]::byte list) + (if False then 1 else 0)) ([] @ [of_nat 0]) = Some bs"
    by (simp add: inet_pton4_def)
  from aton_loop_pton4 [OF this, of 0] obtain addr where
    a: "aton_loop s 0 0 0 = Some (3, addr)" "unat addr = quad_num bs" "length bs = 4"
    by (auto simp: quad_num_def)
  from a(3) obtain b0 b1 b2 b3 where bs: "bs = [b0, b1, b2, b3]"
    by (auto simp: numeral_eq_Suc length_Suc_conv)
  have "unat (ucast addr :: 32 word) = quad_num bs"
    using a(2,3) quad_num_bound [of bs]
    by (simp add: unsigned_ucast_eq take_bit_nat_eq_self)
  then have "be32 (ucast addr) = bs"
    using be32_of_quad [of "ucast addr" b0 b1 b2 b3] by (simp add: bs quad_num_def num_of_def)
  with a show ?thesis by (simp add: inet_aton_def)
qed

subsection \<open>IPv6: what the scanner does on printed groups\<close>

text \<open>A scanner state that has stored the bytes \<open>bs\<close> and seen \<open>::\<close> at \<open>c\<close>.\<close>

definition scanned :: "byte list \<Rightarrow> nat option \<Rightarrow> pton6_state" where
  "scanned bs c = \<lparr>p_tmp = bs @ replicate (16 - length bs) 0, p_tp = length bs, p_colonp = c,
     p_saw = False, p_val = 0\<rparr>"

lemma p_tp_scanned: "p_tp (scanned bs c) = length bs"
  by (simp add: scanned_def)

lemma pton6_init_scanned: "pton6_init = scanned [] None"
  by (simp add: pton6_init_def scanned_def)

lemma xdigit_val_sep [simp]: "xdigit_val CHR '':'' = None" "xdigit_val CHR ''.'' = None"
  by code_simp+

lemma pton6_loop_digits:
  assumes "\<forall>d \<in> set ds. d < 16" and "foldl (\<lambda>a d. a * 16 + d) (p_val st) ds \<le> 65535"
  shows "pton6_loop (map dig ds @ rest) cur st = pton6_loop rest cur
    (st\<lparr>p_val := foldl (\<lambda>a d. a * 16 + d) (p_val st) ds, p_saw := p_saw st \<or> ds \<noteq> []\<rparr>)"
  using assms
proof (induction ds arbitrary: st)
  case Nil
  then show ?case by simp
next
  case (Cons d ds)
  have "p_val st * 16 + d \<le> foldl (\<lambda>a d. a * 16 + d) (p_val st * 16 + d) ds"
    by (rule foldl_digits_mono) simp
  with Cons.prems have "16 * p_val st + d \<le> 65535" by simp
  with Cons.prems Cons.IH [of "st\<lparr>p_val := 16 * p_val st + d, p_saw := True\<rparr>"] show ?case
    by (simp add: digit_simps mult.commute)
qed

lemma pton6_loop_hex:
  assumes "n \<le> 65535" and "p_val st = 0"
  shows "pton6_loop (print_hex n @ rest) cur st = pton6_loop rest cur (st\<lparr>p_val := n, p_saw := True\<rparr>)"
proof -
  have "\<forall>d \<in> set (digits_of 16 n). d < 16" using digits_of_bound by force
  moreover have "foldl (\<lambda>a d. a * 16 + d) 0 (digits_of 16 n) = n"
    using num_of_digits_of [of 16 n] by (simp add: num_of_def)
  ultimately show ?thesis
    using pton6_loop_digits [of "digits_of 16 n" st rest cur] assms
    by (simp add: print_hex_def print_base_digits)
qed

lemma store16_scanned:
  assumes "length bs + 2 \<le> 16"
  shows "(store16 ((scanned bs c)\<lparr>p_val := n, p_saw := s\<rparr>))\<lparr>p_saw := False, p_val := 0\<rparr> =
    scanned (bs @ [of_nat (n div 256), of_nat (n mod 256)]) c"
proof -
  from assms obtain k where k: "16 - length bs = Suc (Suc k)"
    by (metis Nat.le_diff_conv2 add.commute add_leD1 le_Suc_ex add_2_eq_Suc)
  then show ?thesis
    by (simp add: store16_def scanned_def list_update_append)
qed

lemma pton6_group_sep:
  assumes "n \<le> 65535" and "length bs + 2 \<le> 16"
  shows "pton6_loop (print_hex n @ CHR '':'' # rest) cur (scanned bs c) =
    pton6_loop rest rest (scanned (bs @ [of_nat (n div 256), of_nat (n mod 256)]) c)"
proof -
  have "pton6_loop (print_hex n @ CHR '':'' # rest) cur (scanned bs c) =
     pton6_loop (CHR '':'' # rest) cur ((scanned bs c)\<lparr>p_val := n, p_saw := True\<rparr>)"
    using assms(1) by (rule pton6_loop_hex) (simp add: scanned_def)
  also have "\<dots> = pton6_loop rest rest
     ((store16 ((scanned bs c)\<lparr>p_val := n, p_saw := True\<rparr>))\<lparr>p_saw := False, p_val := 0\<rparr>)"
    using assms(2) by (simp add: scanned_def)
  finally show ?thesis
    using store16_scanned [OF assms(2), where c = c and n = n and s = True] by simp
qed

text \<open>The shift that opens the gap of \<open>::\<close>.\<close>

lemma shift_step:
  fixes A B :: "byte list"
  assumes "k = length A" and "0 < gap"
  shows "(A @ [x] @ replicate gap 0 @ B)[k + gap := x, k := 0] = A @ replicate gap 0 @ x # B"
proof -
  from assms(2) obtain g where g: "gap = Suc g" by (cases gap) auto
  have "(A @ [x] @ replicate gap 0 @ B) = (A @ x # replicate g 0) @ 0 # B"
    using g by (simp add: replicate_app_Cons_same)
  moreover have "k + gap = length (A @ x # replicate g (0::byte))" using assms g by simp
  ultimately have "(A @ [x] @ replicate gap 0 @ B)[k + gap := x] = (A @ x # replicate g 0) @ x # B"
    by (metis list_update_length)
  then show ?thesis
    using assms(1) g by simp
qed

lemma shift_iterations:
  assumes "length P = c" and "length M = n" and "c + n + gap = 16" and "0 < gap" and "j \<le> n"
  shows "fold (\<lambda>i tmp. tmp[16 - i := tmp ! (c + n - i), c + n - i := 0]) [1..<Suc j]
      (P @ M @ replicate gap 0) = P @ take (n - j) M @ replicate gap (0::byte) @ drop (n - j) M"
  using assms(5)
proof (induction j)
  case 0
  then show ?case using assms by simp
next
  case (Suc j)
  let ?A = "P @ take (n - Suc j) M" and ?x = "M ! (n - Suc j)"
  have idx: "n - j = Suc (n - Suc j)" "n - Suc j < length M" using Suc.prems assms(2) by auto
  have A: "c + n - Suc j = length ?A" using Suc.prems assms by simp
  have k: "15 - j = length ?A + gap" using Suc.prems assms by simp
  have split: "P @ take (n - j) M @ replicate gap 0 @ drop (n - j) M
      = ?A @ [?x] @ replicate gap 0 @ drop (n - j) M"
    using idx by (simp add: take_Suc_conv_app_nth)
  have "drop (n - Suc j) M = ?x # drop (n - j) M"
    using idx by (simp add: Cons_nth_drop_Suc)
  moreover have "[1..<Suc (Suc j)] = [1..<Suc j] @ [Suc j]" by simp
  moreover have "(?A @ [?x] @ replicate gap 0 @ drop (n - j) M) ! length ?A = ?x"
    by (metis append_Cons nth_append_length)
  ultimately show ?case
    using Suc.IH Suc.prems shift_step [of "length ?A" ?A gap ?x "drop (n - j) M"] assms(4)
    by (simp add: split A k del: upt_Suc length_append length_take)
qed

lemma shift_loop_gap:
  assumes "length P + length M + gap = 16" and "0 < gap"
  shows "shift_loop (length P) (length M) (P @ M @ replicate gap 0) = P @ replicate gap 0 @ M"
  using shift_iterations [of P "length P" M "length M" gap "length M"] assms
  by (simp add: shift_loop_def)

lemma shift_loop_full:
  assumes "length P + length M = 16"
  shows "shift_loop (length P) (length M) (P @ M) = P @ replicate (length M) 0"
proof -
  have "fold (\<lambda>i tmp. tmp[16 - i := tmp ! (length P + length M - i), length P + length M - i := 0])
      [1..<Suc j] (P @ M) = P @ take (length M - j) M @ replicate j (0::byte)"
    if "j \<le> length M" for j
    using that
  proof (induction j)
    case (Suc j)
    have idx: "length M - j = Suc (length M - Suc j)" using Suc.prems by auto
    have "take (length M - j) M = take (length M - Suc j) M @ [M ! (length M - Suc j)]"
      unfolding idx using Suc.prems by (intro take_Suc_conv_app_nth) simp
    moreover have "15 - j = length (P @ take (length M - Suc j) M)"
      using Suc.prems assms by simp
    moreover have "[1..<Suc (Suc j)] = [1..<Suc j] @ [Suc j]" by simp
    ultimately show ?case
      using Suc assms list_update_length [of "P @ take (length M - Suc j) M"]
      by (simp del: upt_Suc length_append length_take)
  qed simp
  from this [of "length M"] show ?thesis by (simp add: shift_loop_def)
qed

subsection \<open>The printed form is read back\<close>

abbreviation word_bytes :: "nat \<Rightarrow> byte list" where
  "word_bytes n \<equiv> [of_nat (n div 256), of_nat (n mod 256)]"

lemma pton6_double_colon:
  "pton6_loop (CHR '':'' # rest) cur (scanned bs None) =
     pton6_loop rest rest (scanned bs (Some (length bs)))"
  by (simp add: scanned_def)

lemma finish_scanned:
  assumes "length bs \<le> 16" and "\<forall>k. c = Some k \<longrightarrow> k \<le> length bs"
  shows "pton6_finish (scanned bs c) = (case c of
      None \<Rightarrow> if length bs = 16 then Some bs else None
    | Some k \<Rightarrow> if length bs = 16 then Some (take k bs @ replicate (16 - k) 0)
        else Some (take k bs @ replicate (16 - length bs) 0 @ drop k bs))"
proof (cases c)
  case (Some k)
  with assms have k: "k \<le> length bs" by simp
  show ?thesis
  proof (cases "length bs = 16")
    case True
    then show ?thesis
      using shift_loop_full [of "take k bs" "drop k bs"] k Some
      by (simp add: pton6_finish_def scanned_def min_absorb2)
  next
    case False
    then show ?thesis
      using shift_loop_gap [of "take k bs" "drop k bs" "16 - length bs"] k Some assms(1)
        append_assoc [of "take k bs" "drop k bs" "replicate (16 - length bs) 0", symmetric]
      by (simp add: pton6_finish_def scanned_def min_absorb2 del: append_assoc)
  qed
qed (simp add: pton6_finish_def scanned_def)

lemma pton6_last_group:
  assumes "n \<le> 65535" and "length bs + 2 \<le> 16"
  shows "Option.bind (pton6_loop (print_hex n) cur (scanned bs c)) pton6_finish =
    pton6_finish (scanned (bs @ word_bytes n) c)"
proof -
  have "pton6_loop (print_hex n) cur (scanned bs c) = Some ((scanned bs c)\<lparr>p_val := n, p_saw := True\<rparr>)"
    using assms(1) pton6_loop_hex [of n "scanned bs c" "[]" cur] by (simp add: scanned_def)
  moreover have "pton6_finish ((scanned bs c)\<lparr>p_val := n, p_saw := True\<rparr>) =
      pton6_finish ((store16 ((scanned bs c)\<lparr>p_val := n, p_saw := True\<rparr>))\<lparr>p_saw := False, p_val := 0\<rparr>)"
    using assms(2) by (cases c) (simp_all add: pton6_finish_def scanned_def store16_def Let_def)
  ultimately show ?thesis
    using store16_scanned [OF assms(2), where c = c and n = n and s = True] by simp
qed

text \<open>The first number of a dotted quad is read as hexadecimal digits until its dot.\<close>

lemma pton6_octet_dot:
  fixes a :: byte
  assumes "length bs + 4 \<le> 16"
  shows "\<exists>v. pton6_loop (print_dec (unat a) @ CHR ''.'' # rest) cur (scanned bs k) =
    (case inet_pton4 cur of None \<Rightarrow> None
     | Some q \<Rightarrow> Some (store32 q ((scanned bs k)\<lparr>p_val := v, p_saw := True\<rparr>)))"
proof -
  let ?ds = "digits_of 10 (unat a)"
  have ds: "\<forall>x \<in> set ?ds. x < 16" using digits_of_bound [of 10 _ "unat a"] by force
  have len: "length ?ds \<le> 3"
    using length_print_dec_byte [of a] by (simp add: print_dec_def print_base_digits)
  have "foldl (\<lambda>a d. a * 16 + d) 0 ?ds < 16 ^ length ?ds"
    using foldl_digits_bound [OF ds, of 0] by simp
  also have "\<dots> \<le> 16 ^ 3" using len by (intro power_increasing) auto
  finally have "foldl (\<lambda>a d. a * 16 + d) 0 ?ds \<le> 65535" by simp
  then have "\<exists>v. pton6_loop (map dig ?ds @ CHR ''.'' # rest) cur (scanned bs k) =
      pton6_loop (CHR ''.'' # rest) cur ((scanned bs k)\<lparr>p_val := v, p_saw := True\<rparr>)"
    using pton6_loop_digits [OF ds, of "scanned bs k"] by (auto simp: scanned_def)
  then show ?thesis
    using assms p_tp_scanned [of bs k] by (simp add: print_dec_def print_base_digits)
qed

lemma pton6_dotted_tail:
  assumes "length bs + 4 \<le> 16"
  shows "Option.bind (pton6_loop (dotted [a, b, c, d]) (dotted [a, b, c, d]) (scanned bs k)) pton6_finish =
    pton6_finish (scanned (bs @ [a, b, c, d]) k)"
proof -
  obtain rest where rest: "dotted [a, b, c, d] = print_dec (unat a) @ CHR ''.'' # rest"
    by (simp add: dotted_def)
  obtain v where "pton6_loop (dotted [a, b, c, d]) (dotted [a, b, c, d]) (scanned bs k) =
      Some (store32 [a, b, c, d] ((scanned bs k)\<lparr>p_val := v, p_saw := True\<rparr>))"
    using pton6_octet_dot [OF assms, of a rest "dotted [a, b, c, d]" k]
    by (auto simp: inet_pton4_dotted simp flip: rest)
  moreover have j: "16 - length bs = Suc (Suc (Suc (Suc (12 - length bs))))" using assms by simp
  then have "pton6_finish (store32 [a, b, c, d] ((scanned bs k)\<lparr>p_val := v, p_saw := True\<rparr>)) =
      pton6_finish (scanned (bs @ [a, b, c, d]) k)"
    using assms by (cases k)
      (simp_all add: store32_def scanned_def pton6_finish_def list_update_append numeral_eq_Suc)
  ultimately show ?thesis by simp
qed

lemma inet_pton6_quad_None:
  assumes "length a = 4"
  shows "inet_pton6 (dotted a @ rest) = None"
proof -
  obtain a0 a1 a2 a3 where a: "a = [a0, a1, a2, a3]"
    using assms by (auto simp: numeral_eq_Suc length_Suc_conv)
  let ?s = "dotted a @ rest"
  obtain r where r: "?s = print_dec (unat a0) @ CHR ''.'' # r"
    by (simp add: dotted_def a)
  have "take 1 ?s \<noteq> '':''"
    using r digits_print_dec(2,5) [of "unat a0"] by (cases "print_dec (unat a0)") auto
  then have e: "inet_pton6 ?s = Option.bind (pton6_loop ?s ?s (scanned [] None)) pton6_finish"
    by (simp add: inet_pton6_def pton6_init_scanned Let_def del: pton6_loop.simps)
  obtain v where "pton6_loop ?s ?s (scanned [] None) = (case inet_pton4 ?s of None \<Rightarrow> None
     | Some q \<Rightarrow> Some (store32 q ((scanned [] None)\<lparr>p_val := v, p_saw := True\<rparr>)))"
    using pton6_octet_dot [of "[]" a0 r ?s None] by (auto simp: r)
  then show ?thesis
    unfolding e by (simp add: pton6_finish_def store32_def scanned_def split: option.splits)
qed

lemma inet_pton6_leading_hex:
  "inet_pton6 (print_hex n @ rest) =
     Option.bind (pton6_loop (print_hex n @ rest) (print_hex n @ rest) (scanned [] None)) pton6_finish"
proof -
  obtain d ds where d: "digits_of 16 n = d # ds" by (meson list.exhaust digits_of_nonempty)
  then have "d < 16" using digits_of_bound [of 16 d n] by simp
  then have "dig d \<noteq> CHR '':''" by (metis digit_simps(2) option.distinct(1) xdigit_val_sep(1))
  with d show ?thesis
    by (simp add: inet_pton6_def print_hex_def print_base_digits pton6_init_scanned Let_def
        del: pton6_loop.simps)
qed

lemma inet_pton6_leading_colons:
  "inet_pton6 (CHR '':'' # CHR '':'' # rest) =
     Option.bind (pton6_loop rest rest (scanned [] (Some 0))) pton6_finish"
  using pton6_double_colon [of rest _ "[]"] by (simp add: inet_pton6_def pton6_init_scanned)

subsection \<open>The longest run of zero words\<close>

definition run_ok :: "32 word list \<Rightarrow> run \<Rightarrow> bool" where
  "run_ok ws r = (case r of None \<Rightarrow> True
     | Some (b, l) \<Rightarrow> b + l \<le> length ws \<and> (\<forall>j. b \<le> j \<and> j < b + l \<longrightarrow> ws ! j = 0))"

lemma better_ok: "run_ok ws p \<Longrightarrow> run_ok ws q \<Longrightarrow> run_ok ws (better p q)"
  by (cases p; cases q) auto

lemma scan_runs_ok:
  assumes "ws = pre @ rest" and "run_ok ws best" and "run_ok ws cur"
    and "\<forall>b l. cur = Some (b, l) \<longrightarrow> b + l = length pre"
  shows "run_ok ws (scan_runs rest (length pre) best cur)"
  using assms
proof (induction rest arbitrary: pre best cur)
  case Nil
  then show ?case by (simp add: better_ok)
next
  case (Cons w rest)
  have IH: "run_ok ws (scan_runs rest (Suc (length pre)) best' cur')"
    if "run_ok ws best'" "run_ok ws cur'" "\<forall>b l. cur' = Some (b, l) \<longrightarrow> b + l = Suc (length pre)"
    for best' cur'
    using Cons.IH [of "pre @ [w]" best' cur'] Cons.prems(1) that by simp
  have nth: "ws ! length pre = w" "length pre < length ws" using Cons.prems(1) by auto
  show ?case
  proof (cases "w = 0")
    case True
    have "run_ok ws (case cur of None \<Rightarrow> Some (length pre, 1) | Some (b, l) \<Rightarrow> Some (b, Suc l))"
      using nth True Cons.prems(3,4)
      by (auto simp: run_ok_def less_Suc_eq split: option.splits)
    then have "run_ok ws (scan_runs rest (Suc (length pre)) best
        (case cur of None \<Rightarrow> Some (length pre, 1) | Some (b, l) \<Rightarrow> Some (b, Suc l)))"
      using Cons.prems(2,4) by (intro IH) (auto split: option.splits)
    with True show ?thesis by simp
  next
    case False
    moreover have "run_ok ws (scan_runs rest (Suc (length pre)) (better best cur) None)"
      using Cons.prems(2,3) by (intro IH better_ok) (auto simp: run_ok_def [of _ None])
    ultimately show ?thesis by simp
  qed
qed

lemma best_run_ok:
  assumes "best_run ws = Some (b, l)"
  shows "2 \<le> l" "b + l \<le> length ws" "b \<le> j \<Longrightarrow> j < b + l \<Longrightarrow> ws ! j = 0"
proof -
  have "run_ok ws (scan_runs ws 0 None None)"
    using scan_runs_ok [of ws "[]" ws None None] by (simp add: run_ok_def [of _ None])
  with assms show "2 \<le> l" "b + l \<le> length ws" "b \<le> j \<Longrightarrow> j < b + l \<Longrightarrow> ws ! j = 0"
    by (auto simp: best_run_def run_ok_def split: option.splits if_splits)
qed

definition word_of :: "byte \<Rightarrow> byte \<Rightarrow> 32 word" where
  "word_of a b = push_bit 8 (ucast a) OR ucast b"

lemma unat_word_of: "unat (word_of a b) = unat a * 256 + unat b"
proof -
  have "unat (ucast c :: 32 word) = unat c" for c :: byte
    using less_trans [OF unat_byte_lt [of c], of "2 ^ 32"]
    by (simp add: unsigned_ucast_eq take_bit_nat_eq_self)
  moreover have "unat a * 256 + 255 < 2 ^ LENGTH(32)" 
    using unat_byte_lt [of a] by (simp del: unat_byte_lt)
  ultimately show ?thesis
    unfolding word_of_def by (subst unat_push8_or) simp_all
qed

lemma unat_word_of_facts:
  "unat (word_of a b) \<le> 65535" "unat (word_of a b) div 256 = unat a" "unat (word_of a b) mod 256 = unat b"
  using unat_byte_lt [of a] unat_byte_lt [of b]
  by (simp_all add: unat_word_of del: unat_byte_lt)

lemma word_of_zero: "word_of a b = 0 \<longleftrightarrow> a = 0 \<and> b = 0"
  using unat_word_of [of a b] by (auto simp: unsigned_eq_0_iff word_of_def)

lemma ntop6_words_eq:
  "ntop6_words [b0, b1, b2, b3, b4, b5, b6, b7, b8, b9, b10, b11, b12, b13, b14, b15] =
     [word_of b0 b1, word_of b2 b3, word_of b4 b5, word_of b6 b7,
      word_of b8 b9, word_of b10 b11, word_of b12 b13, word_of b14 b15]"
  proof -
  have "replicate 8 (0::32 word) = [0, 0, 0, 0, 0, 0, 0, 0]" by (simp add: numeral_eq_Suc)
  then show ?thesis by (simp add: ntop6_words_def upt_rec word_of_def)
qed

subsection \<open>Round trip\<close>

lemmas ntop6_unfold = ntop6_loop.simps in_run_def encapsulated_def

lemma list16: "length bs = 16 \<Longrightarrow> \<exists>b0 b1 b2 b3 b4 b5 b6 b7 b8 b9 b10 b11 b12 b13 b14 b15.
    bs = [b0, b1, b2, b3, b4, b5, b6, b7, b8, b9, b10, b11, b12, b13, b14, b15]"
  by (auto simp: numeral_eq_Suc length_Suc_conv)

lemma inet_ntop4_fits: "15 \<le> sz \<Longrightarrow> inet_ntop4 src sz = Inr (dotted src)"
  using length_dotted [of src] by (simp add: inet_ntop4_def)

lemma length_print_hex: "n \<le> 65535 \<Longrightarrow> length (print_hex n) \<le> 4"
  using length_digits_of [of 16 n 4] by (simp add: print_hex_def print_base_digits)

lemma hex4: "15 \<le> 43 - length (print_hex (unat (word_of a b)))"
  using length_print_hex [OF unat_word_of_facts(1), of a b] by simp

lemma run_cases:
  assumes "2 \<le> l" and "b + l \<le> (8::nat)"
  shows "(b, l) \<in> {(0,2),(0,3),(0,4),(0,5),(0,6),(0,7),(0,8),(1,2),(1,3),(1,4),(1,5),(1,6),(1,7),
    (2,2),(2,3),(2,4),(2,5),(2,6),(3,2),(3,3),(3,4),(3,5),(4,2),(4,3),(4,4),(5,2),(5,3),(6,2)}"
  using assms by (simp, presburger)

lemmas pton6_simps = pton6_group_sep pton6_double_colon pton6_last_group pton6_dotted_tail
  inet_pton6_leading_hex inet_pton6_leading_colons finish_scanned unat_word_of_facts
  replicate_numeral_Cons word_of_zero

lemma pton6_text_groups:
  assumes bs: "bs = [b0, b1, b2, b3, b4, b5, b6, b7, b8, b9, b10, b11, b12, b13, b14, b15]"
    and ws: "ws = [word_of b0 b1, word_of b2 b3, word_of b4 b5, word_of b6 b7,
      word_of b8 b9, word_of b10 b11, word_of b12 b13, word_of b14 b15]"
    and zero: "\<And>j. b \<le> j \<Longrightarrow> j < b + l \<Longrightarrow> ws ! j = 0"
    and bl: "2 \<le> l" "b + l \<le> 8"
    and enc: "\<not> encapsulated (Some (b, l)) ws"
    and t: "ntop6_loop bs ws (Some (b, l)) 0 [] = Inr t"
  shows "inet_pton6 (if b + l = 8 then t @ '':'' else t) = Some bs"
proof -
  note z = zero [unfolded ws] 
  from enc have e: "\<not> (b = 0 \<and> l = 6)" "b = 0 \<and> l = 5 \<longrightarrow> word_of b10 b11 \<noteq> 65535"
    by (auto simp: encapsulated_def ws)
  show ?thesis
    using run_cases [OF bl] t e z [of 0] z [of 1] z [of 2] z [of 3] z [of 4] z [of 5] z [of 6] z [of 7]
    unfolding ws bs
    apply (simp only: insert_iff empty_iff prod.inject simp_thms)
    apply (elim disjE conjE)
    apply (simp_all only:)
    apply (simp_all add: ntop6_unfold word_of_zero del: pton6_loop.simps)
    apply (auto simp: pton6_simps simp del: pton6_loop.simps(2))
    done
qed

lemma ntop6_quad:
  assumes "encapsulated (Some (b, l)) ws"
  shows "ntop6_loop bs ws (Some (b, l)) 0 [] =
    Inr (''::'' @ (if l = 6 then [] else print_hex (unat (ws ! 5)) @ '':'') @ dotted (drop 12 bs))"
proof -
  from assms consider "b = 0" "l = 6" | "b = 0" "l = 5" "ws ! 5 = 65535" by (auto simp: encapsulated_def)
  then show ?thesis
  proof cases
    case 1
    then show ?thesis by (simp add: ntop6_unfold inet_ntop4_fits)
  next
    case 2
    moreover from 2(3) have "ws ! Suc (Suc (Suc (Suc (Suc 0)))) = 65535" by (simp add: eval_nat_numeral)
    ultimately show ?thesis
      using length_print_hex [of 65535] by (simp add: ntop6_unfold inet_ntop4_fits Let_def)
  qed
qed

lemma pton6_text_quad:
  assumes bs: "bs = [b0, b1, b2, b3, b4, b5, b6, b7, b8, b9, b10, b11, b12, b13, b14, b15]"
    and ws: "ws = [word_of b0 b1, word_of b2 b3, word_of b4 b5, word_of b6 b7,
      word_of b8 b9, word_of b10 b11, word_of b12 b13, word_of b14 b15]"
    and zero: "\<And>j. b \<le> j \<Longrightarrow> j < b + l \<Longrightarrow> ws ! j = 0"
    and enc: "encapsulated (Some (b, l)) ws"
    and t: "ntop6_loop bs ws (Some (b, l)) 0 [] = Inr t"
  shows "inet_pton6 t = Some bs"
proof -
  note z = zero [unfolded ws] 
  from enc consider "b = 0" "l = 6" | "b = 0" "l = 5" by (auto simp: encapsulated_def)
  then show ?thesis
  proof cases
    case 1
    then show ?thesis
      using z [of 0] z [of 1] z [of 2] z [of 3] z [of 4] z [of 5] t ntop6_quad [OF enc, of bs]
      by (auto simp: pton6_simps bs)
  next
    case 2
    then have "t = ''::'' @ print_hex (unat (word_of b10 b11)) @ '':'' @ dotted [b12, b13, b14, b15]"
      using t ntop6_quad [OF enc, of bs] by (simp add: bs ws)
    then show ?thesis
      using 2 z [of 0] z [of 1] z [of 2] z [of 3] z [of 4]
      by (simp add: pton6_simps bs)
  qed
qed

lemma ntop6_loop_length:
  assumes "\<not> encapsulated best ws" and "length ws = 8" and "\<forall>w \<in> set ws. unat w \<le> 65535" and "i \<le> 8"
  shows "\<exists>t. ntop6_loop bs ws best i tmp = Inr t \<and> length t \<le> length tmp + 5 * (8 - i)"
  using assms(4)
proof (induction "8 - i" arbitrary: i tmp)
  case 0
  then show ?case by (simp add: ntop6_loop.simps)
next
  case (Suc k)
  then have i: "i < 8" "k = 8 - Suc i" "8 - i = Suc (8 - Suc i)" by auto
  have "unat (ws ! i) \<le> 65535" using assms(2,3) i(1) by simp
  then have "length (print_hex (unat (ws ! i))) \<le> 4" by (rule length_print_hex)
  moreover have "\<exists>tmp'. ntop6_loop bs ws best i tmp = ntop6_loop bs ws best (Suc i) tmp' \<and>
      length tmp' \<le> length tmp + 1 + length (print_hex (unat (ws ! i)))"
    using i(1) assms(1) by (subst ntop6_loop.simps) (auto simp: Let_def)
  then obtain tmp' where "ntop6_loop bs ws best i tmp = ntop6_loop bs ws best (Suc i) tmp'"
    and "length tmp' \<le> length tmp + 1 + length (print_hex (unat (ws ! i)))" by blast
  moreover obtain t where "ntop6_loop bs ws best (Suc i) tmp' = Inr t"
      "length t \<le> length tmp' + 5 * (8 - Suc i)"
    using Suc.hyps(1) [of "Suc i" tmp'] i by auto
  ultimately show ?case using i(3) by auto
qed

lemma inet_ntop6_fits:
  assumes "length bs = 16" and "46 \<le> sz"
  shows "\<exists>s. inet_ntop6 bs sz = Inr s \<and> length s < 46"
proof -
  let ?ws = "ntop6_words bs" and ?best = "best_run (ntop6_words bs)"
  obtain b0 b1 b2 b3 b4 b5 b6 b7 b8 b9 b10 b11 b12 b13 b14 b15 where
    bs: "bs = [b0, b1, b2, b3, b4, b5, b6, b7, b8, b9, b10, b11, b12, b13, b14, b15]"
    using list16 [OF assms(1)] by blast
  note ws = ntop6_words_eq [of b0 b1 b2 b3 b4 b5 b6 b7 b8 b9 b10 b11 b12 b13 b14 b15, folded bs]
  have w: "length ?ws = 8" "\<forall>w \<in> set ?ws. unat w \<le> 65535" by (simp_all add: ws unat_word_of_facts)
  obtain t where "ntop6_loop bs ?ws ?best 0 [] = Inr t" "length t \<le> 40"
  proof (cases "encapsulated ?best ?ws")
    case True
    then obtain b l where "?best = Some (b, l)" by (auto simp: encapsulated_def split: option.splits)
    then show ?thesis
      using that ntop6_quad [of b l ?ws bs] True length_dotted [of "drop 12 bs"]
        length_print_hex [of "unat (?ws ! 5)"] w by (auto simp: nth_mem)
  next
    case False
    then show ?thesis using that ntop6_loop_length [OF False w, of 0 bs "[]"] by auto
  qed
  then show ?thesis using assms(2) by (auto simp: inet_ntop6_def Let_def split: option.splits)
qed

lemma ntop6_none_text:
  assumes bs: "bs = [b0, b1, b2, b3, b4, b5, b6, b7, b8, b9, b10, b11, b12, b13, b14, b15]"
    and ws: "ws = [word_of b0 b1, word_of b2 b3, word_of b4 b5, word_of b6 b7,
      word_of b8 b9, word_of b10 b11, word_of b12 b13, word_of b14 b15]"
    and t: "ntop6_loop bs ws None 0 [] = Inr t"
  shows "inet_pton6 t = Some bs"
proof -
  have "t = print_hex (unat (ws ! 0)) @ '':'' @ print_hex (unat (ws ! 1)) @ '':'' @
     print_hex (unat (ws ! 2)) @ '':'' @ print_hex (unat (ws ! 3)) @ '':'' @ print_hex (unat (ws ! 4)) @
     '':'' @ print_hex (unat (ws ! 5)) @ '':'' @ print_hex (unat (ws ! 6)) @ '':'' @ print_hex (unat (ws ! 7))"
    using t by (simp add: ntop6_unfold numeral_eq_Suc)
  then show ?thesis by (simp add: pton6_simps ws bs)
qed

lemma inet_ntop6_round_trip:
  assumes len: "length bs = 16" and ok: "inet_ntop6 bs sz = Inr s"
  shows "inet_pton6 s = Some bs"
proof -
  obtain b0 b1 b2 b3 b4 b5 b6 b7 b8 b9 b10 b11 b12 b13 b14 b15 where
    bs: "bs = [b0, b1, b2, b3, b4, b5, b6, b7, b8, b9, b10, b11, b12, b13, b14, b15]"
    using list16 [OF len] by blast
  note ws = ntop6_words_eq [of b0 b1 b2 b3 b4 b5 b6 b7 b8 b9 b10 b11 b12 b13 b14 b15, folded bs]
  have n: "length (ntop6_words bs) = 8" by (simp add: ws)
  obtain t where t: "ntop6_loop bs (ntop6_words bs) (best_run (ntop6_words bs)) 0 [] = Inr t"
    and s: "s = (case best_run (ntop6_words bs) of
      Some (b, l) \<Rightarrow> if b + l = 8 then t @ '':'' else t | None \<Rightarrow> t)"
    using ok by (auto simp: inet_ntop6_def Let_def split: sum.splits if_splits)
  show ?thesis
  proof (cases "best_run (ntop6_words bs)")
    case None
    with s t ntop6_none_text [OF bs ws] show ?thesis by simp
  next
    case (Some r)
    obtain b l where r: "best_run (ntop6_words bs) = Some (b, l)" using Some by (cases r) auto
    note run = best_run_ok [OF r, unfolded n]
    have t': "ntop6_loop bs (ntop6_words bs) (Some (b, l)) 0 [] = Inr t" using t r by simp
    show ?thesis
    proof (cases "encapsulated (Some (b, l)) (ntop6_words bs)")
      case True
      then have "b + l \<noteq> 8" by (auto simp: encapsulated_def)
      with pton6_text_quad [OF bs ws run(3) True t'] s r show ?thesis by simp
    next
      case False
      with pton6_text_groups [OF bs ws run(3) run(1,2) False t'] s r show ?thesis by simp
    qed
  qed
qed

subsection \<open>The characters of a printed address\<close>

lemma dig_not_bracket: "d < 16 \<Longrightarrow> dig d \<noteq> CHR '']'' \<and> dig d \<noteq> CHR ''['' \<and> dig d \<noteq> CHR '':''"
  using xdigit_val_dig [of d] by (auto simp: xdigit_val_def)

abbreviation plain :: "string \<Rightarrow> bool" where
  "plain s \<equiv> CHR '']'' \<notin> set s \<and> CHR ''['' \<notin> set s"

lemma plain_digits: "2 \<le> b \<Longrightarrow> b \<le> 16 \<Longrightarrow> plain (print_base b n)"
proof -
  assume "2 \<le> b" "b \<le> 16"
  then have "d < 16" if "d \<in> set (digits_of b n)" for d
    using that digits_of_bound [of b d n] by simp
  then have "c \<noteq> CHR '']'' \<and> c \<noteq> CHR ''[''" if "c \<in> set (print_base b n)" for c
    using that dig_not_bracket by (auto simp: print_base_digits)
  then show ?thesis by blast
qed

lemma plain_print [simp]: "plain (print_hex n)" "plain (print_dec n)" "plain (dotted a)"
  using plain_digits [of 16] plain_digits [of 10]
  by (simp_all add: print_hex_def print_dec_def dotted_def)

lemma ntop6_loop_plain:
  "ntop6_loop src ws best i tmp = Inr t \<Longrightarrow> plain tmp \<Longrightarrow> plain t"
proof (induction "8 - i" arbitrary: i tmp)
  case 0
  then show ?case by (simp add: ntop6_loop.simps)
next
  case (Suc k)
  then have k: "k = 8 - Suc i" "i < 8" by auto
  have IH: "ntop6_loop src ws best (Suc i) tmp' = Inr t \<Longrightarrow> plain tmp' \<Longrightarrow> plain t" for tmp'
    using Suc.hyps(1) [OF k(1)] by blast
  consider (run) tmp' where "ntop6_loop src ws best (Suc i) tmp' = Inr t" "plain tmp'"
    | (quad) "plain t"
    using Suc.prems(1) [unfolded ntop6_loop.simps [of src ws best i tmp]] Suc.prems(2) k(2)
      plain_print(1) [of "unat (ws ! i)"]
    by (auto simp: Let_def inet_ntop4_def split: if_splits sum.splits)
  then show ?case by cases (use IH in auto)
qed

lemma inet_ntop6_plain: "inet_ntop6 a sz = Inr s \<Longrightarrow> plain s"
  using ntop6_loop_plain [of a _ _ 0 "[]"]
  by (fastforce simp: inet_ntop6_def Let_def split: sum.splits option.splits if_splits)

subsection \<open>The contract of a pair of conversion routines\<close>

text \<open>
  What the callers of \<open>inet_ntop\<close> and \<open>inet_pton\<close> rely on: for addresses of \<open>alen\<close> bytes, a
  buffer of \<open>buflen\<close> bytes is always enough, and what was printed reads back.
\<close>

locale presentation =
  fixes ntop :: "byte list \<Rightarrow> nat \<Rightarrow> errno + string"
    and pton :: "string \<Rightarrow> byte list option"
    and alen buflen :: nat
  assumes fits: "length a = alen \<Longrightarrow> buflen \<le> sz \<Longrightarrow> \<exists>s. ntop a sz = Inr s \<and> length s < buflen"
    and reads_back: "length a = alen \<Longrightarrow> ntop a sz = Inr s \<Longrightarrow> pton s = Some a"
begin

lemma ntop_total:
  "length a = alen \<Longrightarrow> buflen \<le> sz \<Longrightarrow> \<exists>s. ntop a sz = Inr s \<and> length s < buflen \<and> pton s = Some a"
  using fits reads_back by blast

lemma ntop_injective:
  assumes "length a = alen" and "length b = alen" and "ntop a sz = Inr s" and "ntop b sz' = Inr s"
  shows "a = b"
  using reads_back [OF assms(1,3)] reads_back [OF assms(2,4)] by simp

end

lemma list4: "length bs = 4 \<Longrightarrow> \<exists>b0 b1 b2 b3. bs = [b0, b1, b2, b3]"
  by (auto simp: numeral_eq_Suc length_Suc_conv)

lemma inet_pton4_dotted': "length bs = 4 \<Longrightarrow> inet_pton4 (dotted bs) = Some bs"
  using list4 inet_pton4_dotted by fastforce

interpretation v4: presentation inet_ntop4 inet_pton4 4 16
proof
  show "\<exists>s. inet_ntop4 a sz = Inr s \<and> length s < 16" if "16 \<le> sz" for a sz
    using that length_dotted [of a] by (simp add: inet_ntop4_fits)
  show "inet_pton4 s = Some a" if "length a = 4" "inet_ntop4 a sz = Inr s" for a sz s
    using that by (auto simp: inet_ntop4_def inet_pton4_dotted' Let_def split: if_splits)
qed

interpretation v6: presentation inet_ntop6 inet_pton6 16 46
  by unfold_locales (auto simp: inet_ntop6_fits inet_ntop6_round_trip)

interpretation v4only: presentation "inet_ntop_ipv4 AF_INET" inet_aton 4 16
proof
  show "\<exists>s. inet_ntop_ipv4 AF_INET a sz = Inr s \<and> length s < 16" if "16 \<le> sz" for a sz
    using that length_dotted [of a] by (simp add: inet_ntop_ipv4_def snprintf_buf_fits)
  show "inet_aton s = Some a" if "length a = 4" "inet_ntop_ipv4 AF_INET a sz = Inr s" for a sz s
    using that length_dotted [of a]
    by (auto simp: inet_ntop_ipv4_def inet_pton4_dotted' inet_aton_pton4 snprintf_buf_fits Let_def
        split: if_splits)
qed

subsection \<open>Properties\<close>

text \<open>
  C7. \<open>inet_pton(AF_INET, s, dst)\<close> accepts exactly the strings of four decimal numbers, each
  of at least one digit and at most 255, separated by single dots, and stores their values;
  every other string is answered with 0.
\<close>

theorem inet_pton4_dotted_quad:
  "inet_pton AF_INET s = (case dotted_quad s of Some a \<Rightarrow> Valid a | None \<Rightarrow> Invalid)"
  by (simp add: inet_pton_def inet_pton4_eq)

text \<open>
  C8. Printing an IPv4 address into a buffer of \<open>INET_ADDRSTRLEN\<close> bytes or more succeeds with
  at most 15 characters, and \<open>inet_pton\<close>, \<open>inet_aton\<close> and the IPv4-only pair all read the
  same address back from them.
\<close>

theorem ipv4_round_trip:
  assumes "length a = 4" and "16 \<le> sz"
  shows "\<exists>s. inet_ntop AF_INET a sz = Inr s \<and> inet_ntop_ipv4 AF_INET a sz = Inr s \<and> length s \<le> 15 \<and>
    inet_pton AF_INET s = Valid a \<and> inet_pton_ipv4 AF_INET s = Valid a"
proof -
  have s: "inet_ntop4 a sz = Inr (dotted a)" "inet_ntop_ipv4 AF_INET a sz = Inr (dotted a)"
    using assms length_dotted [of a] by (simp_all add: inet_ntop4_def inet_ntop_ipv4_def snprintf_buf_fits)
  with v4.reads_back [OF assms(1) s(1)] v4only.reads_back [OF assms(1) s(2)] length_dotted [of a]
  show ?thesis by (simp add: inet_ntop_def inet_pton_def inet_pton_ipv4_def)
qed

theorem ipv4_round_trip_witness:
  "\<exists>s. inet_ntop AF_INET [140, 113, 0, 255] 16 = Inr s \<and>
    inet_ntop_ipv4 AF_INET [140, 113, 0, 255] 16 = Inr s \<and> length s \<le> 15 \<and>
    inet_pton AF_INET s = Valid [140, 113, 0, 255] \<and> inet_pton_ipv4 AF_INET s = Valid [140, 113, 0, 255]"
  by (rule ipv4_round_trip) simp_all

text \<open>
  C9. Printing an IPv6 address into a buffer of \<open>INET6_ADDRSTRLEN\<close> bytes or more succeeds, with
  fewer than 46 characters, whatever run of zero words is abbreviated and whether or not an
  IPv4 tail is printed; and \<open>inet_pton\<close> reads exactly that address back.
\<close>

theorem ipv6_round_trip:
  assumes "length a = 16" and "46 \<le> sz"
  shows "\<exists>s. inet_ntop AF_INET6 a sz = Inr s \<and> length s < 46 \<and> inet_pton AF_INET6 s = Valid a"
  using v6.ntop_total [OF assms] by (auto simp: inet_ntop_def inet_pton_def AF_defs)

theorem ipv6_round_trip_witness:
  "\<exists>s. inet_ntop AF_INET6 [0x20, 1, 0xd, 0xb8, 0, 0, 0, 0, 0, 0, 0, 0, 0, 0, 0, 1] 46 = Inr s \<and>
    length s < 46 \<and>
    inet_pton AF_INET6 s = Valid [0x20, 1, 0xd, 0xb8, 0, 0, 0, 0, 0, 0, 0, 0, 0, 0, 0, 1]"
  by (rule ipv6_round_trip) simp_all

abbreviation sep :: string where
  "sep \<equiv> '':''"

text \<open>
  A \<open>::\<close> in an address that already has all eight groups is accepted, and the groups after
  it are not kept but overwritten by zeros (the source's comment says such a \<open>::\<close> is ignored);
  and a full address followed by one more colon is accepted as well.
\<close>

theorem inet_pton6_full_address:
  assumes "n0 \<le> 65535" "n1 \<le> 65535" "n2 \<le> 65535" "n3 \<le> 65535"
    and "n4 \<le> 65535" "n5 \<le> 65535" "n6 \<le> 65535" "n7 \<le> 65535"
  shows "inet_pton AF_INET6 (print_hex n0 @ sep @ print_hex n1 @ sep @ print_hex n2 @ sep @ print_hex n3 @
      sep @ sep @ print_hex n4 @ sep @ print_hex n5 @ sep @ print_hex n6 @ sep @ print_hex n7) =
    Valid (word_bytes n0 @ word_bytes n1 @ word_bytes n2 @ word_bytes n3 @ replicate 8 0) \<and>
    inet_pton AF_INET6 (print_hex n0 @ sep @ print_hex n1 @ sep @ print_hex n2 @ sep @ print_hex n3 @
      sep @ print_hex n4 @ sep @ print_hex n5 @ sep @ print_hex n6 @ sep @ print_hex n7 @ sep) =
    Valid (word_bytes n0 @ word_bytes n1 @ word_bytes n2 @ word_bytes n3 @
      word_bytes n4 @ word_bytes n5 @ word_bytes n6 @ word_bytes n7)"
  using assms by (simp add: inet_pton_def AF_defs pton6_simps del: pton6_loop.simps(2))

theorem inet_pton6_full_address_witness:
  "inet_pton AF_INET6 (print_hex 1 @ sep @ print_hex 2 @ sep @ print_hex 3 @ sep @ print_hex 4 @
      sep @ sep @ print_hex 5 @ sep @ print_hex 6 @ sep @ print_hex 7 @ sep @ print_hex 8) =
    Valid (word_bytes 1 @ word_bytes 2 @ word_bytes 3 @ word_bytes 4 @ replicate 8 0)"
  by (rule conjunct1 [OF inet_pton6_full_address]) simp_all



text \<open>
  \<open>inet_aton\<close> extends \<open>inet_pton4\<close>: every dotted quad gets the same four bytes. Beyond
  that it accepts fewer than four parts (the missing ones are the low bytes), even the empty
  string, and a part of 65 bits or more wraps around before it is compared with 255.
\<close>

theorem inet_aton_extends:
  "(inet_pton AF_INET s = Valid a \<longrightarrow> inet_aton s = Some a) \<and>
   inet_aton [] = Some [0, 0, 0, 0] \<and>
   inet_aton ''18446744073709551617.2.3'' = Some [1, 2, 3, 0]"
proof (intro conjI impI)
  show "inet_pton AF_INET s = Valid a \<Longrightarrow> inet_aton s = Some a"
    by (auto simp: inet_pton_def inet_aton_pton4 split: option.splits)
qed code_simp+

theorem inet_aton_extends_witness:
  "inet_pton AF_INET ''10.0.255.7'' = Valid [10, 0, 255, 7] \<and> inet_aton ''10.0.255.7'' = Some [10, 0, 255, 7]"
proof -
  have "inet_pton AF_INET ''10.0.255.7'' = Valid [10, 0, 255, 7]" by code_simp
  with inet_aton_extends [of "''10.0.255.7''" "[10, 0, 255, 7]"] show ?thesis by simp
qed

end
