(* ===== verification/Sock_Addr.thy ===== *)
theory Sock_Addr
  imports Inet_Addr
begin

text \<open>
  The protocol-independent socket address functions of \<open>lib/sock_*.c\<close>, with
  \<open>lib/family_to_level.c\<close> and \<open>lib/sockfd_to_family.c\<close>.

  A \<open>struct sockaddr *\<close> is the structure its \<open>sa_family\<close> announces. Ports are kept as the
  16-bit value that a load on the little-endian host yields, so \<open>htons p\<close> is the port \<open>p\<close>.
  The build has IPv4, IPv6 and Unix domain sockets and no \<open>sockaddr_dl\<close>
  (\<open>config.h\<close>).
\<close>

record sockaddr_in =
  sin_port :: "16 word"
  sin_addr :: "byte list"

record sockaddr_in6 =
  sin6_port :: "16 word"
  sin6_addr :: "byte list"

text \<open>\<open>sun_path\<close> up to its NUL, and any other family.\<close>

datatype sockaddr = SIn sockaddr_in | SIn6 sockaddr_in6 | SUn string | SOther int

fun sa_family :: "sockaddr \<Rightarrow> int" where
  "sa_family (SIn _) = AF_INET"
| "sa_family (SIn6 _) = AF_INET6"
| "sa_family (SUn _) = AF_LOCAL"
| "sa_family (SOther f) = f"

text \<open>Structures as the kernel fills them in: addresses of the right size, paths that fit.\<close>

fun sockaddr_ok :: "sockaddr \<Rightarrow> bool" where
  "sockaddr_ok (SIn s) = (length (sin_addr s) = 4)"
| "sockaddr_ok (SIn6 s) = (length (sin6_addr s) = 16)"
| "sockaddr_ok (SUn p) = (length p < 108 \<and> CHR 0x00 \<notin> set p)"
| "sockaddr_ok (SOther f) = (f \<noteq> AF_INET \<and> f \<noteq> AF_INET6 \<and> f \<noteq> AF_LOCAL \<and> 0 \<le> f \<and> f < 65536)"

subsection \<open>sock\_ntop\<close>

text \<open>
  \<open>strcat(dst, src)\<close> on an array of \<open>cap\<close> bytes: writing past its end is undefined.
\<close>

definition strcat :: "nat \<Rightarrow> string \<Rightarrow> string \<Rightarrow> string outcome" where
  "strcat cap dst src =
     (if length dst + length src + 1 \<le> cap then Inr (dst @ src) else Inl (Undefined Buffer_overflow))"

text \<open>
  \<open>str\<close> is the static array, as the string it holds. The result is NULL or an offset into it,
  with its new contents.
\<close>

definition sock_ntop :: "sockaddr \<Rightarrow> int \<Rightarrow> string \<Rightarrow> (nat option \<times> string) outcome" where
  "sock_ntop sa salen str =
     (case sa of
        SIn sin4 \<Rightarrow>
          (case inet_ntop AF_INET (sin_addr sin4) 128 of
             Inl e \<Rightarrow> Inr (None, str)
           | Inr s \<Rightarrow>
               if htons (sin_port sin4) \<noteq> 0 then
                 let portstr = snprintf_buf 8 ('':'' @ print_dec (unat (htons (sin_port sin4)))) in
                 map_sum id (\<lambda>s. (Some 0, s)) (strcat 128 s portstr)
               else Inr (Some 0, s))
      | SIn6 sin6 \<Rightarrow>
          (case inet_ntop AF_INET6 (sin6_addr sin6) 127 of
             Inl e \<Rightarrow> Inr (None, CHR ''['' # tl str)
           | Inr s \<Rightarrow>
               let str1 = CHR ''['' # s in
               if htons (sin6_port sin6) \<noteq> 0 then
                 let portstr = snprintf_buf 8 ('']:'' @ print_dec (unat (htons (sin6_port sin6)))) in
                 map_sum id (\<lambda>s. (Some 0, s)) (strcat 128 str1 portstr)
               else Inr (Some 1, str1))
      | SUn sun_path \<Rightarrow>
          Inr (Some 0, if sun_path = [] then ''(no pathname bound)'' else snprintf_buf 128 sun_path)
      | SOther f \<Rightarrow>
          Inr (Some 0, snprintf_buf 128
            (''sock_ntop: unknown AF_xxx: '' @ print_int f @ '', len '' @ print_int salen)))"

definition Sock_ntop :: "sockaddr \<Rightarrow> int \<Rightarrow> string \<Rightarrow> (nat \<times> string) outcome" where
  "Sock_ntop sa salen str =
     (case sock_ntop sa salen str of
        Inl h \<Rightarrow> Inl h
      | Inr (None, _) \<Rightarrow> Inl (Err_sys ''sock_ntop error'')
      | Inr (Some p, s) \<Rightarrow> Inr (p, s))"

definition sock_ntop_host :: "sockaddr \<Rightarrow> int \<Rightarrow> string \<Rightarrow> nat option \<times> string" where
  "sock_ntop_host sa salen str =
     (case sa of
        SIn sin4 \<Rightarrow>
          (case inet_ntop AF_INET (sin_addr sin4) 128 of
             Inl e \<Rightarrow> (None, str) | Inr s \<Rightarrow> (Some 0, s))
      | SIn6 sin6 \<Rightarrow>
          (case inet_ntop AF_INET6 (sin6_addr sin6) 128 of
             Inl e \<Rightarrow> (None, str) | Inr s \<Rightarrow> (Some 0, s))
      | SUn sun_path \<Rightarrow>
          (Some 0, if sun_path = [] then ''(no pathname bound)'' else snprintf_buf 128 sun_path)
      | SOther f \<Rightarrow>
          (Some 0, snprintf_buf 128
            (''sock_ntop_host: unknown AF_xxx: '' @ print_int f @ '', len '' @ print_int salen)))"

definition Sock_ntop_host :: "sockaddr \<Rightarrow> int \<Rightarrow> string \<Rightarrow> (nat \<times> string) outcome" where
  "Sock_ntop_host sa salen str =
     (case sock_ntop_host sa salen str of
        (None, _) \<Rightarrow> Inl (Err_sys ''sock_ntop_host error'')
      | (Some p, s) \<Rightarrow> Inr (p, s))"

subsection \<open>Comparing and setting\<close>

text \<open>
  \<open>memcmp\<close> and \<open>strcmp\<close>: the sign of the first difference of the bytes (for \<open>strcmp\<close> a string
  that ends first is smaller). The library fixes only the sign of what they return.
\<close>

fun memcmp :: "'a::linorder list \<Rightarrow> 'a list \<Rightarrow> int" where
  "memcmp [] [] = 0"
| "memcmp [] (y # ys) = -1"
| "memcmp (x # xs) [] = 1"
| "memcmp (x # xs) (y # ys) = (if x < y then -1 else if y < x then 1 else memcmp xs ys)"

definition strcmp :: "string \<Rightarrow> string \<Rightarrow> int" where
  "strcmp s t = memcmp (map of_char s) (map of_char t :: nat list)"

definition sock_cmp_addr :: "sockaddr \<Rightarrow> sockaddr \<Rightarrow> int" where
  "sock_cmp_addr sa1 sa2 =
     (if sa_family sa1 \<noteq> sa_family sa2 then -1
      else case (sa1, sa2) of
        (SIn a, SIn b) \<Rightarrow> memcmp (sin_addr a) (sin_addr b)
      | (SIn6 a, SIn6 b) \<Rightarrow> memcmp (sin6_addr a) (sin6_addr b)
      | (SUn p, SUn q) \<Rightarrow> strcmp p q
      | _ \<Rightarrow> -1)"

definition sock_cmp_port :: "sockaddr \<Rightarrow> sockaddr \<Rightarrow> int" where
  "sock_cmp_port sa1 sa2 =
     (if sa_family sa1 \<noteq> sa_family sa2 then -1
      else case (sa1, sa2) of
        (SIn a, SIn b) \<Rightarrow> if sin_port a = sin_port b then 1 else 0
      | (SIn6 a, SIn6 b) \<Rightarrow> if sin6_port a = sin6_port b then 1 else 0
      | _ \<Rightarrow> -1)"

definition sock_get_port :: "sockaddr \<Rightarrow> int" where
  "sock_get_port sa = (case sa of SIn s \<Rightarrow> uint (sin_port s) | SIn6 s \<Rightarrow> uint (sin6_port s) | _ \<Rightarrow> -1)"

definition sock_set_addr :: "sockaddr \<Rightarrow> byte list \<Rightarrow> sockaddr" where
  "sock_set_addr sa addr =
     (case sa of
        SIn s \<Rightarrow> SIn (s\<lparr>sin_addr := take 4 addr\<rparr>)
      | SIn6 s \<Rightarrow> SIn6 (s\<lparr>sin6_addr := take 16 addr\<rparr>)
      | _ \<Rightarrow> sa)"

text \<open>The \<open>int\<close> argument is stored in 16 bits as it is, without \<open>htons\<close>.\<close>

definition sock_set_port :: "sockaddr \<Rightarrow> int \<Rightarrow> sockaddr" where
  "sock_set_port sa port =
     (case sa of
        SIn s \<Rightarrow> SIn (s\<lparr>sin_port := of_int port\<rparr>)
      | SIn6 s \<Rightarrow> SIn6 (s\<lparr>sin6_port := of_int port\<rparr>)
      | _ \<Rightarrow> sa)"

definition sock_set_wild :: "sockaddr \<Rightarrow> sockaddr" where
  "sock_set_wild sa =
     (case sa of
        SIn s \<Rightarrow> sock_set_addr sa (replicate 4 0)
      | SIn6 s \<Rightarrow> sock_set_addr sa (replicate 16 0)
      | _ \<Rightarrow> sa)"

definition IPPROTO_IP :: int where "IPPROTO_IP = 0"
definition IPPROTO_IPV6 :: int where "IPPROTO_IPV6 = 41"

definition family_to_level :: "int \<Rightarrow> int" where
  "family_to_level family =
     (if family = AF_INET then IPPROTO_IP else if family = AF_INET6 then IPPROTO_IPV6 else -1)"

definition Family_to_level :: "int \<Rightarrow> int outcome" where
  "Family_to_level family =
     (let rc = family_to_level family in
      if rc < 0 then Inl (Err_sys ''family_to_level error'') else Inr rc)"

text \<open>
  \<open>bind\<close> and \<open>getsockname\<close> are the kernel's: the first tells whether the address could be bound,
  the second gives the port of the socket's local address afterwards, \<open>None\<close> being -1.
\<close>

definition sock_bind_wild ::
  "(sockaddr \<Rightarrow> bool) \<Rightarrow> (sockaddr \<Rightarrow> 16 word option) \<Rightarrow> int \<Rightarrow> int" where
  "sock_bind_wild bind getsockname family =
     (if family = AF_INET then
        let sa = SIn \<lparr>sin_port = 0, sin_addr = replicate 4 0\<rparr> in
        if \<not> bind sa then -1
        else (case getsockname sa of Some port \<Rightarrow> uint port | None \<Rightarrow> -1)
      else if family = AF_INET6 then
        let sa = SIn6 \<lparr>sin6_port = 0, sin6_addr = replicate 16 0\<rparr> in
        if \<not> bind sa then -1
        else (case getsockname sa of Some port \<Rightarrow> uint port | None \<Rightarrow> -1)
      else -1)"

definition Sock_bind_wild ::
  "(sockaddr \<Rightarrow> bool) \<Rightarrow> (sockaddr \<Rightarrow> 16 word option) \<Rightarrow> int \<Rightarrow> int outcome" where
  "Sock_bind_wild bind getsockname family =
     (let port = sock_bind_wild bind getsockname family in
      if port < 0 then Inl (Err_sys ''sock_bind_wild error'') else Inr port)"

definition sockfd_to_family :: "sockaddr option \<Rightarrow> int" where
  "sockfd_to_family getsockname = (case getsockname of None \<Rightarrow> -1 | Some ss \<Rightarrow> sa_family ss)"

definition Sockfd_to_family :: "sockaddr option \<Rightarrow> int outcome" where
  "Sockfd_to_family getsockname =
     (let rc = sockfd_to_family getsockname in
      if rc < 0 then Inl (Err_sys ''sockfd_to_family error'') else Inr rc)"

subsection \<open>Reading an endpoint back\<close>

text \<open>
  A reference reading of what \<open>sock_ntop\<close> prints: \<open>[v6]:port\<close>, \<open>v6\<close>, \<open>v4:port\<close> or \<open>v4\<close>.
\<close>

definition port_of_text :: "string \<Rightarrow> 16 word" where
  "port_of_text s = htons (of_nat (dec_val s))"

definition parse_endpoint :: "string \<Rightarrow> sockaddr option" where
  "parse_endpoint s =
     (if take 1 s = ''['' then
        let h = takeWhile (\<lambda>c. c \<noteq> CHR '']'') (tl s) in
        map_option (\<lambda>a. SIn6 \<lparr>sin6_port = port_of_text (drop (length h + 2) (tl s)), sin6_addr = a\<rparr>) (inet_pton6 h)
      else case inet_pton6 s of
        Some a \<Rightarrow> Some (SIn6 \<lparr>sin6_port = 0, sin6_addr = a\<rparr>)
      | None \<Rightarrow>
          let h = takeWhile (\<lambda>c. c \<noteq> CHR '':'') s in
          map_option (\<lambda>a. SIn \<lparr>sin_port = (if h = s then 0 else port_of_text (drop (length h + 1) s)),
            sin_addr = a\<rparr>) (inet_pton4 h))"

lemma htons_htons [simp]: "htons (htons w) = w"
  by (rule bit_word_eqI) (auto simp: htons_def bit_simps)

lemma htons_0 [simp]: "htons w = 0 \<longleftrightarrow> w = 0"
proof
  assume "htons w = 0"
  then have "htons (htons w) = htons 0" by simp
  then show "w = 0" by (simp add: htons_def [of 0])
qed (simp add: htons_def)

lemma port_of_text_print [simp]: "port_of_text (print_dec (unat (htons p))) = p"
  by (simp add: port_of_text_def digits_print_dec)

lemma length_print_port: "length (print_dec (unat (p::16 word))) \<le> 5"
proof -
  have "unat p < 10 ^ 5" by (rule order.strict_trans2 [OF unsigned_less]) simp
  then show ?thesis
    using length_digits_of [of 10 "unat p" 5] by (simp add: print_dec_def print_base_digits)
qed

lemma portstr_fits: "length x \<le> 2 \<Longrightarrow> snprintf_buf 8 (x @ print_dec (unat (p::16 word))) = x @ print_dec (unat p)"
  using length_print_port [of p] by (intro snprintf_buf_fits) simp

lemma takeWhile_stop: "c \<notin> set xs \<Longrightarrow> takeWhile (\<lambda>x. x \<noteq> c) (xs @ c # ys) = xs"
  by (induction xs) auto

lemma takeWhile_all: "c \<notin> set xs \<Longrightarrow> takeWhile (\<lambda>x. x \<noteq> c) xs = xs"
  by (induction xs) auto

lemma parse_endpoint_v4:
  assumes "length a = 4"
  shows "parse_endpoint (dotted a) = Some (SIn \<lparr>sin_port = 0, sin_addr = a\<rparr>)"
    and "parse_endpoint (dotted a @ '':'' @ print_dec (unat (htons p))) = Some (SIn \<lparr>sin_port = p, sin_addr = a\<rparr>)"
proof -
  have d: "CHR '':'' \<notin> set (dotted a)" by (simp add: dotted_def digits_print_dec)
  have "dotted a \<noteq> []" by (simp add: dotted_def)
  then have t: "take 1 (dotted a @ rest) \<noteq> ''[''" for rest
    using plain_print(3) [of a] by (cases "dotted a") auto
  note none = inet_pton6_quad_None [OF assms]
  show "parse_endpoint (dotted a) = Some (SIn \<lparr>sin_port = 0, sin_addr = a\<rparr>)"
    using t [of "[]"] none [of "[]"] d assms
    by (simp add: parse_endpoint_def takeWhile_all inet_pton4_dotted')
  show "parse_endpoint (dotted a @ '':'' @ print_dec (unat (htons p))) = Some (SIn \<lparr>sin_port = p, sin_addr = a\<rparr>)"
    using t none d assms by (simp add: parse_endpoint_def takeWhile_stop inet_pton4_dotted' Let_def)
qed

lemma parse_endpoint_v6:
  assumes "length a = 16" and "inet_ntop6 a sz = Inr s"
  shows "parse_endpoint s = Some (SIn6 \<lparr>sin6_port = 0, sin6_addr = a\<rparr>)"
    and "parse_endpoint (''['' @ s @ '']:'' @ print_dec (unat (htons p))) =
      Some (SIn6 \<lparr>sin6_port = p, sin6_addr = a\<rparr>)"
proof -
  have r: "inet_pton6 s = Some a" using v6.reads_back [OF assms] .
  have pl: "plain s" using inet_ntop6_plain [OF assms(2)] .
  then have "take 1 s \<noteq> ''[''" by (cases s) auto
  then show "parse_endpoint s = Some (SIn6 \<lparr>sin6_port = 0, sin6_addr = a\<rparr>)"
    using r by (simp add: parse_endpoint_def)
  show "parse_endpoint (''['' @ s @ '']:'' @ print_dec (unat (htons p))) =
      Some (SIn6 \<lparr>sin6_port = p, sin6_addr = a\<rparr>)"
    using r pl by (simp add: parse_endpoint_def takeWhile_stop Let_def)
qed

lemma sock_ntop_v4:
  assumes "length (sin_addr x) = 4"
  shows "\<exists>s. sock_ntop (SIn x) salen str = Inr (Some 0, s) \<and> length s < 128 \<and> parse_endpoint s = Some (SIn x)"
proof -
  have f: "inet_ntop AF_INET (sin_addr x) 128 = Inr (dotted (sin_addr x))"
    using v4.fits [OF assms, of 128] by (simp add: inet_ntop_def inet_ntop4_fits)
  show ?thesis
    using f length_dotted [of "sin_addr x"] length_print_port [of "htons (sin_port x)"]
      parse_endpoint_v4 [OF assms] portstr_fits [of "'':''"]
    by (cases x) (simp add: sock_ntop_def strcat_def Let_def)
qed

lemma sock_ntop_v6:
  assumes "length (sin6_addr x) = 16"
  shows "\<exists>p s. sock_ntop (SIn6 x) salen str = Inr (Some p, s) \<and> length s < 128 \<and>
    parse_endpoint (drop p s) = Some (SIn6 x)"
proof -
  obtain t where t: "inet_ntop6 (sin6_addr x) 127 = Inr t" "length t < 46"
    using v6.fits [OF assms, of 127] by auto
  then have f: "inet_ntop AF_INET6 (sin6_addr x) 127 = Inr t" by (simp add: inet_ntop_def AF_defs)
  show ?thesis
    using f t(2) length_print_port [of "htons (sin6_port x)"]
      parse_endpoint_v6 [OF assms t(1)] portstr_fits [of "'']:''"]
    by (cases x) (simp add: sock_ntop_def strcat_def Let_def)
qed

lemma sock_ntop_total:
  assumes "sockaddr_ok sa"
  shows "\<exists>p s. sock_ntop sa salen str = Inr (Some p, s) \<and> length s < 128"
proof (cases sa)
  case (SIn x)
  then show ?thesis using sock_ntop_v4 [of x] assms by fastforce
next
  case (SIn6 x)
  then show ?thesis using sock_ntop_v6 [of x] assms by fastforce
qed (auto simp: sock_ntop_def length_snprintf_buf)

text \<open>Two structures that name the same host (or path), whatever their ports.\<close>

definition same_address :: "sockaddr \<Rightarrow> sockaddr \<Rightarrow> bool" where
  "same_address sa1 sa2 = (case (sa1, sa2) of
     (SIn a, SIn b) \<Rightarrow> sin_addr a = sin_addr b
   | (SIn6 a, SIn6 b) \<Rightarrow> sin6_addr a = sin6_addr b
   | (SUn p, SUn q) \<Rightarrow> p = q
   | _ \<Rightarrow> False)"

lemma memcmp_eq_0: "memcmp xs ys = 0 \<longleftrightarrow> xs = ys"
  by (induction xs ys rule: memcmp.induct) auto

lemma strcmp_eq_0: "strcmp s t = 0 \<longleftrightarrow> s = t"
  by (simp add: strcmp_def memcmp_eq_0 inj_map_eq_map inj_def)

subsection \<open>Properties\<close>

text \<open>
  \<open>sock_ntop\<close> never fails on a well-formed address of any family, stays within its static
  array of 128 bytes and never cuts the port in its 8-byte array; and the text of an IPv4 or
  IPv6 endpoint determines it, since the reference reading gives the same address and port back.
\<close>

theorem sock_ntop_round_trip:
  assumes "sockaddr_ok sa"
  shows "\<exists>p s. sock_ntop sa salen str = Inr (Some p, s) \<and> length s < 128 \<and>
    (sa_family sa \<in> {AF_INET, AF_INET6} \<longrightarrow> parse_endpoint (drop p s) = Some sa)"
proof (cases sa)
  case (SIn x)
  then show ?thesis using sock_ntop_v4 [of x salen str] assms by fastforce
next
  case (SIn6 x)
  then show ?thesis using sock_ntop_v6 [of x salen str] assms by fastforce
next
  case (SUn x)
  then show ?thesis using sock_ntop_total [OF assms, of salen str] by (auto simp: AF_defs)
next
  case (SOther x)
  then show ?thesis using sock_ntop_total [OF assms, of salen str] assms by (auto simp: AF_defs)
qed

theorem sock_ntop_round_trip_witness:
  "\<exists>p s. sock_ntop (SIn \<lparr>sin_port = 0x9526, sin_addr = [127, 0, 0, 1]\<rparr>) 16 [] = Inr (Some p, s) \<and>
    length s < 128 \<and>
    parse_endpoint (drop p s) = Some (SIn \<lparr>sin_port = 0x9526, sin_addr = [127, 0, 0, 1]\<rparr>)"
  using sock_ntop_round_trip [of "SIn \<lparr>sin_port = 0x9526, sin_addr = [127, 0, 0, 1]\<rparr>" 16 "[]"] by simp

text \<open>
  \<open>sock_cmp_addr\<close> is 0 exactly when the two addresses have the same family and the same
  address, ports aside, and setting the address or the wildcard makes it so; \<open>sock_cmp_port\<close>
  has the opposite convention, 1 on equal ports and 0 on different ones; and
  \<open>sock_get_port\<close> returns what \<open>sock_set_port\<close> stored, modulo \<open>2 ^ 16\<close>.
\<close>

theorem sock_compare_and_set:
  assumes "sockaddr_ok sa1" and "sockaddr_ok sa2"
  shows "(sock_cmp_addr sa1 sa2 = 0 \<longleftrightarrow> same_address sa1 sa2) \<and>
    (sa_family sa1 = sa_family sa2 \<and> sa_family sa1 \<in> {AF_INET, AF_INET6} \<longrightarrow>
       sock_cmp_port sa1 sa2 = (if sock_get_port sa1 = sock_get_port sa2 then 1 else 0) \<and>
       sock_get_port (sock_set_port sa1 port) = port mod 65536 \<and>
       sock_cmp_addr (sock_set_port sa1 port) sa1 = 0 \<and>
       sock_cmp_addr (sock_set_wild sa1) (sock_set_wild sa2) = 0 \<and>
       sock_get_port (sock_set_wild sa1) = sock_get_port sa1)"
  using assms
  by (cases sa1; cases sa2)
    (auto simp: sock_cmp_addr_def sock_cmp_port_def same_address_def memcmp_eq_0 strcmp_eq_0 AF_defs
      sock_get_port_def sock_set_port_def sock_set_wild_def sock_set_addr_def uint_word_of_int
      take_bit_eq_mod dest: unsigned_word_eqI)

theorem sock_compare_and_set_witness:
  "sock_cmp_addr (SIn \<lparr>sin_port = 1, sin_addr = [1, 2, 3, 4]\<rparr>) (SIn \<lparr>sin_port = 2, sin_addr = [1, 2, 3, 4]\<rparr>) = 0 \<and>
   sock_cmp_port (SIn \<lparr>sin_port = 1, sin_addr = [1, 2, 3, 4]\<rparr>) (SIn \<lparr>sin_port = 2, sin_addr = [1, 2, 3, 4]\<rparr>) = 0 \<and>
   sock_get_port (sock_set_port (SIn \<lparr>sin_port = 1, sin_addr = [1, 2, 3, 4]\<rparr>) 65537) = 1"
  using sock_compare_and_set [of "SIn \<lparr>sin_port = 1, sin_addr = [1, 2, 3, 4]\<rparr>"
      "SIn \<lparr>sin_port = 2, sin_addr = [1, 2, 3, 4]\<rparr>" 65537]
  by (simp add: same_address_def sock_get_port_def)

end
