(* ===== verification/Checksum.thy ===== *)
theory Checksum
  imports Sock_Addr
begin

text \<open>
  The Internet checksum of \<open>libfree/in_cksum.c\<close> and the program that depends on it,
  \<open>udpcksum\<close>: \<open>udp_write\<close> builds an IP/UDP datagram, \<open>send_dns_query\<close> its payload, \<open>udp_read\<close>
  and \<open>udp_check\<close> examine what was captured, and \<open>test_udp\<close> retransmits on a timer.

  Memory is a list of bytes; the host is little-endian, so a 16-bit load takes the low byte
  first.
\<close>

subsection \<open>in\_cksum\<close>

definition load16 :: "byte \<Rightarrow> byte \<Rightarrow> 16 word" where
  "load16 a b = push_bit 8 (ucast b) OR ucast a"

definition store16le :: "16 word \<Rightarrow> byte list" where
  "store16le w = [ucast w, ucast (drop_bit 8 w)]"

text \<open>The \<open>while\<close> loop and the odd byte, whose upper half is that of \<open>answer\<close>, zero.\<close>

fun sum_words :: "byte list \<Rightarrow> 32 word \<Rightarrow> 32 word" where
  "sum_words [] acc = acc"
| "sum_words [a] acc = acc + ucast (load16 a 0)"
| "sum_words (a # b # w) acc = sum_words w (acc + ucast (load16 a b))"

definition in_cksum :: "byte list \<Rightarrow> 16 word" where
  "in_cksum addr =
     (let acc = sum_words addr 0;
          acc = drop_bit 16 acc + (acc AND 0xffff);
          acc = acc + drop_bit 16 acc
      in ucast (NOT acc))"

subsection \<open>udp\_write and send\_dns\_query\<close>

text \<open>
  \<open>struct udpiphdr\<close>, as bytes: the pseudo-header of 12 bytes at the end of the 20 bytes that
  the IP header will take (the first 8 stay zero), then the UDP header. Addresses and ports are in
  network byte order already, \<open>port\<close> being the 16-bit load of its two bytes.
\<close>

definition udpiphdr ::
  "byte list \<Rightarrow> byte list \<Rightarrow> 16 word \<Rightarrow> 16 word \<Rightarrow> 16 word \<Rightarrow> 16 word \<Rightarrow> byte list" where
  "udpiphdr src dst sport dport ulen cksum =
     replicate 9 0 @ [17] @ store16le ulen @ src @ dst @
     store16le sport @ store16le dport @ store16le ulen @ store16le cksum"

text \<open>
  The start of the IP header, up to the protocol, which then overwrites that of the
  pseudo-header.
\<close>

definition ip_start :: "16 word \<Rightarrow> byte list" where
  "ip_start iplen = [0x45, 0] @ store16le iplen @ [0, 0, 0, 0, 64, 17]"

text \<open>
  \<open>buf\<close> is what follows the empty headers; \<open>local\<close> and \<open>dest\<close> are the global addresses. The
  result is what is passed to \<open>Sendto\<close>. The pseudo-header's length takes the place of \<open>ip_sum\<close>,
  which \<open>udp_write\<close> leaves to the kernel.
\<close>

definition udp_write :: "bool \<Rightarrow> sockaddr_in \<Rightarrow> sockaddr_in \<Rightarrow> byte list \<Rightarrow> byte list" where
  "udp_write zerosum local dest buf =
     (let ui_len = htons (of_nat (8 + length buf));
          src = sin_addr local; dst = sin_addr dest;
          ui = udpiphdr src dst (sin_port local) (sin_port dest) ui_len 0;
          userlen = length buf + 28;
          ui_sum = (if zerosum then 0
            else let c = in_cksum (ui @ buf) in if c = 0 then 0xffff else c)
      in ip_start (htons (of_nat userlen)) @ store16le ui_len @ src @ dst @ store16le (sin_port local) @ store16le (sin_port dest) @ store16le ui_len @
         store16le ui_sum @ buf)"

text \<open>The query for the A record of \<open>a.root-servers.net\<close>.\<close>

definition dns_query :: "byte list" where
  "dns_query = store16le (htons 1234) @ store16le (htons 0x0100) @ store16le (htons 1) @
     store16le 0 @ store16le 0 @ store16le 0 @
     [1] @ bytes_of ''a'' @ [12] @ bytes_of ''root-servers'' @ [3] @ bytes_of ''net'' @ [0] @
     store16le (htons 1) @ store16le (htons 1)"

definition send_dns_query :: "bool \<Rightarrow> sockaddr_in \<Rightarrow> sockaddr_in \<Rightarrow> byte list" where
  "send_dns_query zerosum local dest = udp_write zerosum local dest dns_query"

subsection \<open>udp\_check and udp\_read\<close>

text \<open>
  \<open>ptr\<close> is the captured memory from the pointer on, \<open>len\<close> the \<open>int\<close> argument. Comparing it with a
  \<open>size_t\<close> converts it to 64 bits unsigned. Reading a byte that was not captured is undefined.
  The result is the packet with \<open>ip_sum\<close> overwritten by the computed checksum.
\<close>

definition as_size :: "int \<Rightarrow> int" where
  "as_size i = i mod 2 ^ 64"

definition udp_check :: "byte list \<Rightarrow> int \<Rightarrow> byte list outcome" where
  "udp_check ptr len =
     (if as_size len < 28 then Inl (Err_quit (''len = '' @ print_int len))
      else if ptr = [] then Inl (Undefined Uninit_read)
      else
        let ip_v = unat (ptr ! 0) div 16; ip_hl = unat (ptr ! 0) mod 16; hlen = 4 * ip_hl in
        if ip_v \<noteq> 4 then Inl (Err_quit (''ip_v = '' @ print_dec ip_v))
        else if hlen < 20 then Inl (Err_quit (''ip_hl = '' @ print_dec ip_hl))
        else if as_size len < int hlen + 8
          then Inl (Err_quit (''len = '' @ print_int len @ '', hlen = '' @ print_dec hlen))
        else if length ptr < hlen then Inl (Undefined Uninit_read)
        else
          let c = in_cksum (take hlen ptr) in
          if c \<noteq> 0 then Inl (Err_quit ''ip checksum error'')
          else if ptr ! 9 = 17 then Inr (take 10 ptr @ store16le c @ drop 12 ptr)
          else Inl (Err_quit ''not a UDP packet''))"

datatype datalink = DLT_NULL | DLT_EN10MB | DLT_SLIP | DLT_PPP | DLT_OTHER int

text \<open>
  \<open>frame\<close> is what \<open>next_pcap\<close> returned, with its captured length. Every branch returns or
  quits, so the loop runs once.
\<close>

definition udp_read :: "datalink \<Rightarrow> byte list \<Rightarrow> byte list outcome" where
  "udp_read dlt frame =
     (let len = int (length frame) in
      case dlt of
        DLT_NULL \<Rightarrow> udp_check (drop 4 frame) (len - 4)
      | DLT_EN10MB \<Rightarrow>
          if length frame < 14 then Inl (Undefined Uninit_read)
          else
            let ether_type = htons (load16 (frame ! 12) (frame ! 13)) in
            if ether_type \<noteq> 0x0800
            then Inl (Err_quit (''Ethernet type '' @ print_hex (unat ether_type) @ '' not IP''))
            else udp_check (drop 14 frame) (len - 14)
      | DLT_SLIP \<Rightarrow> udp_check (drop 24 frame) (len - 24)
      | DLT_PPP \<Rightarrow> udp_check (drop 24 frame) (len - 24)
      | DLT_OTHER d \<Rightarrow> Inl (Err_quit (''unsupported datalink ('' @ print_int d @ '')'')))"

subsection \<open>test\_udp\<close>

text \<open>
  While \<open>udp_read\<close> waits either a frame arrives or the alarm goes off and the signal handler
  jumps back. The log holds the alarms that were set, one per query sent.
\<close>

datatype wait = Frame "byte list" | Alarm

fun test_udp_loop ::
  "datalink \<Rightarrow> nat \<Rightarrow> nat \<Rightarrow> nat list \<Rightarrow> wait list \<Rightarrow> (byte list outcome \<times> nat list) option" where
  "test_udp_loop dlt nsent timeout alarms [] = None"
| "test_udp_loop dlt nsent timeout alarms (w # ws) =
     (case w of
        Frame f \<Rightarrow> Some (udp_read dlt f, alarms @ [timeout])
      | Alarm \<Rightarrow>
          if nsent + 1 \<ge> 3 then Some (Inl (Err_quit ''no response''), alarms @ [timeout])
          else test_udp_loop dlt (nsent + 1) (timeout * 2) (alarms @ [timeout]) ws)"

definition test_udp :: "datalink \<Rightarrow> wait list \<Rightarrow> (byte list outcome \<times> nat list) option" where
  "test_udp dlt ws = test_udp_loop dlt 0 3 [] ws"

subsection \<open>The ones' complement sum\<close>

text \<open>The plain sum of the 16-bit words, and the ones' complement sum it stands for.\<close>

fun le_sum :: "byte list \<Rightarrow> nat" where
  "le_sum [] = 0"
| "le_sum [a] = unat a"
| "le_sum (a # b # w) = unat a + 256 * unat b + le_sum w"

definition ones_sum :: "nat \<Rightarrow> nat" where
  "ones_sum n = (if n = 0 then 0 else (n - 1) mod 65535 + 1)"

lemma unat_ucast16 [simp]: "unat (ucast (b::byte) :: 16 word) = unat b"
proof -
  have "unat b < 2 ^ 16" by (rule less_trans [OF unat_byte_lt]) simp
  then show ?thesis by (simp add: unsigned_ucast_eq take_bit_nat_eq_self)
qed

lemma unat_load16: "unat (load16 a b) = unat a + 256 * unat b"
proof -
  have "unat (ucast b :: 16 word) * 256 + 255 < 2 ^ LENGTH(16)"
    using unat_byte_lt [of b] by (simp del: unat_byte_lt)
  then show ?thesis
    unfolding load16_def by (subst unat_push8_or) simp_all
qed

lemma unat_ucast32 [simp]: "unat (ucast (w::16 word) :: 32 word) = unat w"
proof -
  have "unat w < 2 ^ 32" by (rule order.strict_trans2 [OF unsigned_less]) simp
  then show ?thesis by (simp add: unsigned_ucast_eq take_bit_nat_eq_self)
qed

lemma le_sum_bound: "le_sum bs \<le> 65535 * ((length bs + 1) div 2)"
proof (induction bs rule: le_sum.induct)
  case (2 a)
  then show ?case using unat_byte_lt [of a] by (simp del: unat_byte_lt)
next
  case (3 a b w)
  then show ?case using unat_byte_lt [of a] unat_byte_lt [of b] by (simp del: unat_byte_lt)
qed simp

lemma le_sum_small: "length bs \<le> 131072 \<Longrightarrow> le_sum bs < 2 ^ 32"
proof -
  assume "length bs \<le> 131072"
  then have "(length bs + 1) div 2 \<le> 65536" by simp
  then have "65535 * ((length bs + 1) div 2) \<le> 65535 * 65536" by (rule mult_le_mono2)
  with le_sum_bound [of bs] show ?thesis by simp
qed

lemma unat_sum_words:
  "unat acc + le_sum bs < 2 ^ 32 \<Longrightarrow> unat (sum_words bs acc) = unat acc + le_sum bs"
proof (induction bs acc rule: sum_words.induct)
  case (2 a acc)
  then show ?case by (simp add: unat_word_ariths unat_load16)
next
  case (3 a b w acc)
  then have "unat (acc + ucast (load16 a b)) = unat acc + (unat a + 256 * unat b)"
    by (simp add: unat_word_ariths unat_load16)
  with 3 show ?case by (simp add: add.assoc)
qed simp

lemma unat_not_ucast: "unat (ucast (NOT (x::32 word)) :: 16 word) = 65535 - unat x mod 65536"
proof -
  have "ucast (NOT x) = (NOT (ucast x) :: 16 word)"
    by (rule bit_word_eqI) (auto simp: bit_simps)
  also have "\<dots> = - 1 - ucast x" by (simp add: not_eq_complement)
  also have "unat \<dots> = unat (- 1 :: 16 word) - unat (ucast x :: 16 word)"
    by (rule unat_sub) simp
  finally have "unat (ucast (NOT x) :: 16 word) = unat (- 1 :: 16 word) - unat (ucast x :: 16 word)" .
  moreover have "unat (ucast x :: 16 word) = unat x mod 65536"
    by (simp add: unsigned_ucast_eq take_bit_eq_mod)
  moreover have "unat (- 1 :: 16 word) = 65535"
    by (simp only: unsigned_minus_1_eq_mask) (simp add: mask_eq_exp_minus_1)
  ultimately show ?thesis by simp
qed

definition fold16 :: "nat \<Rightarrow> nat" where
  "fold16 n = (let t = n div 65536 + n mod 65536 in (t + t div 65536) mod 65536)"

lemma ones_sum_step: "ones_sum (65535 * h + t) = (if t = 0 \<and> 0 < h then 65535 else ones_sum t)"
proof (cases "t = 0")
  case True
  show ?thesis
  proof (cases h)
    case (Suc g)
    have "65535 * h - 1 = 65535 * g + 65534" using Suc by simp
    with True Suc show ?thesis by (simp add: ones_sum_def)
  qed (simp add: True)
next
  case False
  then have "65535 * h + t - 1 = 65535 * h + (t - 1)" by simp
  then have "(65535 * h + t - 1) mod 65535 = (t - 1) mod 65535" by (simp only: mod_mult_self4)
  with False show ?thesis by (simp add: ones_sum_def)
qed

lemma fold16_ones: "n < 2 ^ 32 \<Longrightarrow> fold16 n = ones_sum n"
proof -
  assume "n < 2 ^ 32"
  define h l where "h = n div 65536" and "l = n mod 65536"
  have n: "n = 65535 * h + (h + l)" by (simp add: h_def l_def)
  have b: "h < 65536" "l < 65536" using \<open>n < 2 ^ 32\<close> by (auto simp: h_def l_def)
  have f: "fold16 n = (h + l + (h + l) div 65536) mod 65536"
    by (simp add: fold16_def h_def l_def Let_def)
  show ?thesis
  proof (cases "h + l < 65536")
    case True
    then have "ones_sum (h + l) = h + l" by (auto simp: ones_sum_def)
    with True f n ones_sum_step [of h "h + l"] show ?thesis by (cases "h = 0") simp_all
  next
    case False
    then obtain x where x: "h + l = 65536 + x" by (metis le_Suc_ex not_less)
    with b have "x \<le> 65534" by simp
    with x f have "fold16 n = (65536 + (x + 1)) mod 65536" by (simp add: div_nat_eqI)
    with \<open>x \<le> 65534\<close> have "fold16 n = x + 1" by (simp only: mod_add_self1) simp
    moreover have "h + l - 1 = 65535 + x" using x by simp
    with x \<open>x \<le> 65534\<close> have "ones_sum (h + l) = x + 1" by (simp add: ones_sum_def)
    ultimately show ?thesis using n ones_sum_step [of h "h + l"] False by simp
  qed
qed

lemma unat_add_carry:
  fixes x :: "32 word"
  assumes "unat x < 131072"
  shows "unat (x + drop_bit 16 x) = unat x + unat x div 65536"
proof -
  have d: "unat (drop_bit 16 x) = unat x div 65536"
    by (simp only: unat_drop_bit_eq) (simp add: drop_bit_eq_div)
  have "unat x div 65536 < 2" using assms by (simp add: less_mult_imp_div_less)
  then have "unat x + unat x div 65536 < 2 ^ 32" using assms by simp
  then show ?thesis by (simp add: unat_word_ariths d)
qed

lemma unat_in_cksum:
  assumes "length bs \<le> 131072"
  shows "unat (in_cksum bs) = 65535 - ones_sum (le_sum bs)"
proof -
  let ?s = "sum_words bs 0"
  have s: "unat ?s = le_sum bs" "le_sum bs < 2 ^ 32"
    using unat_sum_words [of 0 bs] le_sum_small [OF assms] by simp_all
  let ?t = "drop_bit 16 ?s + (?s AND 0xffff)"
  have "?s AND 0xffff = take_bit 16 ?s"
    by (simp only: take_bit_eq_mask) (simp add: mask_eq_exp_minus_1)
  then have lo: "unat (?s AND 0xffff) = le_sum bs mod 65536"
    using s(1) by (simp only: unsigned_take_bit_eq) (simp add: take_bit_eq_mod)
  have hi: "unat (drop_bit 16 ?s) = le_sum bs div 65536"
    using s(1) by (simp only: unat_drop_bit_eq) (simp add: drop_bit_eq_div)
  have small: "le_sum bs div 65536 < 65536" "le_sum bs mod 65536 < 65536" using s(2) by auto
  have t: "unat ?t = le_sum bs div 65536 + le_sum bs mod 65536"
    using small by (simp add: unat_word_ariths hi lo)
  have "unat (?t + drop_bit 16 ?t) = unat ?t + unat ?t div 65536"
    using small t by (intro unat_add_carry) simp
  then show ?thesis
    using t fold16_ones [OF s(2)]
    by (simp add: in_cksum_def Let_def unat_not_ucast fold16_def)
qed

subsection \<open>A checksum that verifies\<close>

lemma le_sum_append: "even (length xs) \<Longrightarrow> le_sum (xs @ ys) = le_sum xs + le_sum ys"
  by (induction xs rule: le_sum.induct) auto

lemma le_sum_store16le: "le_sum (store16le c @ w) = unat c + le_sum w"
proof -
  have "unat (ucast c :: byte) = unat c mod 256" using unat_byte_of_word [of 0 c] by simp
  moreover have "unat (ucast (drop_bit 8 c) :: byte) = unat c div 256"
  proof -
    have "unat c < 2 ^ 16" by (rule order.strict_trans2 [OF unsigned_less]) simp
    then have "unat c div 256 < 256" by (simp add: less_mult_imp_div_less)
    then show ?thesis using unat_byte_of_word [of 8 c] by simp
  qed
  ultimately show ?thesis by (simp add: store16le_def)
qed

lemma length_store16le [simp]: "length (store16le w) = 2"
  by (simp add: store16le_def)

lemma ones_sum_le: "ones_sum n \<le> 65535"
proof (cases "n = 0")
  case False
  have "(n - 1) mod 65535 < 65535" by (rule mod_less_divisor) simp
  with False show ?thesis by (simp only: ones_sum_def if_False)
qed (simp add: ones_sum_def)

lemma ones_sum_complement: "ones_sum (n + (65535 - ones_sum n)) = 65535"
proof (cases "n = 0")
  case True
  then show ?thesis by (simp add: ones_sum_def)
next
  case False
  define q r where "q = (n - 1) div 65535" and "r = (n - 1) mod 65535"
  have n: "n = 65535 * q + (r + 1)" using False by (simp add: q_def r_def)
  have r: "r < 65535" by (simp add: r_def)
  have "ones_sum n = r + 1" using False by (simp add: ones_sum_def r_def)
  with n r have "n + (65535 - ones_sum n) = 65535 * (q + 1) + 0" by simp
  then show ?thesis using ones_sum_step [of "q + 1" 0] by simp
qed

lemma in_cksum_0_iff:
  "length bs \<le> 131072 \<Longrightarrow> in_cksum bs = 0 \<longleftrightarrow> ones_sum (le_sum bs) = 65535"
proof -
  assume "length bs \<le> 131072"
  then have "unat (in_cksum bs) = 65535 - ones_sum (le_sum bs)" by (rule unat_in_cksum)
  moreover have "in_cksum bs = 0 \<longleftrightarrow> unat (in_cksum bs) = 0" by (simp only: unat_0_iff)
  ultimately show ?thesis using ones_sum_le [of "le_sum bs"] by simp
qed

text \<open>
  A packet with a 16-bit checksum field: \<open>build x c\<close> is the packet \<open>x\<close> with \<open>c\<close> in the field. What
  the sender relies on is that the field is aligned, so that it adds its own value to the sum.
\<close>

locale checksummed =
  fixes build :: "'a \<Rightarrow> 16 word \<Rightarrow> byte list" and ok :: "'a \<Rightarrow> bool"
  assumes field: "ok x \<Longrightarrow> le_sum (build x c) = le_sum (build x 0) + unat c"
    and short: "ok x \<Longrightarrow> length (build x c) \<le> 131072"
begin

lemma verifies:
  assumes "ok x"
  shows "in_cksum (build x (in_cksum (build x 0))) = 0"
  using field [OF assms, of "in_cksum (build x 0)"] unat_in_cksum [OF short [OF assms], of 0]
    ones_sum_complement [of "le_sum (build x 0)"] in_cksum_0_iff [OF short [OF assms]]
  by simp

text \<open>With UDP's convention that a computed 0 is sent as 0xffff.\<close>

lemma verifies_nonzero:
  assumes "ok x" and "c = in_cksum (build x 0)"
  shows "in_cksum (build x (if c = 0 then 0xffff else c)) = 0"
proof (cases "c = 0")
  case True
  then have s: "ones_sum (le_sum (build x 0)) = 65535"
    using in_cksum_0_iff [OF short [OF assms(1)]] assms(2) by simp
  then have "0 < le_sum (build x 0)" by (auto simp: ones_sum_def split: if_splits)
  then have "ones_sum (65535 * 1 + le_sum (build x 0)) = ones_sum (le_sum (build x 0))"
    by (subst ones_sum_step) simp
  with s have "ones_sum (le_sum (build x 0) + 65535) = 65535" by (simp add: add.commute)
  then show ?thesis
    using field [OF assms(1), of "0xffff"] in_cksum_0_iff [OF short [OF assms(1)]] True by simp
next
  case False
  then show ?thesis using verifies [OF assms(1)] assms(2) by simp
qed

end

text \<open>The UDP datagram with its pseudo-header.\<close>

definition udp_pseudo ::
  "(byte list \<times> byte list \<times> 16 word \<times> 16 word \<times> 16 word \<times> byte list) \<Rightarrow> 16 word \<Rightarrow> byte list" where
  "udp_pseudo = (\<lambda>(src, dst, sport, dport, ulen, buf) c. udpiphdr src dst sport dport ulen c @ buf)"

definition udp_pseudo_ok :: "(byte list \<times> byte list \<times> 16 word \<times> 16 word \<times> 16 word \<times> byte list) \<Rightarrow> bool" where
  "udp_pseudo_ok = (\<lambda>(src, dst, sport, dport, ulen, buf). length src = 4 \<and> length dst = 4 \<and> length buf \<le> 65507)"

interpretation udp: checksummed udp_pseudo udp_pseudo_ok
proof
  fix x :: "byte list \<times> byte list \<times> 16 word \<times> 16 word \<times> 16 word \<times> byte list" and c
  obtain src dst sport dport ulen buf where x: "x = (src, dst, sport, dport, ulen, buf)" by (metis prod_cases6)
  assume "udp_pseudo_ok x"
  then have l: "length src = 4" "length dst = 4" "length buf \<le> 65507" by (auto simp: x udp_pseudo_ok_def)
  let ?pre = "replicate 9 0 @ [17] @ store16le ulen @ src @ dst @ store16le sport @ store16le dport @ store16le ulen"
  have e: "udp_pseudo x c = ?pre @ store16le c @ buf" for c by (simp add: x udp_pseudo_def udpiphdr_def)
  have "even (length ?pre)" using l by simp
  from le_sum_append [OF this] show "le_sum (udp_pseudo x c) = le_sum (udp_pseudo x 0) + unat c"
    unfolding e by (simp add: le_sum_store16le)
  show "length (udp_pseudo x c) \<le> 131072" unfolding e using l by simp
qed

lemma length_udp_write [simp]:
  "length (sin_addr l) = 4 \<Longrightarrow> length (sin_addr d) = 4 \<Longrightarrow> length (udp_write z l d buf) = 28 + length buf"
  by (simp add: udp_write_def Let_def ip_start_def)

text \<open>What the receiver of a datagram sums: the pseudo-header rebuilt from it, and the rest.\<close>

definition pseudo_of :: "byte list \<Rightarrow> byte list" where
  "pseudo_of pkt = replicate 9 0 @ [pkt ! 9] @ take 2 (drop 24 pkt) @ take 8 (drop 12 pkt) @ drop 20 pkt"

definition cksum_field :: "byte list \<Rightarrow> 16 word" where
  "cksum_field pkt = load16 (pkt ! 26) (pkt ! 27)"

lemma load_store16: "load16 (ucast w) (ucast (drop_bit 8 w)) = w"
  by (rule bit_word_eqI) (auto simp: load16_def bit_simps)

lemma udp_write_fields:
  assumes "length (sin_addr l) = 4" and "length (sin_addr d) = 4"
    and "x = (sin_addr l, sin_addr d, sin_port l, sin_port d, htons (of_nat (8 + length buf)), buf)"
    and "c = (if z then 0 else let c = in_cksum (udp_pseudo x 0) in if c = 0 then 0xffff else c)"
  shows "pseudo_of (udp_write z l d buf) = udp_pseudo x c" "cksum_field (udp_write z l d buf) = c"
proof -
  obtain s0 s1 s2 s3 d0 d1 d2 d3 where sd: "sin_addr l = [s0, s1, s2, s3]" "sin_addr d = [d0, d1, d2, d3]"
    using list4 [OF assms(1)] list4 [OF assms(2)] by blast
  have w: "udp_write z l d buf = ip_start (htons (of_nat (length buf + 28))) @
      store16le (htons (of_nat (8 + length buf))) @ sin_addr l @ sin_addr d @ store16le (sin_port l) @
      store16le (sin_port d) @ store16le (htons (of_nat (8 + length buf))) @ store16le c @ buf"
    using assms(3,4) by (simp add: udp_write_def udp_pseudo_def Let_def)
  show "pseudo_of (udp_write z l d buf) = udp_pseudo x c"
    using assms(3) by (simp add: w pseudo_of_def ip_start_def store16le_def sd udp_pseudo_def udpiphdr_def
        numeral_eq_Suc)
  show "cksum_field (udp_write z l d buf) = c"
    by (simp add: w cksum_field_def ip_start_def store16le_def sd load_store16)
qed

subsection \<open>Properties\<close>

text \<open>
  C20. \<open>in_cksum\<close> computes the Internet checksum: for any data of up to 128 Kbyte, so that the
  32-bit accumulator cannot wrap, the two folds give the complement of the ones' complement sum
  of its 16-bit words.
\<close>

theorem in_cksum_correct:
  assumes "length bs \<le> 131072"
  shows "in_cksum bs = of_nat (65535 - ones_sum (le_sum bs))"
  by (simp flip: unat_in_cksum [OF assms])

theorem in_cksum_correct_witness:
  "in_cksum [0, 1, 0xf2, 3, 0xf4, 0xf5, 0xf6, 0xf7] = 0x0d22"
proof -
  have "65535 - ones_sum (le_sum [0, 1, 0xf2, 3, 0xf4, 0xf5, 0xf6, 0xf7]) = 0x0d22"
    by (simp add: ones_sum_def)
  with in_cksum_correct [of "[0, 1, 0xf2, 3, 0xf4, 0xf5, 0xf6, 0xf7]"] show ?thesis by simp
qed

text \<open>
  The datagram \<open>udp_write\<close> hands to the raw socket verifies at the receiver: the checksum of
  the pseudo-header rebuilt from it, its UDP header and its data is 0, and its checksum field is
  never 0; with the \<open>-0\<close> option the field is 0, which means no checksum.
\<close>

theorem udp_write_verifies:
  assumes "length (sin_addr l) = 4" and "length (sin_addr d) = 4" and "length buf \<le> 65507"
  shows "in_cksum (pseudo_of (udp_write False l d buf)) = 0 \<and> cksum_field (udp_write False l d buf) \<noteq> 0 \<and>
    cksum_field (udp_write True l d buf) = 0"
proof -
  define x where "x = (sin_addr l, sin_addr d, sin_port l, sin_port d, htons (of_nat (8 + length buf)), buf)"
  have ok: "udp_pseudo_ok x" using assms by (simp add: x_def udp_pseudo_ok_def)
  show ?thesis
    using udp.verifies_nonzero [OF ok refl] udp_write_fields [OF assms(1,2) x_def]
    by (auto simp: Let_def)
qed

theorem udp_write_verifies_witness:
  "in_cksum (pseudo_of (send_dns_query False \<lparr>sin_port = 0x3930, sin_addr = [192, 168, 1, 2]\<rparr>
      \<lparr>sin_port = 0x3500, sin_addr = [198, 41, 0, 4]\<rparr>)) = 0"
  using udp_write_verifies [of "\<lparr>sin_port = 0x3930, sin_addr = [192, 168, 1, 2]\<rparr>"
      "\<lparr>sin_port = 0x3500, sin_addr = [198, 41, 0, 4]\<rparr>" dns_query]
  by (simp add: send_dns_query_def dns_query_def bytes_of_def)

text \<open>
  \<open>udp_check\<close>, given the true length of what was captured, never reads beyond it and
  accepts exactly IPv4 packets that carry UDP, have a header of at least 20 bytes followed by 8
  more, and whose header checksum verifies; but a frame shorter than the link-layer header makes
  \<open>udp_read\<close> pass a negative length, which the unsigned comparisons let through.
\<close>

theorem udp_check_correct:
  "(len = int (length ptr) \<and> len < 2 ^ 31 \<longrightarrow>
     (\<forall>u. udp_check ptr len \<noteq> Inl (Undefined u)) \<and>
     ((\<exists>pkt. udp_check ptr len = Inr pkt) \<longleftrightarrow>
        (let hlen = 4 * (unat (ptr ! 0) mod 16) in
         28 \<le> length ptr \<and> unat (ptr ! 0) div 16 = 4 \<and> 20 \<le> hlen \<and> hlen + 8 \<le> length ptr \<and>
         in_cksum (take hlen ptr) = 0 \<and> ptr ! 9 = 17))) \<and>
   udp_read DLT_NULL [2, 0] = Inl (Undefined Uninit_read)"
proof (intro conjI impI)
  assume a: "len = int (length ptr) \<and> len < 2 ^ 31"
  then have s: "as_size len = int (length ptr)" by (simp add: as_size_def)
  show "\<forall>u. udp_check ptr len \<noteq> Inl (Undefined u)"
    using s by (auto simp: udp_check_def Let_def)
  show "(\<exists>pkt. udp_check ptr len = Inr pkt) \<longleftrightarrow>
      (let hlen = 4 * (unat (ptr ! 0) mod 16) in
         28 \<le> length ptr \<and> unat (ptr ! 0) div 16 = 4 \<and> 20 \<le> hlen \<and> hlen + 8 \<le> length ptr \<and>
         in_cksum (take hlen ptr) = 0 \<and> ptr ! 9 = 17)"
    using s by (auto simp: udp_check_def Let_def)
qed code_simp

theorem udp_check_correct_witness:
  "\<forall>u. udp_check (replicate 28 0) 28 \<noteq> Inl (Undefined u)"
  using udp_check_correct [of 28 "replicate 28 0"] by simp

text \<open>
  \<open>test_udp\<close> sends at most three queries, with alarms of 3, 6 and 12 seconds, and gives up
  exactly when all three alarms went off before a frame arrived; otherwise its answer is that of
  the first frame.
\<close>

theorem test_udp_retransmits:
  "test_udp dlt (replicate n Alarm @ Frame f # ws) =
     (if n < 3 then Some (udp_read dlt f, take (n + 1) [3, 6, 12])
      else Some (Inl (Err_quit ''no response''), [3, 6, 12]))"
proof -
  consider "n = 0" | "n = 1" | "n = 2" | m where "n = Suc (Suc (Suc m))"
    by (metis One_nat_def Suc_1 not0_implies_Suc)
  then show ?thesis by cases (simp_all add: test_udp_def numeral_eq_Suc)
qed

end
