(* ===== verification/Getaddrinfo.thy ===== *)
theory Getaddrinfo
  imports Sock_Addr
begin

text \<open>
  The name and service resolver of \<open>libgai\<close>: \<open>getaddrinfo\<close> with its helpers \<open>ga_echeck\<close>,
  \<open>ga_unix\<close>, \<open>ga_nsearch\<close>, \<open>ga_aistruct\<close>, \<open>ga_clone\<close>, \<open>ga_port\<close> and \<open>ga_serv\<close>, then
  \<open>freeaddrinfo\<close>, \<open>getnameinfo\<close>, \<open>gn_ipv46\<close> and \<open>gai_strerror\<close>.

  The linked list of \<open>addrinfo\<close> structures is a list. Memory is a script of the answers of
  the allocator with the number of blocks that are allocated and not freed; the DNS resolver,
  the services database and \<open>uname\<close> are parameters.
\<close>

subsection \<open>Constants and structures\<close>

definition AI_PASSIVE :: int where "AI_PASSIVE = 1"
definition AI_CANONNAME :: int where "AI_CANONNAME = 2"
definition AI_CLONE :: int where "AI_CLONE = 4"

definition EAI_ADDRFAMILY :: int where "EAI_ADDRFAMILY = 1"
definition EAI_AGAIN :: int where "EAI_AGAIN = 2"
definition EAI_BADFLAGS :: int where "EAI_BADFLAGS = 3"
definition EAI_FAIL :: int where "EAI_FAIL = 4"
definition EAI_FAMILY :: int where "EAI_FAMILY = 5"
definition EAI_MEMORY :: int where "EAI_MEMORY = 6"
definition EAI_NODATA :: int where "EAI_NODATA = 7"
definition EAI_NONAME :: int where "EAI_NONAME = 8"
definition EAI_SERVICE :: int where "EAI_SERVICE = 9"
definition EAI_SOCKTYPE :: int where "EAI_SOCKTYPE = 10"
definition EAI_SYSTEM :: int where "EAI_SYSTEM = 11"

lemmas AI_defs = AI_PASSIVE_def AI_CANONNAME_def AI_CLONE_def
lemmas EAI_defs = EAI_ADDRFAMILY_def EAI_AGAIN_def EAI_BADFLAGS_def EAI_FAIL_def EAI_FAMILY_def
  EAI_MEMORY_def EAI_NODATA_def EAI_NONAME_def EAI_SERVICE_def EAI_SOCKTYPE_def EAI_SYSTEM_def

record addrinfo =
  ai_flags :: int
  ai_family :: int
  ai_socktype :: int
  ai_protocol :: int
  ai_addrlen :: nat
  ai_canonname :: "string option"
  ai_addr :: "sockaddr option"

text \<open>The bits of \<open>ai_flags\<close>.\<close>

definition has_flag :: "int \<Rightarrow> int \<Rightarrow> bool" where
  "has_flag flags f = (flags AND f \<noteq> 0)"

text \<open>\<open>struct search\<close>: host and family.\<close>

type_synonym search = "string \<times> int"

record hostent =
  h_name :: string
  h_addrtype :: int
  h_addr_list :: "byte list list"

datatype h_errno = HOST_NOT_FOUND | TRY_AGAIN | NO_RECOVERY | NO_DATA | H_OTHER

text \<open>
  What the code calls outside the sources. The first argument of \<open>r_byname\<close> is the
  \<open>RES_USE_INET6\<close> option; service ports are in network byte order.
\<close>

record resolver =
  r_byname :: "bool \<Rightarrow> string \<Rightarrow> h_errno + hostent"
  r_byname2 :: "string \<Rightarrow> int \<Rightarrow> h_errno + hostent"
  r_byaddr :: "byte list \<Rightarrow> int \<Rightarrow> hostent option"
  r_servbyname :: "string \<Rightarrow> string \<Rightarrow> 16 word option"
  r_servbyport :: "16 word \<Rightarrow> string option \<Rightarrow> string option"
  r_uname :: "string option"

text \<open>
  The allocator: the answers it has still to give (\<open>False\<close> is NULL, an exhausted script
  succeeds), the number of live blocks, and the paths passed to \<open>unlink\<close>.
\<close>

record galloc =
  ga_script :: "bool list"
  ga_live :: int
  ga_unlinked :: "string list"

definition calloc :: "galloc \<Rightarrow> bool \<times> galloc" where
  "calloc h =
     (case ga_script h of
        [] \<Rightarrow> (True, h\<lparr>ga_live := ga_live h + 1\<rparr>)
      | b # bs \<Rightarrow> (b, h\<lparr>ga_script := bs, ga_live := ga_live h + (if b then 1 else 0)\<rparr>))"

subsection \<open>ga\_echeck\<close>

definition empty_name :: "string option \<Rightarrow> bool" where
  "empty_name s = (s = None \<or> s = Some [])"

definition bad_socktype :: "int \<Rightarrow> int list \<Rightarrow> bool" where
  "bad_socktype t ok = (t \<noteq> 0 \<and> t \<notin> set ok)"

definition ga_echeck :: "string option \<Rightarrow> string option \<Rightarrow> int \<Rightarrow> int \<Rightarrow> int \<Rightarrow> int \<Rightarrow> int" where
  "ga_echeck hostname servname flags family socktype protocol =
     (if flags AND NOT (AI_PASSIVE OR AI_CANONNAME) \<noteq> 0 then EAI_BADFLAGS
      else if empty_name hostname \<and> empty_name servname then EAI_NONAME
      else if family = AF_UNSPEC then 0
      else if family = AF_INET \<or> family = AF_INET6 then
        (if bad_socktype socktype [SOCK_STREAM, SOCK_DGRAM, SOCK_RAW] then EAI_SOCKTYPE else 0)
      else if family = AF_LOCAL then
        (if bad_socktype socktype [SOCK_STREAM, SOCK_DGRAM] then EAI_SOCKTYPE else 0)
      else EAI_FAMILY)"

subsection \<open>ga\_nsearch\<close>

definition ga_nsearch :: "string option \<Rightarrow> addrinfo \<Rightarrow> search list outcome" where
  "ga_nsearch hostname hints =
     (let f = ai_family hints;
          search =
            (if empty_name hostname then
               if has_flag (ai_flags hints) AI_PASSIVE then
                 (if f = AF_INET then [(''0.0.0.0'', AF_INET)]
                  else if f = AF_INET6 then [(''0::0'', AF_INET6)]
                  else if f = AF_UNSPEC then [(''0::0'', AF_INET6), (''0.0.0.0'', AF_INET)]
                  else [])
               else
                 (if f = AF_INET then [(''localhost'', AF_INET)]
                  else if f = AF_INET6 then [(''0::1'', AF_INET6)]
                  else if f = AF_UNSPEC then [(''0::1'', AF_INET6), (''localhost'', AF_INET)]
                  else [])
             else
               (if f = AF_INET then [(the hostname, AF_INET)]
                else if f = AF_INET6 then [(the hostname, AF_INET6)]
                else if f = AF_UNSPEC then [(the hostname, AF_INET6), (the hostname, AF_INET)]
                else []))
      in if length search < 1 \<or> length search > 2
         then Inl (Err_quit (''nsearch = '' @ print_dec (length search)))
         else Inr search)"

subsection \<open>ga\_aistruct and ga\_clone\<close>

text \<open>
  \<open>addr\<close> is the binary address, or the path for \<open>AF_LOCAL\<close>. The new structure is linked at
  the tail of the list before the address is allocated, so it is in the list on every error.
\<close>

definition new_ai :: "addrinfo \<Rightarrow> int \<Rightarrow> addrinfo" where
  "new_ai hints family =
     \<lparr>ai_flags = (if ai_socktype hints = 0 then AI_CLONE else 0), ai_family = family,
      ai_socktype = ai_socktype hints, ai_protocol = ai_protocol hints, ai_addrlen = 0,
      ai_canonname = None, ai_addr = None\<rparr>"

fun ga_aistruct ::
  "addrinfo \<Rightarrow> byte list + string \<Rightarrow> int \<Rightarrow> addrinfo list \<times> galloc \<Rightarrow> int \<times> addrinfo list \<times> galloc" where
  "ga_aistruct hints addr family (ais, h) =
     (case calloc h of
        (False, h) \<Rightarrow> (EAI_MEMORY, ais, h)
      | (True, h) \<Rightarrow>
          let ai = new_ai hints family in
          case addr of
            Inl a \<Rightarrow>
              if family = AF_INET then
                (case calloc h of
                   (False, h) \<Rightarrow> (EAI_MEMORY, ais @ [ai], h)
                 | (True, h) \<Rightarrow> (0, ais @ [ai\<lparr>ai_addr := Some (SIn \<lparr>sin_port = 0, sin_addr = take 4 a\<rparr>),
                     ai_addrlen := 16\<rparr>], h))
              else if family = AF_INET6 then
                (case calloc h of
                   (False, h) \<Rightarrow> (EAI_MEMORY, ais @ [ai], h)
                 | (True, h) \<Rightarrow> (0, ais @ [ai\<lparr>ai_addr := Some (SIn6 \<lparr>sin6_port = 0, sin6_addr = take 16 a\<rparr>),
                     ai_addrlen := 28\<rparr>], h))
              else (0, ais @ [ai], h)
          | Inr path \<Rightarrow>
              if length path \<ge> 108 then (EAI_SERVICE, ais @ [ai], h)
              else (case calloc h of
                   (False, h) \<Rightarrow> (EAI_MEMORY, ais @ [ai], h)
                 | (True, h) \<Rightarrow> (0, ais @ [ai\<lparr>ai_addr := Some (SUn path), ai_addrlen := 110\<rparr>],
                     if has_flag (ai_flags hints) AI_PASSIVE
                     then h\<lparr>ga_unlinked := ga_unlinked h @ [path]\<rparr> else h)))"

text \<open>
  The clone, to be linked right after its original; \<open>None\<close> in the first component is NULL, and
  the second one is what was linked.
\<close>

definition ga_clone :: "addrinfo \<Rightarrow> galloc \<Rightarrow> bool \<times> addrinfo list \<times> galloc" where
  "ga_clone ai h =
     (case calloc h of
        (False, h) \<Rightarrow> (False, [], h)
      | (True, h) \<Rightarrow>
          let new = ai\<lparr>ai_flags := 0, ai_canonname := None, ai_addr := None\<rparr> in
          case calloc h of
            (False, h) \<Rightarrow> (False, [new], h)
          | (True, h) \<Rightarrow> (True, [new\<lparr>ai_addr := ai_addr ai\<rparr>], h))"

subsection \<open>ga\_port and ga\_serv\<close>

definition set_ai_port :: "16 word \<Rightarrow> int \<Rightarrow> addrinfo \<Rightarrow> addrinfo" where
  "set_ai_port port socktype ai =
     (let ai = ai\<lparr>ai_socktype := socktype\<rparr> in
      if ai_family ai = AF_INET \<or> ai_family ai = AF_INET6
      then ai\<lparr>ai_addr := map_option (\<lambda>sa. sock_set_port sa (uint port)) (ai_addr ai)\<rparr> else ai)"

definition counts :: "addrinfo \<Rightarrow> int" where
  "counts ai = (if ai_family ai = AF_INET \<or> ai_family ai = AF_INET6 then 1 else 0)"

text \<open>The result is \<open>None\<close> for -1, or the number of entries whose port was set.\<close>

fun ga_port :: "addrinfo list \<Rightarrow> 16 word \<Rightarrow> int \<Rightarrow> galloc \<Rightarrow> int option \<times> addrinfo list \<times> galloc" where
  "ga_port [] port socktype h = (Some 0, [], h)"
| "ga_port (ai # rest) port socktype h =
     (if has_flag (ai_flags ai) AI_CLONE \<and> ai_socktype ai \<noteq> 0 then
        (case ga_clone ai h of
           (False, linked, h) \<Rightarrow> (None, ai # linked @ rest, h)
         | (True, linked, h) \<Rightarrow>
             let new = set_ai_port port socktype (hd linked) in
             case ga_port rest port socktype h of
               (n, rest', h) \<Rightarrow> (map_option (\<lambda>n. n + counts new) n, ai # new # rest', h))
      else if \<not> has_flag (ai_flags ai) AI_CLONE \<and> ai_socktype ai \<noteq> socktype then
        (case ga_port rest port socktype h of (n, rest', h) \<Rightarrow> (n, ai # rest', h))
      else
        (case ga_port rest port socktype h of
           (n, rest', h) \<Rightarrow>
             (map_option (\<lambda>n. n + counts ai) n, set_ai_port port socktype ai # rest', h)))"

text \<open>
  \<open>atoi\<close> on a string that starts with a digit: the C library reads the digits as a \<open>long\<close>,
  saturating, and truncates; only the low 16 bits matter to \<open>htons\<close>.
\<close>

definition atoi_digits :: "string \<Rightarrow> nat" where
  "atoi_digits s = min (num_of 10 (map (the \<circ> digit_val) (takeWhile isdigit s))) (2 ^ 63 - 1)"

text \<open>\<open>ga_serv\<close> calls \<open>ga_port\<close> for a list of socket types and ports in turn.\<close>

fun ga_ports ::
  "(int \<times> 16 word) list \<Rightarrow> addrinfo list \<Rightarrow> galloc \<Rightarrow> int option \<times> addrinfo list \<times> galloc" where
  "ga_ports [] ais h = (Some 0, ais, h)"
| "ga_ports ((t, p) # ts) ais h =
     (case ga_port ais p t h of
        (None, ais, h) \<Rightarrow> (None, ais, h)
      | (Some n, ais, h) \<Rightarrow>
          (case ga_ports ts ais h of (m, ais, h) \<Rightarrow> (map_option (\<lambda>m. n + m) m, ais, h)))"

definition serv_calls :: "resolver \<Rightarrow> int \<Rightarrow> string \<Rightarrow> (int \<times> 16 word) list" where
  "serv_calls r socktype serv =
     (if isdigit (hd serv) then
        let port = htons (of_nat (atoi_digits serv)) in
        if socktype \<noteq> 0 then [(socktype, port)]
        else [(SOCK_STREAM, port), (SOCK_DGRAM, port)]
      else
        (if socktype = 0 \<or> socktype = SOCK_STREAM
         then (case r_servbyname r serv ''tcp'' of Some p \<Rightarrow> [(SOCK_STREAM, p)] | None \<Rightarrow> []) else []) @
        (if socktype = 0 \<or> socktype = SOCK_DGRAM
         then (case r_servbyname r serv ''udp'' of Some p \<Rightarrow> [(SOCK_DGRAM, p)] | None \<Rightarrow> []) else []))"

definition ga_serv ::
  "resolver \<Rightarrow> addrinfo list \<Rightarrow> addrinfo \<Rightarrow> string \<Rightarrow> galloc \<Rightarrow> int \<times> addrinfo list \<times> galloc" where
  "ga_serv r ais hints serv h =
     (case ga_ports (serv_calls r (ai_socktype hints) serv) ais h of
        (None, ais, h) \<Rightarrow> (EAI_MEMORY, ais, h)
      | (Some nfound, ais, h) \<Rightarrow>
          (if nfound = 0 then (if ai_socktype hints = 0 then EAI_NONAME else EAI_SERVICE) else 0, ais, h))"

subsection \<open>freeaddrinfo\<close>

definition blocks :: "addrinfo \<Rightarrow> int" where
  "blocks ai = 1 + (if ai_addr ai = None then 0 else 1) + (if ai_canonname ai = None then 0 else 1)"

fun freeaddrinfo :: "addrinfo list \<Rightarrow> galloc \<Rightarrow> galloc" where
  "freeaddrinfo [] h = h"
| "freeaddrinfo (ai # ais) h = freeaddrinfo ais (h\<lparr>ga_live := ga_live h - blocks ai\<rparr>)"

subsection \<open>ga\_unix\<close>

fun set_canon :: "string \<Rightarrow> addrinfo list \<Rightarrow> addrinfo list" where
  "set_canon c [] = []"
| "set_canon c (ai # ais) = ai\<lparr>ai_canonname := Some c\<rparr> # ais"

text \<open>The error returns do not free what was allocated so far.\<close>

definition ga_unix ::
  "resolver \<Rightarrow> string \<Rightarrow> addrinfo \<Rightarrow> galloc \<Rightarrow> (int + addrinfo list) \<times> galloc" where
  "ga_unix r path hints h =
     (if ai_family hints \<noteq> AF_UNSPEC \<and> ai_family hints \<noteq> AF_LOCAL then (Inl EAI_ADDRFAMILY, h)
      else
        let (rc1, ais1, h1) =
              (if ai_socktype hints = 0
               then ga_aistruct (hints\<lparr>ai_socktype := SOCK_STREAM\<rparr>) (Inr path) AF_LOCAL ([], h)
               else (0, [], h));
            hints2 = (if ai_socktype hints = 0 then hints\<lparr>ai_socktype := SOCK_DGRAM\<rparr> else hints)
        in if rc1 \<noteq> 0 then (Inl rc1, h1)
           else case ga_aistruct hints2 (Inr path) AF_LOCAL (ais1, h1) of
             (rc2, ais2, h2) \<Rightarrow>
               if rc2 \<noteq> 0 then (Inl rc2, h2)
               else if has_flag (ai_flags hints) AI_CANONNAME then
                 (case r_uname r of
                    None \<Rightarrow> (Inl EAI_SYSTEM, h2)
                  | Some nodename \<Rightarrow>
                      (case calloc h2 of
                         (False, h3) \<Rightarrow> (Inl EAI_MEMORY, h3)
                       | (True, h3) \<Rightarrow> (Inr (set_canon nodename ais2), h3)))
               else (Inr ais2, h2))"

subsection \<open>getaddrinfo\<close>

text \<open>One structure per address of the host entry.\<close>

fun ga_addrs ::
  "addrinfo \<Rightarrow> int \<Rightarrow> byte list list \<Rightarrow> addrinfo list \<times> galloc \<Rightarrow> int \<times> addrinfo list \<times> galloc" where
  "ga_addrs hints family [] (ais, h) = (0, ais, h)"
| "ga_addrs hints family (a # as) (ais, h) =
     (case ga_aistruct hints (Inl a) family (ais, h) of
        (rc, ais, h) \<Rightarrow> if rc \<noteq> 0 then (rc, ais, h) else ga_addrs hints family as (ais, h))"

definition herr :: "h_errno \<Rightarrow> int" where
  "herr e = (case e of HOST_NOT_FOUND \<Rightarrow> EAI_NONAME | TRY_AGAIN \<Rightarrow> EAI_AGAIN
     | NO_RECOVERY \<Rightarrow> EAI_FAIL | NO_DATA \<Rightarrow> EAI_NODATA | H_OTHER \<Rightarrow> EAI_NONAME)"

text \<open>The variables of the search loop.\<close>

record gaistate =
  gs_ais :: "addrinfo list"
  gs_canon :: "string option"
  gs_heap :: galloc

text \<open>
  The numeric part of the loop body: \<open>None\<close> when the string is not a numeric address of either
  family, otherwise the error code (0 for \<open>continue\<close>) and the new state.
\<close>

definition add_struct :: "addrinfo \<Rightarrow> byte list \<Rightarrow> int \<Rightarrow> gaistate \<Rightarrow> int \<times> gaistate" where
  "add_struct hints a family s =
     (case ga_aistruct hints (Inl a) family (gs_ais s, gs_heap s) of
        (rc, ais, h) \<Rightarrow> (rc, s\<lparr>gs_ais := ais, gs_heap := h\<rparr>))"

definition numeric_as ::
  "addrinfo \<Rightarrow> search \<Rightarrow> byte list \<Rightarrow> int \<Rightarrow> gaistate \<Rightarrow> int \<times> gaistate" where
  "numeric_as hints sptr a family s =
     (if ai_family hints \<noteq> AF_UNSPEC \<and> ai_family hints \<noteq> family then (EAI_ADDRFAMILY, s)
      else if snd sptr \<noteq> family then (0, s)
      else add_struct hints a family s)"

definition numeric_host :: "addrinfo \<Rightarrow> search \<Rightarrow> gaistate \<Rightarrow> (int \<times> gaistate) option" where
  "numeric_host hints sptr s =
     (let host = fst sptr; c = (if host = [] then CHR 0x00 else hd host) in
      case (if isdigit c then inet_pton AF_INET host else Invalid) of
        Valid a \<Rightarrow> Some (numeric_as hints sptr a AF_INET s)
      | _ \<Rightarrow>
          (case (if (isxdigit c \<or> c = CHR '':'') \<and> strchr host CHR '':'' \<noteq> None
                 then inet_pton AF_INET6 host else Invalid) of
             Valid a \<Rightarrow> Some (numeric_as hints sptr a AF_INET6 s)
           | _ \<Rightarrow> None))"

text \<open>The canonical name is duplicated the first time; \<open>False\<close> when there is no memory for it.\<close>

definition save_canon :: "string option \<Rightarrow> addrinfo \<Rightarrow> string \<Rightarrow> gaistate \<Rightarrow> bool \<times> gaistate" where
  "save_canon hostname hints name s =
     (if \<not> empty_name hostname \<and> has_flag (ai_flags hints) AI_CANONNAME \<and> gs_canon s = None
      then (case calloc (gs_heap s) of
         (False, h) \<Rightarrow> (False, s\<lparr>gs_heap := h\<rparr>)
       | (True, h) \<Rightarrow> (True, s\<lparr>gs_canon := Some name, gs_heap := h\<rparr>))
      else (True, s))"

definition lookup_host ::
  "resolver \<Rightarrow> nat \<Rightarrow> string option \<Rightarrow> addrinfo \<Rightarrow> search \<Rightarrow> gaistate \<Rightarrow> int \<times> gaistate" where
  "lookup_host r nsearch hostname hints sptr s =
     (case (if nsearch = 2 then r_byname2 r (fst sptr) (snd sptr)
            else r_byname r (snd sptr = AF_INET6) (fst sptr)) of
        Inl e \<Rightarrow> (if nsearch = 2 then 0 else herr e, s)
      | Inr hptr \<Rightarrow>
          if ai_family hints \<noteq> AF_UNSPEC \<and> ai_family hints \<noteq> h_addrtype hptr then (EAI_ADDRFAMILY, s)
          else
            let (ok, s1) = save_canon hostname hints (h_name hptr) s
            in if \<not> ok then (EAI_MEMORY, s1)
               else (case ga_addrs hints (h_addrtype hptr) (h_addr_list hptr) (gs_ais s1, gs_heap s1) of
                  (rc, ais, h) \<Rightarrow> (rc, s1\<lparr>gs_ais := ais, gs_heap := h\<rparr>)))"

fun ga_search ::
  "resolver \<Rightarrow> nat \<Rightarrow> string option \<Rightarrow> addrinfo \<Rightarrow> search list \<Rightarrow> gaistate \<Rightarrow> int \<times> gaistate" where
  "ga_search r nsearch hostname hints [] s = (0, s)"
| "ga_search r nsearch hostname hints (sptr # sptrs) s =
     (case (case numeric_host hints sptr s of
              Some res \<Rightarrow> res
            | None \<Rightarrow> lookup_host r nsearch hostname hints sptr s) of
        (rc, s1) \<Rightarrow>
          if rc \<noteq> 0 then (rc, s1) else ga_search r nsearch hostname hints sptrs s1)"

text \<open>The label \<open>bad\<close>: what hangs from \<open>aihead\<close> is freed.\<close>

definition bad :: "int \<Rightarrow> gaistate \<Rightarrow> (int + addrinfo list) \<times> galloc" where
  "bad e s = (Inl e, freeaddrinfo (gs_ais s) (gs_heap s))"

definition attach_canon :: "string option \<Rightarrow> addrinfo \<Rightarrow> search list \<Rightarrow> gaistate \<Rightarrow> bool \<times> gaistate" where
  "attach_canon hostname hints search s =
     (if \<not> empty_name hostname \<and> has_flag (ai_flags hints) AI_CANONNAME then
        (case gs_canon s of
           Some c \<Rightarrow> (True, s\<lparr>gs_ais := set_canon c (gs_ais s)\<rparr>)
         | None \<Rightarrow>
             (case calloc (gs_heap s) of
                (False, h) \<Rightarrow> (False, s\<lparr>gs_heap := h\<rparr>)
              | (True, h) \<Rightarrow> (True, s\<lparr>gs_ais := set_canon (fst (hd search)) (gs_ais s), gs_heap := h\<rparr>)))
      else (True, s))"

definition ga_finish ::
  "resolver \<Rightarrow> string option \<Rightarrow> string option \<Rightarrow> addrinfo \<Rightarrow> search list \<Rightarrow> gaistate \<Rightarrow>
   (int + addrinfo list) \<times> galloc" where
  "ga_finish r hostname servname hints search s =
     (if gs_ais s = [] then bad EAI_NONAME s
      else
        let (ok, s1) = attach_canon hostname hints search s
        in if \<not> ok then bad EAI_MEMORY s1
           else if empty_name servname then (Inr (gs_ais s1), gs_heap s1)
           else (case ga_serv r (gs_ais s1) hints (the servname) (gs_heap s1) of
               (rc, ais, h) \<Rightarrow>
                 if rc \<noteq> 0 then bad rc (s1\<lparr>gs_ais := ais, gs_heap := h\<rparr>) else (Inr ais, h)))"

definition getaddrinfo ::
  "resolver \<Rightarrow> string option \<Rightarrow> string option \<Rightarrow> addrinfo option \<Rightarrow> galloc \<Rightarrow>
   ((int + addrinfo list) \<times> galloc) outcome" where
  "getaddrinfo r hostname servname hintsp h =
     (let hints = (case hintsp of Some x \<Rightarrow> x | None \<Rightarrow>
            \<lparr>ai_flags = 0, ai_family = AF_UNSPEC, ai_socktype = 0, ai_protocol = 0, ai_addrlen = 0,
             ai_canonname = None, ai_addr = None\<rparr>);
          rc = ga_echeck hostname servname (ai_flags hints) (ai_family hints) (ai_socktype hints)
            (ai_protocol hints);
          s0 = \<lparr>gs_ais = [], gs_canon = None, gs_heap = h\<rparr>
      in if rc \<noteq> 0 then Inr (bad rc s0)
         else if (hostname = Some ''/local'' \<or> hostname = Some ''/unix'') \<and>
                 servname \<noteq> None \<and> take 1 (the servname) = ''/'' then
           Inr (ga_unix r (the servname) hints h)
         else case ga_nsearch hostname hints of
           Inl q \<Rightarrow> Inl q
         | Inr search \<Rightarrow>
             (case ga_search r (length search) hostname hints search s0 of
                (rc, s) \<Rightarrow>
                  if rc \<noteq> 0 then Inr (bad rc s)
                  else Inr (ga_finish r hostname servname hints search s)))"

subsection \<open>getnameinfo\<close>

definition NI_NOFQDN :: int where "NI_NOFQDN = 1"
definition NI_NUMERICHOST :: int where "NI_NUMERICHOST = 2"
definition NI_NAMEREQD :: int where "NI_NAMEREQD = 4"
definition NI_NUMERICSERV :: int where "NI_NUMERICSERV = 8"
definition NI_DGRAM :: int where "NI_DGRAM = 16"

lemmas NI_defs = NI_NOFQDN_def NI_NUMERICHOST_def NI_NAMEREQD_def NI_NUMERICSERV_def NI_DGRAM_def

text \<open>
  The result is the return code with what was stored in the two arrays; \<open>None\<close> is an array that
  was not written.
\<close>

definition gn_host ::
  "resolver \<Rightarrow> nat \<Rightarrow> byte list \<Rightarrow> int \<Rightarrow> int \<Rightarrow> string option option" where
  "gn_host r hostlen a family flags =
     (let numeric = (case inet_ntop family a hostlen of Inl e \<Rightarrow> None | Inr s \<Rightarrow> Some (Some s)) in
      if hostlen = 0 then Some None
      else if has_flag flags NI_NUMERICHOST then numeric
      else case r_byaddr r a family of
        Some hptr \<Rightarrow>
          let name = h_name hptr;
              name = (if has_flag flags NI_NOFQDN
                      then (case strchr name CHR ''.'' of Some i \<Rightarrow> take i name | None \<Rightarrow> name)
                      else name)
          in Some (Some (snprintf_buf hostlen name))
      | None \<Rightarrow> if has_flag flags NI_NAMEREQD then None else numeric)"

definition gn_serv :: "resolver \<Rightarrow> nat \<Rightarrow> 16 word \<Rightarrow> int \<Rightarrow> string option" where
  "gn_serv r servlen port flags =
     (let numeric = snprintf_buf servlen (print_dec (unat (htons port))) in
      if servlen = 0 then None
      else if has_flag flags NI_NUMERICSERV then Some numeric
      else case r_servbyport r port (if has_flag flags NI_DGRAM then Some ''udp'' else None) of
        Some name \<Rightarrow> Some (snprintf_buf servlen name)
      | None \<Rightarrow> Some numeric)"

definition gn_ipv46 ::
  "resolver \<Rightarrow> nat \<Rightarrow> nat \<Rightarrow> byte list \<Rightarrow> int \<Rightarrow> 16 word \<Rightarrow> int \<Rightarrow> int \<times> string option \<times> string option" where
  "gn_ipv46 r hostlen servlen a family port flags =
     (case gn_host r hostlen a family flags of
        None \<Rightarrow> (1, None, None)
      | Some host \<Rightarrow> (0, host, gn_serv r servlen port flags))"

definition getnameinfo ::
  "resolver \<Rightarrow> sockaddr \<Rightarrow> nat \<Rightarrow> nat \<Rightarrow> int \<Rightarrow> int \<times> string option \<times> string option" where
  "getnameinfo r sa hostlen servlen flags =
     (case sa of
        SIn s \<Rightarrow> gn_ipv46 r hostlen servlen (sin_addr s) AF_INET (sin_port s) flags
      | SIn6 s \<Rightarrow> gn_ipv46 r hostlen servlen (sin6_addr s) AF_INET6 (sin6_port s) flags
      | SUn sun_path \<Rightarrow>
          (0, if hostlen > 0 then Some (snprintf_buf hostlen ''/local'') else None,
           if servlen > 0 then Some (snprintf_buf servlen sun_path) else None)
      | SOther f \<Rightarrow> (1, None, None))"

definition gai_strerror :: "int \<Rightarrow> string" where
  "gai_strerror err =
     (if err = EAI_ADDRFAMILY then ''address family for host not supported''
      else if err = EAI_AGAIN then ''temporary failure in name resolution''
      else if err = EAI_BADFLAGS then ''invalid flags value''
      else if err = EAI_FAIL then ''non-recoverable failure in name resolution''
      else if err = EAI_FAMILY then ''address family not supported''
      else if err = EAI_MEMORY then ''memory allocation failure''
      else if err = EAI_NODATA then ''no address associated with host''
      else if err = EAI_NONAME then ''host nor service provided, or not known''
      else if err = EAI_SERVICE then ''service not supported for socket type''
      else if err = EAI_SOCKTYPE then ''socket type not supported''
      else if err = EAI_SYSTEM then ''system error''
      else ''unknown getaddrinfo() error'')"

subsection \<open>Cloning over the socket types\<close>

definition inet_family :: "int \<Rightarrow> bool" where
  "inet_family f = (f = AF_INET \<or> f = AF_INET6)"

definition clone_of :: "addrinfo \<Rightarrow> addrinfo" where
  "clone_of ai = ai\<lparr>ai_flags := 0, ai_canonname := None\<rparr>"

lemma calloc_ok [simp]: "ga_script h = [] \<Longrightarrow> calloc h = (True, h\<lparr>ga_live := ga_live h + 1\<rparr>)"
  by (simp add: calloc_def)

lemma counts_inet [simp]: "inet_family (ai_family ai) \<Longrightarrow> counts ai = 1"
  by (auto simp: counts_def inet_family_def)

lemma set_ai_port_sel [simp]:
  "ai_family (set_ai_port p t ai) = ai_family ai" "ai_flags (set_ai_port p t ai) = ai_flags ai"
  "ai_socktype (set_ai_port p t ai) = t" "ai_canonname (set_ai_port p t ai) = ai_canonname ai"
  by (auto simp: set_ai_port_def Let_def)

lemma clone_of_sel [simp]:
  "ai_family (clone_of ai) = ai_family ai" "ai_flags (clone_of ai) = 0"
  "ai_socktype (clone_of ai) = ai_socktype ai" "ai_addr (clone_of ai) = ai_addr ai"
  by (simp_all add: clone_of_def)

lemma ga_port_fresh:
  assumes "\<forall>ai \<in> set ais. has_flag (ai_flags ai) AI_CLONE \<and> ai_socktype ai = 0 \<and> inet_family (ai_family ai)"
  shows "ga_port ais p t h = (Some (int (length ais)), map (set_ai_port p t) ais, h)"
  using assms by (induction ais) auto

lemma ga_port_match:
  assumes "\<forall>ai \<in> set ais. \<not> has_flag (ai_flags ai) AI_CLONE \<and> ai_socktype ai = t \<and> inet_family (ai_family ai)"
  shows "ga_port ais p t h = (Some (int (length ais)), map (set_ai_port p t) ais, h)"
  using assms by (induction ais) auto

lemma ga_port_clones:
  assumes "\<forall>ai \<in> set ais. has_flag (ai_flags ai) AI_CLONE \<and> ai_socktype ai \<noteq> 0 \<and> inet_family (ai_family ai)"
    and "ga_script h = []"
  shows "ga_port ais p t h = (Some (int (length ais)),
    concat (map (\<lambda>ai. [ai, set_ai_port p t (clone_of ai)]) ais),
    h\<lparr>ga_live := ga_live h + 2 * int (length ais)\<rparr>)"
  using assms
proof (induction ais arbitrary: h)
  case (Cons ai ais)
  have c: "ga_clone ai h = (True, [clone_of ai], h\<lparr>ga_live := ga_live h + 2\<rparr>)"
    using Cons.prems(2) by (simp add: ga_clone_def clone_of_def Let_def)
  show ?case
    using Cons.IH [of "h\<lparr>ga_live := ga_live h + 2\<rparr>"] Cons.prems
    by (simp add: c algebra_simps)
qed simp

text \<open>The two structures that one address of a host becomes when no socket type was asked for.\<close>

definition both_types :: "16 word \<Rightarrow> addrinfo \<Rightarrow> addrinfo list" where
  "both_types p ai =
     [set_ai_port p SOCK_STREAM ai, set_ai_port p SOCK_DGRAM (clone_of (set_ai_port p SOCK_STREAM ai))]"

lemma ga_serv_both:
  assumes "\<forall>ai \<in> set ais. has_flag (ai_flags ai) AI_CLONE \<and> ai_socktype ai = 0 \<and> inet_family (ai_family ai)"
    and "ais \<noteq> []" and "ga_script h = []" and "ai_socktype hints = 0" and "isdigit (hd serv)"
  shows "ga_serv r ais hints serv h =
    (0, concat (map (both_types (htons (of_nat (atoi_digits serv)))) ais),
     h\<lparr>ga_live := ga_live h + 2 * int (length ais)\<rparr>)"
proof -
  let ?p = "htons (of_nat (atoi_digits serv))"
  have "\<forall>ai \<in> set (map (set_ai_port ?p SOCK_STREAM) ais). has_flag (ai_flags ai) AI_CLONE \<and>
      ai_socktype ai \<noteq> 0 \<and> inet_family (ai_family ai)"
    using assms(1) by (auto simp: SOCK_defs)
  from ga_port_clones [OF this assms(3)] ga_port_fresh [OF assms(1)] show ?thesis
    using assms(2,4,5) by (simp add: ga_serv_def serv_calls_def both_types_def [abs_def] Let_def comp_def)
qed

lemma ga_serv_typed:
  assumes "\<forall>ai \<in> set ais. \<not> has_flag (ai_flags ai) AI_CLONE \<and> ai_socktype ai = ai_socktype hints \<and>
      inet_family (ai_family ai)"
    and "ais \<noteq> []" and "ai_socktype hints \<noteq> 0" and "isdigit (hd serv)"
  shows "ga_serv r ais hints serv h =
    (0, map (set_ai_port (htons (of_nat (atoi_digits serv))) (ai_socktype hints)) ais, h)"
  using assms ga_port_match [OF assms(1)] by (simp add: ga_serv_def serv_calls_def Let_def)

subsection \<open>Numeric hosts\<close>

lemma pton4_loop_chars: "pton4_loop s saw n tmp = Some bs \<Longrightarrow> c \<in> set s \<Longrightarrow> isdigit c \<or> c = CHR ''.''"
  by (induction s saw n tmp rule: pton4_loop.induct)
    (auto simp: isdigit_def Let_def split: option.splits if_splits)

lemma inet_pton4_no_colon: "inet_pton4 s = Some bs \<Longrightarrow> CHR '':'' \<notin> set s"
proof
  assume "inet_pton4 s = Some bs" and "CHR '':'' \<in> set s"
  then have "isdigit CHR '':''" using pton4_loop_chars unfolding inet_pton4_def by fastforce
  then show False by (simp add: isdigit_def digit_val_def)
qed

lemma inet_pton4_first: "inet_pton4 s = Some bs \<Longrightarrow> s \<noteq> [] \<and> isdigit (hd s)"
  by (cases s) (auto simp: inet_pton4_def isdigit_def split: option.splits if_splits)

lemma pton6_loop_no_colon:
  assumes "pton6_loop s cur st = Some st'" and "CHR '':'' \<notin> set s"
  shows "p_colonp st' = p_colonp st \<and> p_tp st' \<le> p_tp st + 4"
  using assms
  by (induction s cur st rule: pton6_loop.induct)
    (fastforce simp: Let_def store32_def split: option.splits if_splits)+

lemma inet_pton6_colon:
  assumes "inet_pton6 s = Some a"
  shows "CHR '':'' \<in> set s"
proof (rule ccontr)
  assume n: "CHR '':'' \<notin> set s"
  then have "take 1 s \<noteq> '':''" by (cases s) auto
  then obtain st where st: "pton6_loop s s pton6_init = Some st" "pton6_finish st = Some a"
    using assms by (auto simp: inet_pton6_def Let_def bind_eq_Some_conv)
  with pton6_loop_no_colon [OF st(1) n] show False
    by (auto simp: pton6_init_def pton6_finish_def store16_def Let_def split: if_splits)
qed

lemma inet_pton6_first: "inet_pton6 s = Some a \<Longrightarrow> s \<noteq> [] \<and> (isxdigit (hd s) \<or> hd s = CHR '':'')"
proof (cases s)
  case Nil
  assume "inet_pton6 s = Some a"
  with Nil inet_pton6_colon show ?thesis by fastforce
next
  case (Cons c rest)
  assume a: "inet_pton6 s = Some a"
  show ?thesis
  proof (rule ccontr)
    assume "\<not> ?thesis"
    then have n: "xdigit_val c = None" "c \<noteq> CHR '':''" using Cons by (auto simp: isxdigit_def)
    with a Cons obtain q where "c = CHR ''.''" "inet_pton4 s = Some q"
      by (auto simp: inet_pton6_def Let_def bind_eq_Some_conv split: option.splits if_splits)
    with inet_pton4_first [of s q] Cons show False by (auto simp: isdigit_def)
  qed
qed

lemma numeric_host_v4:
  assumes "inet_pton4 host = Some a"
  shows "numeric_host hints (host, f) s = Some (numeric_as hints (host, f) a AF_INET s)"
  using assms inet_pton4_first [OF assms] by (simp add: numeric_host_def inet_pton_def Let_def)

lemma numeric_host_v6:
  assumes "inet_pton6 host = Some a"
  shows "numeric_host hints (host, f) s = Some (numeric_as hints (host, f) a AF_INET6 s)"
proof -
  have c: "CHR '':'' \<in> set host" using inet_pton6_colon [OF assms] .
  then have "inet_pton4 host = None" using inet_pton4_no_colon by fastforce
  with c assms inet_pton6_first [OF assms] show ?thesis
    by (auto simp: numeric_host_def inet_pton_def Let_def AF_defs)
qed

text \<open>The structure made for one numeric address.\<close>

definition endpoint :: "addrinfo \<Rightarrow> sockaddr \<Rightarrow> addrinfo" where
  "endpoint hints sa = (new_ai hints (sa_family sa))\<lparr>ai_addr := Some sa,
     ai_addrlen := (case sa of SIn _ \<Rightarrow> 16 | SIn6 _ \<Rightarrow> 28 | _ \<Rightarrow> 110)\<rparr>"

definition bare :: "int \<Rightarrow> byte list \<Rightarrow> sockaddr" where
  "bare f a = (if f = AF_INET then SIn \<lparr>sin_port = 0, sin_addr = a\<rparr> else SIn6 \<lparr>sin6_port = 0, sin6_addr = a\<rparr>)"

lemma add_struct_ok:
  assumes "ga_script (gs_heap s) = []" and "inet_family f" and "length a = (if f = AF_INET then 4 else 16)"
  shows "add_struct hints a f s = (0, s\<lparr>gs_ais := gs_ais s @ [endpoint hints (bare f a)],
    gs_heap := (gs_heap s)\<lparr>ga_live := ga_live (gs_heap s) + 2\<rparr>\<rparr>)"
  using assms
  by (auto simp: add_struct_def endpoint_def bare_def inet_family_def AF_defs Let_def)

text \<open>
  Whatever the search list for the family asked for, a numeric host of family \<open>f\<close> yields
  exactly one structure.
\<close>

lemma ga_search_numeric:
  assumes num: "\<And>g s. numeric_host hints (host, g) s = Some (numeric_as hints (host, g) a f s)"
    and fam: "ai_family hints = AF_UNSPEC \<or> ai_family hints = f"
    and ok: "ga_script h = []" "inet_family f" "length a = (if f = AF_INET then 4 else 16)" "host \<noteq> []"
  shows "\<exists>search. ga_nsearch (Some host) hints = Inr search \<and> fst (hd search) = host \<and>
    ga_search r (length search) (Some host) hints search \<lparr>gs_ais = [], gs_canon = None, gs_heap = h\<rparr> =
      (0, \<lparr>gs_ais = [endpoint hints (bare f a)], gs_canon = None, gs_heap = h\<lparr>ga_live := ga_live h + 2\<rparr>\<rparr>)"
proof -
  have st: "add_struct hints a f \<lparr>gs_ais = [], gs_canon = None, gs_heap = h\<rparr> =
     (0, \<lparr>gs_ais = [endpoint hints (bare f a)], gs_canon = None, gs_heap = h\<lparr>ga_live := ga_live h + 2\<rparr>\<rparr>)"
    using add_struct_ok [of "\<lparr>gs_ais = [], gs_canon = None, gs_heap = h\<rparr>" f a hints] ok by simp
  show ?thesis
    using fam ok(2,4) st
    by (auto simp: ga_nsearch_def empty_name_def inet_family_def num numeric_as_def AF_defs)
qed

lemma isdigit_hd_print_dec: "isdigit (hd (print_dec n))"
  using digits_print_dec(1,2) [of n] by (cases "print_dec n") auto

lemma atoi_print_dec: "n < 2 ^ 63 \<Longrightarrow> atoi_digits (print_dec n) = n"
proof -
  assume n: "n < 2 ^ 63"
  have tw: "takeWhile isdigit (print_dec n) = print_dec n"
    using digits_print_dec(1) [of n] by (simp add: list_all_iff takeWhile_eq_all_conv)
  have num: "num_of 10 (map (the \<circ> digit_val) (print_dec n)) = n"
    using digits_print_dec(3) [of n] by (simp add: dec_val_def)
  have "atoi_digits (print_dec n) = min n (2 ^ 63 - 1)" unfolding atoi_digits_def tw num ..
  then show ?thesis using n by simp
qed

lemma port_word: "of_nat (atoi_digits (print_dec (unat (p::16 word)))) = p"
proof -
  have "unat p < 2 ^ 63" by (rule order.strict_trans2 [OF unsigned_less]) simp
  then show ?thesis by (simp add: atoi_print_dec)
qed

subsection \<open>Memory accounting\<close>

definition held :: "addrinfo list \<Rightarrow> int" where
  "held ais = sum_list (map blocks ais)"

lemma held_simps [simp]:
  "held [] = 0" "held (ai # ais) = blocks ai + held ais" "held (xs @ ys) = held xs + held ys"
  by (simp_all add: held_def)

lemma freeaddrinfo_live: "freeaddrinfo ais h = h\<lparr>ga_live := ga_live h - held ais\<rparr>"
  by (induction ais arbitrary: h) simp_all

lemma callocE:
  assumes "calloc h = (b, h')"
  obtains "b" "ga_live h' = ga_live h + 1" | "\<not> b" "ga_live h' = ga_live h"
  using assms by (cases b) (auto simp: calloc_def split: list.splits)

lemma blocks_new_ai [simp]: "blocks (new_ai hints f) = 1"
  by (simp add: blocks_def new_ai_def)

lemma blocks_with_addr [simp]:
  "blocks (ai\<lparr>ai_addr := Some sa, ai_addrlen := n\<rparr>) = 2 + (if ai_canonname ai = None then 0 else 1)"
  by (simp add: blocks_def)

lemma new_ai_canon [simp]: "ai_canonname (new_ai hints f) = None" "ai_addr (new_ai hints f) = None"
  by (simp_all add: new_ai_def)

definition addressed :: "addrinfo list \<Rightarrow> bool" where
  "addressed ais = (\<forall>ai \<in> set ais. ai_addr ai \<noteq> None)"

lemma addressed_simps [simp]:
  "addressed []" "addressed (ai # ais) \<longleftrightarrow> ai_addr ai \<noteq> None \<and> addressed ais"
  "addressed (xs @ ys) \<longleftrightarrow> addressed xs \<and> addressed ys"
  by (auto simp: addressed_def)

text \<open>Every block that is allocated hangs from the list, whether the call succeeds or not.\<close>

lemma ga_aistruct_balance:
  assumes "ga_aistruct hints (Inl a) f (ais, h) = (rc, ais', h')" and "inet_family f"
  shows "ga_live h' - held ais' = ga_live h - held ais \<and>
    (rc = 0 \<and> addressed ais \<longrightarrow> addressed ais')"
proof -
  have "f = AF_INET \<or> f = AF_INET6 \<and> f \<noteq> AF_INET" using assms(2) by (auto simp: inet_family_def AF_defs)
  then show ?thesis
    using assms(1)
    by (auto simp: Let_def EAI_defs split: prod.splits bool.splits if_splits elim!: callocE)
qed

lemma ga_addrs_balance:
  assumes "ga_addrs hints f as (ais, h) = (rc, ais', h')" and "inet_family f"
  shows "ga_live h' - held ais' = ga_live h - held ais \<and>
    (rc = 0 \<and> addressed ais \<longrightarrow> addressed ais')"
  using assms
proof (induction as arbitrary: ais h)
  case (Cons a as)
  obtain rc1 ais1 h1 where st: "ga_aistruct hints (Inl a) f (ais, h) = (rc1, ais1, h1)"
    by (metis prod_cases3)
  note b = ga_aistruct_balance [OF st Cons.prems(2)]
  show ?case
  proof (cases "rc1 = 0")
    case True
    with Cons.prems(1) st have "ga_addrs hints f as (ais1, h1) = (rc, ais', h')"
      by (simp del: ga_aistruct.simps)
    from Cons.IH [OF this Cons.prems(2)] b True show ?thesis by auto
  next
    case False
    with Cons.prems(1) st b show ?thesis by (simp del: ga_aistruct.simps)
  qed
qed simp

lemma ga_clone_balance:
  assumes "ga_clone ai h = (ok, linked, h')" and "ai_addr ai \<noteq> None"
  shows "ga_live h' = ga_live h + held linked" "ok \<Longrightarrow> \<exists>new. linked = [new] \<and> ai_addr new \<noteq> None"
  using assms
  by (auto simp: ga_clone_def Let_def blocks_def split: prod.splits bool.splits elim!: callocE)

lemma blocks_set_ai_port [simp]: "blocks (set_ai_port p t ai) = blocks ai"
  by (auto simp: blocks_def set_ai_port_def Let_def)

lemma addr_set_ai_port [simp]: "ai_addr (set_ai_port p t ai) = None \<longleftrightarrow> ai_addr ai = None"
  by (auto simp: set_ai_port_def Let_def)

lemma ga_port_balance:
  assumes "ga_port ais p t h = (n, ais', h')" and "addressed ais"
  shows "ga_live h' - held ais' = ga_live h - held ais \<and> (n \<noteq> None \<longrightarrow> addressed ais')"
  using assms
proof (induction ais arbitrary: h n ais' h')
  case (Cons ai rest)
  obtain ok linked h1 where c: "ga_clone ai h = (ok, linked, h1)" by (metis prod_cases3)
  obtain n2 rest2 h2 where r: "ga_port rest p t h1 = (n2, rest2, h2)" by (metis prod_cases3)
  obtain n3 rest3 h3 where r': "ga_port rest p t h = (n3, rest3, h3)" by (metis prod_cases3)
  have a: "ai_addr ai \<noteq> None" "addressed rest" using Cons.prems(2) by auto
  show ?case
  proof (cases "has_flag (ai_flags ai) AI_CLONE \<and> ai_socktype ai \<noteq> 0")
    case True
    note cl = ga_clone_balance [OF c a(1)]
    show ?thesis
    proof (cases ok)
      case ok: True
      from cl(2) [OF ok] obtain new where new: "linked = [new]" "ai_addr new \<noteq> None" by blast
      with Cons.IH [OF r] show ?thesis
        using True c r ok cl(1) a Cons.prems(1) by (auto simp: Let_def)
    next
      case False
      with True c cl(1) a Cons.prems(1) show ?thesis by auto
    qed
  next
    case False
    with Cons.IH [OF r'] r' a Cons.prems(1) show ?thesis
      by (auto simp: Let_def split: if_splits)
  qed
qed simp

lemma ga_ports_balance:
  assumes "ga_ports ts ais h = (n, ais', h')" and "addressed ais"
  shows "ga_live h' - held ais' = ga_live h - held ais"
  using assms
proof (induction ts arbitrary: ais h n ais' h')
  case (Cons tp ts)
  obtain t p where tp: "tp = (t, p)" by fastforce
  obtain n1 ais1 h1 where g: "ga_port ais p t h = (n1, ais1, h1)" by (metis prod_cases3)
  note b = ga_port_balance [OF g Cons.prems(2)]
  show ?case
  proof (cases n1)
    case None
    with g b Cons.prems(1) tp show ?thesis by simp
  next
    case (Some k)
    obtain m ais2 h2 where m: "ga_ports ts ais1 h1 = (m, ais2, h2)" by (metis prod_cases3)
    from b Some have "addressed ais1" by simp
    from Cons.IH [OF m this] m g b Some tp Cons.prems(1) show ?thesis by simp
  qed
qed simp

lemma ga_serv_balance:
  assumes "ga_serv r ais hints serv h = (rc, ais', h')" and "addressed ais"
  shows "ga_live h' - held ais' = ga_live h - held ais"
proof -
  obtain n ais2 h2 where m: "ga_ports (serv_calls r (ai_socktype hints) serv) ais h = (n, ais2, h2)"
    by (metis prod_cases3)
  with assms ga_ports_balance [OF m] show ?thesis
    by (auto simp: ga_serv_def split: option.splits)
qed

text \<open>
  The search loop: \<open>k\<close> blocks were live before, the rest hangs from the list or is the
  canonical name.
\<close>

definition accounted :: "int \<Rightarrow> gaistate \<Rightarrow> bool" where
  "accounted k s \<longleftrightarrow>
     ga_live (gs_heap s) = k + held (gs_ais s) + (if gs_canon s = None then 0 else 1)"

definition resolver_ok :: "resolver \<Rightarrow> bool" where
  "resolver_ok r \<longleftrightarrow>
     (\<forall>b n e. r_byname r b n = Inr e \<longrightarrow> inet_family (h_addrtype e)) \<and>
     (\<forall>n f e. r_byname2 r n f = Inr e \<longrightarrow> inet_family (h_addrtype e))"

lemma add_struct_accounted:
  assumes "add_struct hints a f s = (rc, s')" and "inet_family f" and "accounted k s" and "addressed (gs_ais s)"
  shows "accounted k s' \<and> (rc = 0 \<longrightarrow> addressed (gs_ais s')) \<and> gs_canon s' = gs_canon s"
proof -
  obtain rc1 ais1 h1 where st: "ga_aistruct hints (Inl a) f (gs_ais s, gs_heap s) = (rc1, ais1, h1)"
    by (metis prod_cases3)
  with assms ga_aistruct_balance [OF st assms(2)] show ?thesis
    by (auto simp: add_struct_def accounted_def simp del: ga_aistruct.simps)
qed

lemma numeric_host_accounted:
  assumes "numeric_host hints sptr s = Some (rc, s')" and "accounted k s" and "addressed (gs_ais s)"
  shows "accounted k s' \<and> (rc = 0 \<longrightarrow> addressed (gs_ais s')) \<and> gs_canon s' = gs_canon s"
proof -
  obtain a f where "numeric_as hints sptr a f s = (rc, s')" and "inet_family f"
    using assms(1)
    by (auto simp: numeric_host_def Let_def inet_family_def split: pton_result.splits if_splits)
  then show ?thesis
    using assms(2,3) add_struct_accounted [of hints a f s rc s' k]
    by (auto simp: numeric_as_def split: if_splits)
qed

lemma lookup_host_accounted:
  assumes "lookup_host r n hostname hints sptr s = (rc, s')" and "resolver_ok r"
    and "accounted k s" and "addressed (gs_ais s)"
  shows "accounted k s' \<and> (rc = 0 \<longrightarrow> addressed (gs_ais s')) \<and>
    (empty_name hostname \<or> \<not> has_flag (ai_flags hints) AI_CANONNAME \<longrightarrow> gs_canon s' = gs_canon s)"
proof -
  let ?ans = "if n = 2 then r_byname2 r (fst sptr) (snd sptr) else r_byname r (snd sptr = AF_INET6) (fst sptr)"
  show ?thesis
  proof (cases ?ans)
    case (Inl e)
    with assms show ?thesis by (auto simp: lookup_host_def split: if_splits)
  next
    case (Inr hptr)
    then have fam: "inet_family (h_addrtype hptr)"
      using assms(2) by (auto simp: resolver_ok_def split: if_splits)
    obtain ok s1 where w: "save_canon hostname hints (h_name hptr) s = (ok, s1)" by fastforce
    have s1: "accounted k s1" "gs_ais s1 = gs_ais s"
        "empty_name hostname \<or> \<not> has_flag (ai_flags hints) AI_CANONNAME \<Longrightarrow> gs_canon s1 = gs_canon s"
      using w assms(3)
      by (auto simp: save_canon_def accounted_def split: if_splits prod.splits bool.splits elim!: callocE)
    obtain rc2 ais2 h2 where ad: "ga_addrs hints (h_addrtype hptr) (h_addr_list hptr) (gs_ais s1, gs_heap s1)
        = (rc2, ais2, h2)" by (metis prod_cases3)
    have "lookup_host r n hostname hints sptr s =
      (if ai_family hints \<noteq> AF_UNSPEC \<and> ai_family hints \<noteq> h_addrtype hptr then (EAI_ADDRFAMILY, s)
       else if \<not> ok then (EAI_MEMORY, s1) else (rc2, s1\<lparr>gs_ais := ais2, gs_heap := h2\<rparr>))"
      unfolding lookup_host_def Inr by (simp add: w ad)
    then show ?thesis
      using assms s1 ga_addrs_balance [OF ad fam]
      by (auto simp: accounted_def EAI_defs split: if_splits)
  qed
qed

lemma ga_search_accounted:
  assumes "ga_search r n hostname hints sptrs s = (rc, s')" and "resolver_ok r"
    and "accounted k s" and "addressed (gs_ais s)"
  shows "accounted k s' \<and> (rc = 0 \<longrightarrow> addressed (gs_ais s')) \<and>
    (empty_name hostname \<or> \<not> has_flag (ai_flags hints) AI_CANONNAME \<longrightarrow> gs_canon s' = gs_canon s)"
  using assms
proof (induction sptrs arbitrary: s)
  case (Cons sptr sptrs)
  obtain rc1 s1 where st: "(case numeric_host hints sptr s of Some res \<Rightarrow> res
      | None \<Rightarrow> lookup_host r n hostname hints sptr s) = (rc1, s1)" by fastforce
  then have s1: "accounted k s1" "rc1 = 0 \<Longrightarrow> addressed (gs_ais s1)"
      "empty_name hostname \<or> \<not> has_flag (ai_flags hints) AI_CANONNAME \<Longrightarrow> gs_canon s1 = gs_canon s"
    using numeric_host_accounted [of hints sptr s rc1 s1 k]
      lookup_host_accounted [of r n hostname hints sptr s rc1 s1 k] Cons.prems
    by (auto split: option.splits)
  show ?case
  proof (cases "rc1 = 0")
    case True
    with Cons.prems(1) st have "ga_search r n hostname hints sptrs s1 = (rc, s')" by simp
    from Cons.IH [OF this Cons.prems(2) s1(1) s1(2) [OF True]] s1(3) show ?thesis by auto
  next
    case False
    with Cons.prems(1) st s1 show ?thesis by simp
  qed
qed simp

definition nocanon :: "addrinfo list \<Rightarrow> bool" where
  "nocanon ais = (\<forall>ai \<in> set ais. ai_canonname ai = None)"

lemma held_set_canon:
  "ais \<noteq> [] \<Longrightarrow> nocanon ais \<Longrightarrow> held (set_canon c ais) = held ais + 1"
  by (cases ais) (auto simp: nocanon_def blocks_def)

lemma addressed_set_canon [simp]: "addressed (set_canon c ais) = addressed ais"
  by (cases ais) auto

text \<open>The structures of the search loop have no canonical name yet.\<close>

lemma ga_aistruct_nocanon:
  "ga_aistruct hints (Inl a) f (ais, h) = (rc, ais', h') \<Longrightarrow> nocanon ais \<Longrightarrow> nocanon ais'"
  by (auto simp: nocanon_def Let_def split: prod.splits bool.splits if_splits)

lemma ga_addrs_nocanon:
  "ga_addrs hints f as (ais, h) = (rc, ais', h') \<Longrightarrow> nocanon ais \<Longrightarrow> nocanon ais'"
proof (induction as arbitrary: ais h)
  case (Cons a as)
  obtain rc1 ais1 h1 where st: "ga_aistruct hints (Inl a) f (ais, h) = (rc1, ais1, h1)"
    by (metis prod_cases3)
  from ga_aistruct_nocanon [OF st Cons.prems(2)] Cons.IH [of ais1 h1] Cons.prems(1) st show ?case
    by (auto simp del: ga_aistruct.simps split: if_splits)
qed simp

lemma ga_search_nocanon:
  assumes "ga_search r n hostname hints sptrs s = (rc, s')" and "nocanon (gs_ais s)"
  shows "nocanon (gs_ais s')"
  using assms
proof (induction sptrs arbitrary: s)
  case (Cons sptr sptrs)
  obtain rc1 s1 where st: "(case numeric_host hints sptr s of Some res \<Rightarrow> res
      | None \<Rightarrow> lookup_host r n hostname hints sptr s) = (rc1, s1)" by fastforce
  have one: "add_struct hints a f s = (c, t) \<Longrightarrow> nocanon (gs_ais t)" for a f c t
    using Cons.prems(2) ga_aistruct_nocanon [of hints a f "gs_ais s" "gs_heap s"]
    by (auto simp: add_struct_def simp del: ga_aistruct.simps split: prod.splits)
  have two: "save_canon hostname hints nm s = (ok, t) \<Longrightarrow> gs_ais t = gs_ais s" for nm ok t
    by (auto simp: save_canon_def split: if_splits prod.splits bool.splits)
  have "nocanon (gs_ais s1)"
  proof (cases "numeric_host hints sptr s")
    case None
    with st Cons.prems(2) show ?thesis
      by (auto simp: lookup_host_def split: sum.splits if_splits prod.splits dest!: two ga_addrs_nocanon)
  next
    case (Some res)
    with st Cons.prems(2) one show ?thesis
      by (auto simp: numeric_host_def numeric_as_def Let_def split: pton_result.splits if_splits)
  qed
  with Cons.IH [of s1] Cons.prems(1) st show ?case by (auto split: if_splits)
qed simp

lemma ga_finish_live:
  assumes "ga_finish r hostname servname hints search s = (res, h')"
    and "accounted k s" and "addressed (gs_ais s)" and "nocanon (gs_ais s)"
    and canon: "gs_canon s \<noteq> None \<longrightarrow> \<not> empty_name hostname \<and> has_flag (ai_flags hints) AI_CANONNAME"
  shows "case res of Inr ais \<Rightarrow> ga_live h' = k + held ais
    | Inl e \<Rightarrow> ga_live h' = k + (if gs_ais s = [] \<and> gs_canon s \<noteq> None then 1 else 0)"
proof (cases "gs_ais s = []")
  case True
  with assms show ?thesis by (auto simp: ga_finish_def bad_def accounted_def freeaddrinfo_live)
next
  case False
  obtain ok s1 where a: "attach_canon hostname hints search s = (ok, s1)" by fastforce
  have s1: "ga_live (gs_heap s1) = k + held (gs_ais s1)" "addressed (gs_ais s1)"
    using a assms(2-4) canon False held_set_canon [OF False assms(4)]
    by (auto simp: attach_canon_def accounted_def split: if_splits option.splits prod.splits bool.splits
        elim!: callocE)
  obtain rc ais h where sv: "ga_serv r (gs_ais s1) hints (the servname) (gs_heap s1) = (rc, ais, h)"
    by (metis prod_cases3)
  from ga_serv_balance [OF sv s1(2)] s1(1) show ?thesis
    using assms(1) False a sv
    by (auto simp: ga_finish_def bad_def freeaddrinfo_live split: if_splits)
qed

lemma getaddrinfo_live:
  assumes "resolver_ok r" and "getaddrinfo r hostname servname (Some hints) h = Inr (res, h')"
    and "hostname \<noteq> Some ''/local''" and "hostname \<noteq> Some ''/unix''"
  shows "case res of Inr ais \<Rightarrow> ga_live h' = ga_live h + held ais
    | Inl e \<Rightarrow> ga_live h' = ga_live h \<or>
        ga_live h' = ga_live h + 1 \<and> has_flag (ai_flags hints) AI_CANONNAME"
proof -
  let ?s0 = "\<lparr>gs_ais = [], gs_canon = None, gs_heap = h\<rparr>"
  have s0: "accounted (ga_live h) ?s0" "addressed (gs_ais ?s0)" "nocanon (gs_ais ?s0)"
    by (simp_all add: accounted_def nocanon_def)
  let ?rc = "ga_echeck hostname servname (ai_flags hints) (ai_family hints) (ai_socktype hints) (ai_protocol hints)"
  show ?thesis
  proof (cases "?rc = 0")
    case False
    with assms(2) show ?thesis by (auto simp: getaddrinfo_def bad_def Let_def)
  next
    case True
    obtain search where se: "ga_nsearch hostname hints = Inr search"
      using assms(2-4) True by (cases "ga_nsearch hostname hints") (auto simp: getaddrinfo_def Let_def)
    obtain rc s where gs: "ga_search r (length search) hostname hints search ?s0 = (rc, s)" by fastforce
    note acc = ga_search_accounted [OF gs assms(1) s0(1,2)] and nc = ga_search_nocanon [OF gs s0(3)]
    have canon: "gs_canon s \<noteq> None \<longrightarrow> \<not> empty_name hostname \<and> has_flag (ai_flags hints) AI_CANONNAME"
      using acc by auto
    have e: "(if rc \<noteq> 0 then bad rc s else ga_finish r hostname servname hints search s) = (res, h')"
      using assms(2-4) True se gs by (auto simp: getaddrinfo_def Let_def split: if_splits)
    show ?thesis
    proof (cases "rc = 0")
      case rc: True
      with e have f: "ga_finish r hostname servname hints search s = (res, h')" by simp
      have "addressed (gs_ais s)" using acc rc by simp
      from ga_finish_live [OF f conjunct1 [OF acc] this nc canon] canon show ?thesis
        by (cases res) (simp_all split: if_splits)
    next
      case False
      with e have "res = Inl rc" "ga_live h' = ga_live (gs_heap s) - held (gs_ais s)"
        by (auto simp: bad_def freeaddrinfo_live)
      moreover have "ga_live (gs_heap s) - held (gs_ais s) = ga_live h + (if gs_canon s = None then 0 else 1)"
        using conjunct1 [OF acc] by (simp add: accounted_def)
      ultimately show ?thesis using canon by (cases "gs_canon s") simp_all
    qed
  qed
qed

lemma text_not_path:
  assumes "inet_pton4 s = Some a \<or> inet_pton6 s = Some a"
  shows "s \<noteq> ''/local''" "s \<noteq> ''/unix''" "s \<noteq> []"
  using assms inet_pton4_first [of s a] inet_pton6_first [of s a]
  by (auto simp: isdigit_def digit_val_def isxdigit_def xdigit_val_def)

lemma sock_ntop_host_numeric:
  assumes "sockaddr_ok sa" and "inet_family (sa_family sa)"
  obtains s a where "sock_ntop_host sa salen str = (Some 0, s)" "bare (sa_family sa) a = sock_set_port sa 0"
    "length a = (if sa_family sa = AF_INET then 4 else 16)"
    "sa_family sa = AF_INET \<and> inet_pton4 s = Some a \<or> sa_family sa = AF_INET6 \<and> inet_pton6 s = Some a"
proof (cases sa)
  case (SIn x)
  then have l: "length (sin_addr x) = 4" using assms(1) by simp
  obtain s where "inet_ntop4 (sin_addr x) 128 = Inr s" "inet_pton4 s = Some (sin_addr x)"
    using v4.ntop_total [OF l, of 128] by auto
  then show ?thesis
    using that [of s "sin_addr x"] SIn l
    by (simp add: sock_ntop_host_def inet_ntop_def bare_def sock_set_port_def)
next
  case (SIn6 x)
  then have l: "length (sin6_addr x) = 16" using assms(1) by simp
  obtain s where "inet_ntop6 (sin6_addr x) 128 = Inr s" "inet_pton6 s = Some (sin6_addr x)"
    using v6.ntop_total [OF l, of 128] by auto
  then show ?thesis
    using that [of s "sin6_addr x"] SIn6 l
    by (simp add: sock_ntop_host_def inet_ntop_def bare_def sock_set_port_def AF_defs)
qed (use assms in \<open>auto simp: inet_family_def AF_defs\<close>)

lemma sock_set_port_twice [simp]: "sock_set_port (sock_set_port sa p) q = sock_set_port sa q"
  by (cases sa) (simp_all add: sock_set_port_def)

lemma sa_family_set_port [simp]: "sa_family (sock_set_port sa p) = sa_family sa"
  by (cases sa) (simp_all add: sock_set_port_def)

lemma endpoint_sel [simp]:
  "ai_family (endpoint hints sa) = sa_family sa" "ai_socktype (endpoint hints sa) = ai_socktype hints"
  "ai_addr (endpoint hints sa) = Some sa"
  "ai_flags (endpoint hints sa) = (if ai_socktype hints = 0 then AI_CLONE else 0)"
  by (simp_all add: endpoint_def new_ai_def)

lemma ai_addr_set_port: "inet_family (ai_family ai) \<Longrightarrow>
  ai_addr (set_ai_port p t ai) = map_option (\<lambda>sa. sock_set_port sa (uint p)) (ai_addr ai)"
  by (auto simp: set_ai_port_def inet_family_def)

lemma getaddrinfo_numeric_steps:
  assumes num: "f = AF_INET \<and> inet_pton4 host = Some a \<or> f = AF_INET6 \<and> inet_pton6 host = Some a"
    and len: "length a = (if f = AF_INET then 4 else 16)"
    and hints: "ai_flags hints = 0" "ai_family hints = AF_UNSPEC \<or> ai_family hints = f"
      "ai_socktype hints \<in> {0, SOCK_STREAM, SOCK_DGRAM, SOCK_RAW}"
    and h: "ga_script h = []"
  shows "getaddrinfo r (Some host) (Some (print_dec n)) (Some hints) h =
    Inr (case ga_serv r [endpoint hints (bare f a)] hints (print_dec n) (h\<lparr>ga_live := ga_live h + 2\<rparr>) of
      (rc, ais, h') \<Rightarrow> if rc \<noteq> 0 then (Inl rc, freeaddrinfo ais h') else (Inr ais, h'))"
proof -
  have f: "inet_family f" using num by (auto simp: inet_family_def)
  note path = text_not_path [of host a]
  have numh: "numeric_host hints (host, g) s = Some (numeric_as hints (host, g) a f s)" for g s
    using num numeric_host_v4 numeric_host_v6 by blast
  obtain search where se: "ga_nsearch (Some host) hints = Inr search" "fst (hd search) = host"
    "ga_search r (length search) (Some host) hints search \<lparr>gs_ais = [], gs_canon = None, gs_heap = h\<rparr> =
      (0, \<lparr>gs_ais = [endpoint hints (bare f a)], gs_canon = None, gs_heap = h\<lparr>ga_live := ga_live h + 2\<rparr>\<rparr>)"
    using ga_search_numeric [OF numh hints(2) h f len] num path(3) by blast
  have ec: "ga_echeck (Some host) (Some (print_dec n)) 0 (ai_family hints) (ai_socktype hints) (ai_protocol hints) = 0"
    using hints(2,3) f num path(3) by (auto simp: ga_echeck_def empty_name_def bad_socktype_def inet_family_def)
  show ?thesis
    using hints(1) se ec path num digits_print_dec(2) [of n]
    by (auto simp: getaddrinfo_def Let_def ga_finish_def attach_canon_def has_flag_def empty_name_def
        bad_def split: prod.splits)
qed

lemma ga_nsearch_quits:
  "ga_nsearch hostname hints = Inl q \<longleftrightarrow>
     ai_family hints \<notin> {AF_UNSPEC, AF_INET, AF_INET6} \<and> q = Err_quit (''nsearch = '' @ print_dec 0)"
  by (auto simp: ga_nsearch_def Let_def AF_defs)

lemma ga_echeck_family:
  "ga_echeck hostname servname flags f t pr = 0 \<Longrightarrow> f \<in> {AF_UNSPEC, AF_INET, AF_INET6, AF_LOCAL}"
  by (auto simp: ga_echeck_def EAI_defs split: if_splits)

text \<open>A numeric host and a decimal port, as \<open>sock_ntop_host\<close> and \<open>%d\<close> print them.\<close>

lemma getaddrinfo_reads_numeric:
  assumes "sockaddr_ok sa" and "sa_family sa \<in> {AF_INET, AF_INET6}" and "ga_script h = []"
    and "ai_flags hints = 0" and "ai_family hints \<in> {AF_UNSPEC, sa_family sa}"
    and "ai_socktype hints \<in> {0, SOCK_STREAM, SOCK_DGRAM, SOCK_RAW}"
  shows "\<exists>p s ais h'. sock_ntop_host sa salen str = (Some p, s) \<and>
    getaddrinfo r (Some (drop p s)) (Some (print_dec (unat port))) (Some hints) h = Inr (Inr ais, h') \<and>
    map (\<lambda>ai. (ai_family ai, ai_socktype ai, ai_addr ai)) ais =
      map (\<lambda>t. (sa_family sa, t, Some (sock_set_port sa (uint (htons port)))))
        (if ai_socktype hints = 0 then [SOCK_STREAM, SOCK_DGRAM] else [ai_socktype hints])"
proof -
  let ?f = "sa_family sa"
  have f: "inet_family ?f" using assms(2) by (simp add: inet_family_def)
  obtain s a where s: "sock_ntop_host sa salen str = (Some 0, s)" "bare ?f a = sock_set_port sa 0"
    "length a = (if ?f = AF_INET then 4 else 16)"
    "?f = AF_INET \<and> inet_pton4 s = Some a \<or> ?f = AF_INET6 \<and> inet_pton6 s = Some a"
    by (rule sock_ntop_host_numeric [OF assms(1) f])
  let ?h = "h\<lparr>ga_live := ga_live h + 2\<rparr>" and ?e = "endpoint hints (bare ?f a)"
  have e: "ai_family ?e = ?f" by (simp add: s(2))
  have "getaddrinfo r (Some s) (Some (print_dec (unat port))) (Some hints) h =
    Inr (case ga_serv r [?e] hints (print_dec (unat port)) ?h of
      (rc, ais, h') \<Rightarrow> if rc \<noteq> 0 then (Inl rc, freeaddrinfo ais h') else (Inr ais, h'))"
    using getaddrinfo_numeric_steps [OF s(4,3) assms(4) _ assms(6,3)] assms(5) by simp
  moreover have "\<exists>ais h'. ga_serv r [?e] hints (print_dec (unat port)) ?h = (0, ais, h') \<and>
    map (\<lambda>ai. (ai_family ai, ai_socktype ai, ai_addr ai)) ais =
      map (\<lambda>t. (?f, t, Some (sock_set_port sa (uint (htons port)))))
        (if ai_socktype hints = 0 then [SOCK_STREAM, SOCK_DGRAM] else [ai_socktype hints])"
  proof (cases "ai_socktype hints = 0")
    case True
    then show ?thesis
      using ga_serv_both [of "[?e]" ?h hints "print_dec (unat port)" r] f e assms(3) s(2)
      by (auto simp: has_flag_def AI_defs isdigit_hd_print_dec port_word both_types_def ai_addr_set_port)
  next
    case False
    then show ?thesis
      using ga_serv_typed [of "[?e]" hints "print_dec (unat port)" r ?h] f e s(2)
      by (simp add: has_flag_def isdigit_hd_print_dec port_word ai_addr_set_port)
  qed
  ultimately show ?thesis using s(1) by auto
qed

subsection \<open>Properties\<close>

text \<open>
  \<open>getaddrinfo\<close> reads back what \<open>sock_ntop_host\<close> prints: for the text of any IPv4 or IPv6
  address and a decimal port, with no flags, a compatible family and any valid socket type, it
  consults no resolver and returns the address with that port, once for the socket type asked
  for, or for \<open>SOCK_STREAM\<close> and then \<open>SOCK_DGRAM\<close> when none was.
\<close>

theorem getaddrinfo_numeric:
  assumes "sockaddr_ok sa" and "sa_family sa \<in> {AF_INET, AF_INET6}" and "ga_script h = []"
    and "ai_flags hints = 0" and "ai_family hints \<in> {AF_UNSPEC, sa_family sa}"
    and "ai_socktype hints \<in> {0, SOCK_STREAM, SOCK_DGRAM, SOCK_RAW}"
  shows "\<exists>p s ais h'. sock_ntop_host sa salen str = (Some p, s) \<and>
    getaddrinfo r (Some (drop p s)) (Some (print_dec (unat port))) (Some hints) h = Inr (Inr ais, h') \<and>
    map (\<lambda>ai. (ai_family ai, ai_socktype ai, ai_addr ai)) ais =
      map (\<lambda>t. (sa_family sa, t, Some (sock_set_port sa (uint (htons port)))))
        (if ai_socktype hints = 0 then [SOCK_STREAM, SOCK_DGRAM] else [ai_socktype hints])"
  by (rule getaddrinfo_reads_numeric [OF assms])

definition no_resolver :: resolver where
  "no_resolver = \<lparr>r_byname = \<lambda>b n. Inl HOST_NOT_FOUND, r_byname2 = \<lambda>n f. Inl HOST_NOT_FOUND,
     r_byaddr = \<lambda>a f. None, r_servbyname = \<lambda>s p. None, r_servbyport = \<lambda>p s. None, r_uname = None\<rparr>"

definition plain_hints :: addrinfo where
  "plain_hints = \<lparr>ai_flags = 0, ai_family = AF_UNSPEC, ai_socktype = 0, ai_protocol = 0,
     ai_addrlen = 0, ai_canonname = None, ai_addr = None\<rparr>"

theorem getaddrinfo_numeric_witness:
  "\<exists>p s ais h'. sock_ntop_host (SIn \<lparr>sin_port = 0, sin_addr = [127, 0, 0, 1]\<rparr>) 16 [] = (Some p, s) \<and>
    getaddrinfo no_resolver (Some (drop p s)) (Some (print_dec (unat (9877 :: 16 word)))) (Some plain_hints)
      \<lparr>ga_script = [], ga_live = 0, ga_unlinked = []\<rparr> = Inr (Inr ais, h') \<and>
    map (\<lambda>ai. (ai_family ai, ai_socktype ai, ai_addr ai)) ais =
      map (\<lambda>t. (AF_INET, t, Some (sock_set_port (SIn \<lparr>sin_port = 0, sin_addr = [127, 0, 0, 1]\<rparr>)
        (uint (htons 9877))))) [SOCK_STREAM, SOCK_DGRAM]"
  using getaddrinfo_numeric [of "SIn \<lparr>sin_port = 0, sin_addr = [127, 0, 0, 1]\<rparr>"
      "\<lparr>ga_script = [], ga_live = 0, ga_unlinked = []\<rparr>" plain_hints 16 "[]" no_resolver 9877]
  by (simp add: plain_hints_def)

text \<open>
  The comment of \<open>ga_port\<close> holds for any number of addresses: when no socket type was
  asked for and the service is numeric, \<open>ga_serv\<close> turns the structures of \<open>n\<close> addresses into
  \<open>2 * n\<close>, each address with \<open>SOCK_STREAM\<close> followed by the same address with \<open>SOCK_DGRAM\<close>, all
  with the port.
\<close>

theorem ga_serv_cross_product:
  assumes "\<forall>ai \<in> set ais. has_flag (ai_flags ai) AI_CLONE \<and> ai_socktype ai = 0 \<and>
      ai_family ai \<in> {AF_INET, AF_INET6}"
    and "ais \<noteq> []" and "ga_script h = []" and "ai_socktype hints = 0" and "isdigit (hd serv)"
  shows "\<exists>ais' h'. ga_serv r ais hints serv h = (0, ais', h') \<and> ga_live h' = ga_live h + 2 * int (length ais) \<and>
    map (\<lambda>ai. (ai_family ai, ai_socktype ai, ai_addr ai)) ais' =
      concat (map (\<lambda>ai. map (\<lambda>t. (ai_family ai, t,
        map_option (\<lambda>sa. sock_set_port sa (uint (htons (of_nat (atoi_digits serv)) :: 16 word))) (ai_addr ai)))
          [SOCK_STREAM, SOCK_DGRAM]) ais)"
proof -
  have fam: "\<forall>ai \<in> set ais. has_flag (ai_flags ai) AI_CLONE \<and> ai_socktype ai = 0 \<and> inet_family (ai_family ai)"
    using assms(1) by (auto simp: inet_family_def)
  have "map (\<lambda>ai. (ai_family ai, ai_socktype ai, ai_addr ai)) (concat (map (both_types p) ais)) =
      concat (map (\<lambda>ai. map (\<lambda>t. (ai_family ai, t, map_option (\<lambda>sa. sock_set_port sa (uint p)) (ai_addr ai)))
          [SOCK_STREAM, SOCK_DGRAM]) ais)" for p
    using fam by (induction ais) (auto simp: both_types_def ai_addr_set_port option.map_comp comp_def)
  with ga_serv_both [OF fam assms(2-5), of r] show ?thesis by simp
qed

theorem ga_serv_cross_product_witness:
  "\<exists>ais' h'. ga_serv no_resolver [endpoint plain_hints (SIn \<lparr>sin_port = 0, sin_addr = [1, 2, 3, 4]\<rparr>)]
      plain_hints ''13'' \<lparr>ga_script = [], ga_live = 2, ga_unlinked = []\<rparr> = (0, ais', h') \<and> ga_live h' = 4"
  using ga_serv_cross_product [of "[endpoint plain_hints (SIn \<lparr>sin_port = 0, sin_addr = [1, 2, 3, 4]\<rparr>)]"
      "\<lparr>ga_script = [], ga_live = 2, ga_unlinked = []\<rparr>" plain_hints "''13''" no_resolver]
  by (auto simp: plain_hints_def has_flag_def AI_defs isdigit_def digit_val_def)


definition one_host :: resolver where
  "one_host = no_resolver\<lparr>r_byname := \<lambda>b n. Inr \<lparr>h_name = ''h'', h_addrtype = AF_INET, h_addr_list = [[1, 2, 3, 4]]\<rparr>\<rparr>"


text \<open>
  \<open>getaddrinfo\<close> ends the process (\<open>err_quit\<close> in \<open>ga_nsearch\<close>) exactly for arguments that
  pass \<open>ga_echeck\<close> with the family \<open>AF_LOCAL\<close> and are not of the form that \<open>ga_unix\<close> handles; for
  every other argument it returns to its caller.
\<close>

theorem getaddrinfo_quits:
  "(\<exists>q. getaddrinfo r hostname servname (Some hints) h = Inl q) \<longleftrightarrow>
     ga_echeck hostname servname (ai_flags hints) (ai_family hints) (ai_socktype hints) (ai_protocol hints) = 0 \<and>
     ai_family hints = AF_LOCAL \<and>
     \<not> ((hostname = Some ''/local'' \<or> hostname = Some ''/unix'') \<and>
        servname \<noteq> None \<and> take 1 (the servname) = ''/'')"
proof -
  let ?rc = "ga_echeck hostname servname (ai_flags hints) (ai_family hints) (ai_socktype hints) (ai_protocol hints)"
  have "?rc = 0 \<Longrightarrow> (\<exists>q. ga_nsearch hostname hints = Inl q) \<longleftrightarrow> ai_family hints = AF_LOCAL"
    using ga_echeck_family [of hostname servname "ai_flags hints" "ai_family hints"]
    by (fastforce simp: ga_nsearch_quits AF_defs)
  then show ?thesis
    by (auto simp: getaddrinfo_def Let_def split: sum.splits prod.splits)
qed

end
