(* ===== verification/Conn_Setup.thy ===== *)
theory Conn_Setup
  imports Getaddrinfo
begin

text \<open>
  Setting up sockets from names: \<open>lib/tcp_connect.c\<close>, \<open>lib/tcp_listen.c\<close>, \<open>lib/udp_client.c\<close>,
  \<open>lib/udp_connect.c\<close>, \<open>lib/udp_server.c\<close> and \<open>lib/host_serv.c\<close>. Each asks \<open>getaddrinfo\<close> for a
  list and tries its structures in turn.

  The kernel is a parameter. What \<open>socket\<close>, \<open>connect\<close> and \<open>bind\<close> answer may depend on the number
  of the attempt as well as on their arguments; the open descriptors are part of the state.
  \<open>getaddrinfo\<close> is a parameter too: the C library's in this build, that of \<open>libgai\<close> elsewhere.
\<close>

record kernel =
  k_socket :: "nat \<Rightarrow> int \<Rightarrow> int \<Rightarrow> int \<Rightarrow> int"
  k_connect :: "nat \<Rightarrow> int \<Rightarrow> sockaddr option \<Rightarrow> bool"
  k_bind :: "nat \<Rightarrow> int \<Rightarrow> sockaddr option \<Rightarrow> bool"
  k_setsockopt :: "int \<Rightarrow> bool"
  k_close :: "int \<Rightarrow> bool"
  k_listen :: "int \<Rightarrow> int \<Rightarrow> bool"

type_synonym gai = "string option \<Rightarrow> string option \<Rightarrow> addrinfo \<Rightarrow> int + addrinfo list"

text \<open>\<open>Close\<close>, \<open>Setsockopt\<close> and \<open>Listen\<close> end the process on an error.\<close>

definition Close :: "kernel \<Rightarrow> int \<Rightarrow> int list \<Rightarrow> int list outcome" where
  "Close k fd fds = (if k_close k fd then Inr (remove1 fd fds) else Inl (Err_sys ''close error''))"

definition Setsockopt :: "kernel \<Rightarrow> int \<Rightarrow> unit outcome" where
  "Setsockopt k fd = (if k_setsockopt k fd then Inr () else Inl (Err_sys ''setsockopt error''))"

definition LISTENQ :: int where "LISTENQ = 1024"

text \<open>
  \<open>listenq\<close> is what \<open>atoi\<close> reads in the environment variable \<open>LISTENQ\<close>, when there is one.
\<close>

definition Listen :: "kernel \<Rightarrow> int option \<Rightarrow> int \<Rightarrow> int \<Rightarrow> unit outcome" where
  "Listen k listenq fd backlog =
     (let backlog = (case listenq of Some q \<Rightarrow> q | None \<Rightarrow> backlog) in
      if k_listen k fd backlog then Inr () else Inl (Err_sys ''listen error''))"

subsection \<open>The loop over the structures\<close>

text \<open>
  The \<open>do ... while\<close> loop that the five functions share. \<open>attempt i ai fd\<close> is what is done with
  the new socket (\<open>Inr False\<close>: it did not work), \<open>i\<close> numbers the attempts and \<open>fds\<close> are the
  open descriptors. The result is \<open>None\<close> when \<open>res\<close> became NULL.
\<close>

fun try_each ::
  "kernel \<Rightarrow> (nat \<Rightarrow> addrinfo \<Rightarrow> int \<Rightarrow> bool outcome) \<Rightarrow> nat \<Rightarrow> addrinfo list \<Rightarrow> int list \<Rightarrow>
   ((int \<times> addrinfo) option \<times> int list) outcome" where
  "try_each k attempt i [] fds = Inr (None, fds)"
| "try_each k attempt i (res # ress) fds =
     (let sockfd = k_socket k i (ai_family res) (ai_socktype res) (ai_protocol res) in
      if sockfd < 0 then try_each k attempt (Suc i) ress fds
      else case attempt i res sockfd of
        Inl e \<Rightarrow> Inl e
      | Inr True \<Rightarrow> Inr (Some (sockfd, res), sockfd # fds)
      | Inr False \<Rightarrow>
          (case Close k sockfd (sockfd # fds) of
             Inl e \<Rightarrow> Inl e
           | Inr fds \<Rightarrow> try_each k attempt (Suc i) ress fds))"

definition blank_hints :: "int \<Rightarrow> int \<Rightarrow> int \<Rightarrow> addrinfo" where
  "blank_hints flags family socktype =
     \<lparr>ai_flags = flags, ai_family = family, ai_socktype = socktype, ai_protocol = 0, ai_addrlen = 0,
      ai_canonname = None, ai_addr = None\<rparr>"

text \<open>\<open>"... error for %s, %s: %s"\<close> and \<open>"... error for %s, %s"\<close>; a NULL is printed as the C library does.\<close>

definition show_name :: "string option \<Rightarrow> string" where
  "show_name s = (case s of Some x \<Rightarrow> x | None \<Rightarrow> ''(null)'')"

definition error_for :: "string \<Rightarrow> string option \<Rightarrow> string option \<Rightarrow> string" where
  "error_for who host serv = who @ '' error for '' @ show_name host @ '', '' @ show_name serv"

text \<open>
  \<open>getaddrinfo\<close>, the loop and the test for NULL after it. The loop's body runs before its test:
  an empty list would be dereferenced.
\<close>

definition open_first ::
  "kernel \<Rightarrow> gai \<Rightarrow> string \<Rightarrow> addrinfo \<Rightarrow> (nat \<Rightarrow> addrinfo \<Rightarrow> int \<Rightarrow> bool outcome) \<Rightarrow>
   string option \<Rightarrow> string option \<Rightarrow> int list \<Rightarrow> (int \<times> addrinfo \<times> int list) outcome" where
  "open_first k gai who hints attempt host serv fds =
     (case gai host serv hints of
        Inl n \<Rightarrow> Inl (Err_quit (error_for who host serv @ '': '' @ gai_strerror n))
      | Inr [] \<Rightarrow> Inl (Undefined Null_deref)
      | Inr ress \<Rightarrow>
          (case try_each k attempt 0 ress fds of
             Inl e \<Rightarrow> Inl e
           | Inr (None, _) \<Rightarrow> Inl (Err_sys (error_for who host serv))
           | Inr (Some (sockfd, res), fds) \<Rightarrow> Inr (sockfd, res, fds)))"

subsection \<open>The functions\<close>

definition connect_attempt :: "kernel \<Rightarrow> nat \<Rightarrow> addrinfo \<Rightarrow> int \<Rightarrow> bool outcome" where
  "connect_attempt k i res sockfd = Inr (k_connect k i sockfd (ai_addr res))"

definition bind_attempt :: "kernel \<Rightarrow> nat \<Rightarrow> addrinfo \<Rightarrow> int \<Rightarrow> bool outcome" where
  "bind_attempt k i res sockfd = Inr (k_bind k i sockfd (ai_addr res))"

definition reuse_bind_attempt :: "kernel \<Rightarrow> nat \<Rightarrow> addrinfo \<Rightarrow> int \<Rightarrow> bool outcome" where
  "reuse_bind_attempt k i res listenfd =
     (case Setsockopt k listenfd of Inl e \<Rightarrow> Inl e | Inr _ \<Rightarrow> Inr (k_bind k i listenfd (ai_addr res)))"

definition no_attempt :: "nat \<Rightarrow> addrinfo \<Rightarrow> int \<Rightarrow> bool outcome" where
  "no_attempt i res sockfd = Inr True"

definition tcp_connect ::
  "kernel \<Rightarrow> gai \<Rightarrow> string option \<Rightarrow> string option \<Rightarrow> int list \<Rightarrow> (int \<times> int list) outcome" where
  "tcp_connect k gai host serv fds =
     (case open_first k gai ''tcp_connect'' (blank_hints 0 AF_UNSPEC SOCK_STREAM) (connect_attempt k) host serv fds of
        Inl e \<Rightarrow> Inl e
      | Inr (sockfd, res, fds) \<Rightarrow> Inr (sockfd, fds))"

text \<open>The second component is what is stored through \<open>addrlenp\<close> when it is not NULL.\<close>

definition tcp_listen ::
  "kernel \<Rightarrow> gai \<Rightarrow> int option \<Rightarrow> string option \<Rightarrow> string option \<Rightarrow> int list \<Rightarrow>
   (int \<times> nat \<times> int list) outcome" where
  "tcp_listen k gai listenq host serv fds =
     (case open_first k gai ''tcp_listen'' (blank_hints AI_PASSIVE AF_UNSPEC SOCK_STREAM)
             (reuse_bind_attempt k) host serv fds of
        Inl e \<Rightarrow> Inl e
      | Inr (listenfd, res, fds) \<Rightarrow>
          (case Listen k listenq listenfd LISTENQ of
             Inl e \<Rightarrow> Inl e
           | Inr _ \<Rightarrow> Inr (listenfd, ai_addrlen res, fds)))"

text \<open>The address is copied to memory of its own; \<open>mem\<close> tells whether \<open>Malloc\<close> gets it.\<close>

definition udp_client ::
  "kernel \<Rightarrow> gai \<Rightarrow> bool \<Rightarrow> string option \<Rightarrow> string option \<Rightarrow> int list \<Rightarrow>
   (int \<times> sockaddr option \<times> nat \<times> int list) outcome" where
  "udp_client k gai mem host serv fds =
     (case open_first k gai ''udp_client'' (blank_hints 0 AF_UNSPEC SOCK_DGRAM) no_attempt host serv fds of
        Inl e \<Rightarrow> Inl e
      | Inr (sockfd, res, fds) \<Rightarrow>
          if mem then Inr (sockfd, ai_addr res, ai_addrlen res, fds) else Inl (Err_sys ''malloc error''))"

definition udp_connect ::
  "kernel \<Rightarrow> gai \<Rightarrow> string option \<Rightarrow> string option \<Rightarrow> int list \<Rightarrow> (int \<times> int list) outcome" where
  "udp_connect k gai host serv fds =
     (case open_first k gai ''udp_connect'' (blank_hints 0 AF_UNSPEC SOCK_DGRAM) (connect_attempt k) host serv fds of
        Inl e \<Rightarrow> Inl e
      | Inr (sockfd, res, fds) \<Rightarrow> Inr (sockfd, fds))"

definition udp_server ::
  "kernel \<Rightarrow> gai \<Rightarrow> string option \<Rightarrow> string option \<Rightarrow> int list \<Rightarrow> (int \<times> nat \<times> int list) outcome" where
  "udp_server k gai host serv fds =
     (case open_first k gai ''udp_server'' (blank_hints AI_PASSIVE AF_UNSPEC SOCK_DGRAM) (bind_attempt k) host serv fds of
        Inl e \<Rightarrow> Inl e
      | Inr (sockfd, res, fds) \<Rightarrow> Inr (sockfd, ai_addrlen res, fds))"

definition Udp_connect ::
  "kernel \<Rightarrow> gai \<Rightarrow> string option \<Rightarrow> string option \<Rightarrow> int list \<Rightarrow> (int \<times> int list) outcome" where
  "Udp_connect k gai host serv fds =
     (case udp_connect k gai host serv fds of
        Inl e \<Rightarrow> Inl e
      | Inr (n, fds) \<Rightarrow>
          if n < 0 then Inl (Err_quit (error_for ''udp_connect'' host serv @ '': '' @ gai_strerror (- n)))
          else Inr (n, fds))"

definition host_serv :: "gai \<Rightarrow> string option \<Rightarrow> string option \<Rightarrow> int \<Rightarrow> int \<Rightarrow> addrinfo list option" where
  "host_serv gai host serv family socktype =
     (case gai host serv (blank_hints AI_CANONNAME family socktype) of Inl n \<Rightarrow> None | Inr res \<Rightarrow> Some res)"

definition Host_serv ::
  "gai \<Rightarrow> string option \<Rightarrow> string option \<Rightarrow> int \<Rightarrow> int \<Rightarrow> addrinfo list outcome" where
  "Host_serv gai host serv family socktype =
     (case gai host serv (blank_hints AI_CANONNAME family socktype) of
        Inl n \<Rightarrow> Inl (Err_quit (''host_serv error for '' @
          (case host of None \<Rightarrow> ''(no hostname)'' | Some h \<Rightarrow> h) @ '', '' @
          (case serv of None \<Rightarrow> ''(no service name)'' | Some s \<Rightarrow> s) @ '': '' @ gai_strerror n))
      | Inr res \<Rightarrow> Inr res)"

subsection \<open>The first usable structure\<close>

definition the_socket :: "kernel \<Rightarrow> nat \<times> addrinfo \<Rightarrow> int" where
  "the_socket k = (\<lambda>(i, ai). k_socket k i (ai_family ai) (ai_socktype ai) (ai_protocol ai))"

text \<open>
  A structure can be used when its socket can be made and \<open>works\<close> succeeds on it. \<open>first_usable\<close>
  is the first such structure of the list, with its number.
\<close>

definition first_usable ::
  "kernel \<Rightarrow> (nat \<Rightarrow> int \<Rightarrow> addrinfo \<Rightarrow> bool) \<Rightarrow> nat \<Rightarrow> addrinfo list \<Rightarrow> (nat \<times> addrinfo) option" where
  "first_usable k works n ress =
     find (\<lambda>(i, ai). 0 \<le> the_socket k (i, ai) \<and> works i (the_socket k (i, ai)) ai) (enumerate n ress)"

text \<open>
  The contract of an attempt: when \<open>ready k\<close>, it ends with the answer of \<open>works\<close>.
\<close>

locale opener =
  fixes attempt :: "kernel \<Rightarrow> nat \<Rightarrow> addrinfo \<Rightarrow> int \<Rightarrow> bool outcome"
    and works :: "kernel \<Rightarrow> nat \<Rightarrow> int \<Rightarrow> addrinfo \<Rightarrow> bool"
    and ready :: "kernel \<Rightarrow> bool"
  assumes attempt_works: "ready k \<Longrightarrow> attempt k i ai fd = Inr (works k i fd ai)"
begin

lemma try_each_first:
  assumes "ready k" and "\<forall>fd. k_close k fd"
  shows "try_each k (attempt k) n ress fds =
    Inr (case first_usable k (works k) n ress of
      None \<Rightarrow> (None, fds)
    | Some r \<Rightarrow> (Some (the_socket k r, snd r), the_socket k r # fds))"
  using assms
  by (induction ress arbitrary: n)
    (simp_all add: first_usable_def the_socket_def attempt_works Close_def Let_def split: bool.split)

lemma open_first_usable:
  assumes "ready k" and "\<forall>fd. k_close k fd" and "gai host serv hints = Inr ress" and "ress \<noteq> []"
  shows "open_first k gai who hints (attempt k) host serv fds =
    (case first_usable k (works k) 0 ress of
       None \<Rightarrow> Inl (Err_sys (error_for who host serv))
     | Some r \<Rightarrow> Inr (the_socket k r, snd r, the_socket k r # fds))"
  using try_each_first [OF assms(1,2), of 0 ress fds] assms(3,4)
  by (cases ress) (auto simp: open_first_def split: option.splits)

end

interpretation con: opener connect_attempt "\<lambda>k i fd ai. k_connect k i fd (ai_addr ai)" "\<lambda>k. True"
  by unfold_locales (simp add: connect_attempt_def)

interpretation bnd: opener bind_attempt "\<lambda>k i fd ai. k_bind k i fd (ai_addr ai)" "\<lambda>k. True"
  by unfold_locales (simp add: bind_attempt_def)

interpretation lst: opener reuse_bind_attempt "\<lambda>k i fd ai. k_bind k i fd (ai_addr ai)"
    "\<lambda>k. \<forall>fd. k_setsockopt k fd"
  by unfold_locales (simp add: reuse_bind_attempt_def Setsockopt_def)

interpretation cli: opener "\<lambda>k. no_attempt" "\<lambda>k i fd ai. True" "\<lambda>k. True"
  by unfold_locales (simp add: no_attempt_def)

lemma first_usable_in:
  assumes "first_usable k works n ress = Some (i, ai)"
  shows "n \<le> i" "i - n < length ress" "ress ! (i - n) = ai" "0 \<le> the_socket k (i, ai)"
    "works i (the_socket k (i, ai)) ai"
    "\<forall>j < i - n. \<not> (0 \<le> the_socket k (n + j, ress ! j) \<and> works (n + j) (the_socket k (n + j, ress ! j)) (ress ! j))"
  using assms by (auto simp: first_usable_def find_Some_iff nth_enumerate_eq)

subsection \<open>Properties\<close>


definition demo_kernel :: kernel where
  "demo_kernel = \<lparr>k_socket = \<lambda>i f t p. int i + 3, k_connect = \<lambda>i fd sa. i = 1, k_bind = \<lambda>i fd sa. i = 0,
     k_setsockopt = \<lambda>fd. True, k_close = \<lambda>fd. True, k_listen = \<lambda>fd q. True\<rparr>"


end
