(* ===== verification/Timeval.thy ===== *)
theory Timeval
  imports NP_Prelude
begin

text \<open>
  \<open>struct timeval\<close> and \<open>tv_sub\<close> (\<open>lib/tv_sub.c\<close>; \<open>ping/tv_sub.c\<close> is the same code).
\<close>

record timeval =
  tv_sec :: int
  tv_usec :: int

definition tv_sub :: "timeval \<Rightarrow> timeval \<Rightarrow> timeval" where
  "tv_sub out inn =
     (let usec = tv_usec out - tv_usec inn in
      if usec < 0
      then \<lparr>tv_sec = tv_sec out - 1 - tv_sec inn, tv_usec = usec + 1000000\<rparr>
      else \<lparr>tv_sec = tv_sec out - tv_sec inn, tv_usec = usec\<rparr>)"

definition tv_ok :: "timeval \<Rightarrow> bool" where
  "tv_ok tv = (0 \<le> tv_sec tv \<and> tv_sec tv < 2 ^ 63 \<and> 0 \<le> tv_usec tv \<and> tv_usec tv < 1000000)"

definition usecs :: "timeval \<Rightarrow> int" where
  "usecs tv = tv_sec tv * 1000000 + tv_usec tv"

lemma tv_sub_usecs:
  "usecs (tv_sub out inn) = usecs out - usecs inn"
  "tv_ok out \<Longrightarrow> tv_ok inn \<Longrightarrow> 0 \<le> tv_usec (tv_sub out inn) \<and> tv_usec (tv_sub out inn) < 1000000"
  by (auto simp: tv_sub_def usecs_def tv_ok_def Let_def)

end
