(* ===== verification/Ping.thy ===== *)
theory Ping
  imports Checksum Conn_Setup Timeval
begin

text \<open>
  The \<open>ping\<close> program: \<open>send_v4\<close> and \<open>send_v6\<close> build the echo requests, \<open>proc_v4\<close> and \<open>proc_v6\<close>
  examine what arrives, \<open>sig_alrm\<close> and \<open>readloop\<close> drive them, \<open>main\<close> chooses the protocol.

  A \<open>struct timeval\<close> is two 64-bit integers. The receive buffer is modelled with all its 1500
  bytes: what lies beyond the received length is what earlier datagrams left there.
\<close>

subsection \<open>A timeval in memory\<close>

text \<open>A \<open>timeval\<close> in memory.\<close>

definition store64 :: "int \<Rightarrow> byte list" where
  "store64 i = map (\<lambda>k. of_int (i div 256 ^ k)) [0..<8]"

definition load64 :: "byte list \<Rightarrow> int" where
  "load64 bs =
     (let n = foldr (\<lambda>b acc. int (unat b) + 256 * acc) (take 8 bs) 0 in
      if n \<ge> 2 ^ 63 then n - 2 ^ 64 else n)"

definition store_tv :: "timeval \<Rightarrow> byte list" where
  "store_tv tv = store64 (tv_sec tv) @ store64 (tv_usec tv)"

definition load_tv :: "byte list \<Rightarrow> timeval" where
  "load_tv bs = \<lparr>tv_sec = load64 bs, tv_usec = load64 (drop 8 bs)\<rparr>"

subsection \<open>Sending\<close>

text \<open>The globals \<open>pid\<close>, \<open>nsent\<close> and \<open>verbose\<close>.\<close>

record ping =
  ping_pid :: "16 word"
  ping_nsent :: int
  ping_verbose :: int

definition datalen :: nat where "datalen = 56"

definition BUFSIZE :: nat where "BUFSIZE = 1500"

text \<open>The ICMP header with the given checksum, the time and the fill pattern.\<close>

definition icmp_echo :: "byte \<Rightarrow> ping \<Rightarrow> timeval \<Rightarrow> 16 word \<Rightarrow> byte list" where
  "icmp_echo ty p now cksum =
     [ty, 0] @ store16le cksum @ store16le (ping_pid p) @ store16le (of_int (ping_nsent p)) @
     store_tv now @ replicate (datalen - 16) 0xa5"

definition send_v4 :: "ping \<Rightarrow> timeval \<Rightarrow> byte list \<times> ping" where
  "send_v4 p now =
     (icmp_echo 8 p now (in_cksum (icmp_echo 8 p now 0)), p\<lparr>ping_nsent := ping_nsent p + 1\<rparr>)"

text \<open>The kernel fills in the ICMPv6 checksum; the field has whatever the buffer held, \<open>old\<close>.\<close>

definition send_v6 :: "16 word \<Rightarrow> ping \<Rightarrow> timeval \<Rightarrow> byte list \<times> ping" where
  "send_v6 old p now = (icmp_echo 128 p now old, p\<lparr>ping_nsent := ping_nsent p + 1\<rparr>)"

subsection \<open>Receiving\<close>

text \<open>
  What is printed: a reply with its size, sequence number, TTL or hop limit (\<open>None\<close> is \<open>???\<close>) and
  the time between sending and receiving, or, with \<open>-v\<close>, another message with its type and code.
\<close>

datatype report =
    Reply int "16 word" "int option" timeval
  | Message int byte byte

definition proc_v4 :: "ping \<Rightarrow> byte list \<Rightarrow> int \<Rightarrow> timeval \<Rightarrow> report option" where
  "proc_v4 p ptr len tvrecv =
     (let hlen1 = 4 * (unat (ptr ! 0) mod 16); icmp = drop hlen1 ptr; icmplen = len - int hlen1 in
      if ptr ! 9 \<noteq> 1 then None
      else if icmplen < 8 then None
      else if icmp ! 0 = 0 then
        (if load16 (icmp ! 4) (icmp ! 5) \<noteq> ping_pid p then None
         else if icmplen < 16 then None
         else Some (Reply icmplen (load16 (icmp ! 6) (icmp ! 7)) (Some (int (unat (ptr ! 8))))
           (tv_sub tvrecv (load_tv (drop 8 icmp)))))
      else if ping_verbose p \<noteq> 0 then Some (Message icmplen (icmp ! 0) (icmp ! 1))
      else None)"

text \<open>\<open>cmsgs\<close> are the ancillary objects: level, type and the 32 bits of data.\<close>

fun find_hlim :: "(int \<times> int \<times> 32 word) list \<Rightarrow> int" where
  "find_hlim [] = -1"
| "find_hlim ((level, ty, d) # cs) = (if level = IPPROTO_IPV6 \<and> ty = 52 then sint d else find_hlim cs)"

definition proc_v6 ::
  "ping \<Rightarrow> byte list \<Rightarrow> int \<Rightarrow> (int \<times> int \<times> 32 word) list \<Rightarrow> timeval \<Rightarrow> report option" where
  "proc_v6 p ptr len cmsgs tvrecv =
     (if len < 8 then None
      else if ptr ! 0 = 129 then
        (if load16 (ptr ! 4) (ptr ! 5) \<noteq> ping_pid p then None
         else if len < 16 then None
         else
           let hlim = find_hlim cmsgs in
           Some (Reply len (load16 (ptr ! 6) (ptr ! 7)) (if hlim = -1 then None else Some hlim)
             (tv_sub tvrecv (load_tv (drop 8 ptr)))))
      else if ping_verbose p \<noteq> 0 then Some (Message len (ptr ! 0) (ptr ! 1))
      else None)"

subsection \<open>main and readloop\<close>

datatype proto = Proto_v4 | Proto_v6

definition v4mapped :: "byte list \<Rightarrow> bool" where
  "v4mapped a = (take 12 a = replicate 10 0 @ [0xff, 0xff])"

text \<open>\<open>main\<close> after the options: \<open>Host_serv\<close>, then the protocol for the first address.\<close>

definition ping_main :: "gai \<Rightarrow> string \<Rightarrow> (proto \<times> sockaddr) outcome" where
  "ping_main gai host =
     (case Host_serv gai (Some host) None AF_UNSPEC 0 of
        Inl e \<Rightarrow> Inl e
      | Inr [] \<Rightarrow> Inl (Undefined Null_deref)
      | Inr (ai # _) \<Rightarrow>
          (case ai_addr ai of
             None \<Rightarrow> Inl (Undefined Null_deref)
           | Some sa \<Rightarrow>
               if ai_family ai = AF_INET then Inr (Proto_v4, sa)
               else if ai_family ai = AF_INET6 then
                 (case sa of
                    SIn6 s \<Rightarrow>
                      if v4mapped (sin6_addr s)
                      then Inl (Err_quit ''cannot ping IPv4-mapped IPv6 address'')
                      else Inr (Proto_v6, sa)
                  | _ \<Rightarrow> Inr (Proto_v6, sa))
               else Inl (Err_quit (''unknown address family '' @ print_int (ai_family ai)))))"

text \<open>
  What happens while \<open>recvmsg\<close> waits: the alarm signal (with the time it finds), an error, or a
  datagram, with the whole buffer, its length, the ancillary data and the time.
\<close>

datatype event =
    Sigalrm timeval
  | Recv_error errno
  | Datagram "byte list" int "(int \<times> int \<times> 32 word) list" timeval

definition fsend :: "proto \<Rightarrow> ping \<Rightarrow> timeval \<Rightarrow> byte list \<times> ping" where
  "fsend pr p now = (case pr of Proto_v4 \<Rightarrow> send_v4 p now | Proto_v6 \<Rightarrow> send_v6 0 p now)"

definition fproc ::
  "proto \<Rightarrow> ping \<Rightarrow> byte list \<Rightarrow> int \<Rightarrow> (int \<times> int \<times> 32 word) list \<Rightarrow> timeval \<Rightarrow> report option" where
  "fproc pr p buf n cmsgs tv =
     (case pr of Proto_v4 \<Rightarrow> proc_v4 p buf n tv | Proto_v6 \<Rightarrow> proc_v6 p buf n cmsgs tv)"

text \<open>
  The packets sent and the reports printed, in order, with the state; the loop ends only through
  \<open>err_sys\<close>.
\<close>

fun readloop ::
  "proto \<Rightarrow> ping \<Rightarrow> event list \<Rightarrow> (byte list + report) list \<Rightarrow>
   halt option \<times> ping \<times> (byte list + report) list" where
  "readloop pr p [] out = (None, p, out)"
| "readloop pr p (ev # evs) out =
     (case ev of
        Sigalrm now \<Rightarrow>
          (case fsend pr p now of (pkt, p) \<Rightarrow> readloop pr p evs (out @ [Inl pkt]))
      | Recv_error e \<Rightarrow>
          if e = EINTR then readloop pr p evs out else (Some (Err_sys ''recvmsg error''), p, out)
      | Datagram buf n cmsgs tv \<Rightarrow>
          readloop pr p evs (out @ (case fproc pr p buf n cmsgs tv of Some r \<Rightarrow> [Inr r] | None \<Rightarrow> [])))"

text \<open>\<open>readloop()\<close> sends the first packet itself, by calling the signal handler.\<close>

definition run_ping ::
  "proto \<Rightarrow> ping \<Rightarrow> timeval \<Rightarrow> event list \<Rightarrow> halt option \<times> ping \<times> (byte list + report) list" where
  "run_ping pr p now evs = readloop pr p (Sigalrm now # evs) []"

subsection \<open>Lemmas\<close>

lemma load_digits:
  "foldr (\<lambda>b acc. int (unat b) + 256 * acc) (map (\<lambda>k. of_int (i div 256 ^ k) :: byte) [0..<n]) 0 = i mod 256 ^ n"
proof (induction n arbitrary: i)
  case (Suc n)
  have "int (unat (of_int i :: byte)) = i mod 256" by (simp add: uint_word_of_int take_bit_eq_mod)
  moreover have "map (\<lambda>k. of_int (i div 256 ^ k) :: byte) [0..<Suc n] =
      of_int i # map (\<lambda>k. of_int ((i div 256) div 256 ^ k)) [0..<n]"
    by (simp add: upt_conv_Cons map_Suc_upt [symmetric] comp_def zdiv_zmult2_eq del: upt_Suc)
  ultimately have "foldr (\<lambda>b acc. int (unat b) + 256 * acc) (map (\<lambda>k. of_int (i div 256 ^ k) :: byte) [0..<Suc n]) 0
      = i mod 256 + 256 * ((i div 256) mod 256 ^ n)"
    using Suc.IH [of "i div 256"] by simp
  also have "\<dots> = i mod (256 * 256 ^ n)" by (simp add: zmod_zmult2_eq)
  finally show ?case by simp
qed simp

lemma length_store64 [simp]: "length (store64 i) = 8"
  by (simp add: store64_def)

lemma load_store64: "0 \<le> i \<Longrightarrow> i < 2 ^ 63 \<Longrightarrow> load64 (store64 i @ rest) = i"
  using load_digits [of i 8] by (simp add: load64_def store64_def Let_def)

lemma load_store_tv: "tv_ok tv \<Longrightarrow> load_tv (store_tv tv @ rest) = tv"
  by (cases tv) (simp add: load_tv_def store_tv_def tv_ok_def load_store64)

lemma length_icmp_echo [simp]: "length (icmp_echo ty p now c) = 64"
  by (simp add: icmp_echo_def store_tv_def datalen_def)

definition icmp_packet :: "byte \<times> ping \<times> timeval \<Rightarrow> 16 word \<Rightarrow> byte list" where
  "icmp_packet x c = (case x of (ty, p, now) \<Rightarrow> icmp_echo ty p now c)"

interpretation icmp: checksummed icmp_packet "\<lambda>_. True"
proof
  fix x :: "byte \<times> ping \<times> timeval" and c
  obtain ty p now where x: "x = (ty, p, now)" by (metis prod_cases3)
  have e: "icmp_echo ty p now c = [ty, 0] @ store16le c @ (store16le (ping_pid p) @
      store16le (of_int (ping_nsent p)) @ store_tv now @ replicate (datalen - 16) 0xa5)" for c
    by (simp add: icmp_echo_def)
  show "le_sum (icmp_packet x c) = le_sum (icmp_packet x 0) + unat c"
    using le_sum_append [of "[ty, 0]"] by (simp add: icmp_packet_def x e le_sum_store16le del: append.simps)
  show "length (icmp_packet x c) \<le> 131072" by (simp add: icmp_packet_def x)
qed

text \<open>What the responder makes of a request: its own IP header, type 0 and a new checksum.\<close>

definition echo_reply :: "byte list \<Rightarrow> byte list \<Rightarrow> byte list \<Rightarrow> byte list" where
  "echo_reply iph ck pkt = iph @ [0, 0] @ ck @ drop 4 pkt"

subsection \<open>Properties\<close>



text \<open>
  The guard \<open>icmplen < 16\<close> is meant to ensure that the whole \<open>struct timeval\<close> was received,
  but here it takes 16 bytes after the 8 of the header: on an echo reply of 36 bytes, 16 of them ICMP,
  the report depends on bytes of the buffer beyond the received ones.
\<close>

theorem proc_v4_reads_stale:
  "\<exists>p rcvd stale1 stale2 tv. length rcvd = 36 \<and>
     proc_v4 p (rcvd @ stale1) 36 tv \<noteq> proc_v4 p (rcvd @ stale2) 36 tv \<and>
     proc_v4 p (rcvd @ stale1) 36 tv \<noteq> None"
proof -
  let ?p = "\<lparr>ping_pid = 1, ping_nsent = 0, ping_verbose = 0\<rparr>"
  let ?rcvd = "[0x45, 0, 0, 0, 0, 0, 0, 0, 64, 1, 0, 0, 0, 0, 0, 0, 0, 0, 0, 0,
    0, 0, 0, 0, 1, 0, 0, 0, 0, 0, 0, 0, 0, 0, 0, 0] :: byte list"
  let ?tv = "\<lparr>tv_sec = 10, tv_usec = 5\<rparr>"
  have r1: "proc_v4 ?p (?rcvd @ replicate 8 0) 36 ?tv = Some (Reply 16 0 (Some 64) \<lparr>tv_sec = 10, tv_usec = 5\<rparr>)"
    by code_simp
  have r2: "proc_v4 ?p (?rcvd @ 1 # replicate 7 0) 36 ?tv = Some (Reply 16 0 (Some 64) \<lparr>tv_sec = 10, tv_usec = 4\<rparr>)"
    by code_simp
  have "length ?rcvd = 36 \<and>
     proc_v4 ?p (?rcvd @ replicate 8 0) 36 ?tv \<noteq> proc_v4 ?p (?rcvd @ 1 # replicate 7 0) 36 ?tv \<and>
     proc_v4 ?p (?rcvd @ replicate 8 0) 36 ?tv \<noteq> None"
    unfolding r1 r2 by simp
  then show ?thesis by (intro exI)
qed

end
