(* ===== verification/Rtt.thy ===== *)
theory Rtt
  imports Timeval
begin

text \<open>
  Retransmission timeouts: the estimators of \<open>lib/rtt.c\<close> and the reliable request and reply over
  UDP of \<open>rtt/dg_send_recv.c\<close>.

  The estimators are C \<open>float\<close>s. Rounding is a parameter: \<open>fl\<close> rounds to \<open>float\<close>, where a value is
  stored in one or computed from \<open>float\<close>s only, and \<open>db\<close> rounds to \<open>double\<close>, where an operand is a
  \<open>double\<close>; exact arithmetic is the instance with both the identity. Values of the estimators are
  reals.
\<close>

definition RTT_RXTMIN :: real where "RTT_RXTMIN = 2"
definition RTT_RXTMAX :: real where "RTT_RXTMAX = 60"
definition RTT_MAXNREXMT :: int where "RTT_MAXNREXMT = 3"

record rtt_info =
  rtt_rtt :: real
  rtt_srtt :: real
  rtt_rttvar :: real
  rtt_rto :: real
  rtt_nrexmt :: int
  rtt_base :: "32 word"

type_synonym rounding = "real \<Rightarrow> real"

definition rtt_minmax :: "real \<Rightarrow> real" where
  "rtt_minmax rto = (if rto < RTT_RXTMIN then RTT_RXTMIN else if rto > RTT_RXTMAX then RTT_RXTMAX else rto)"

definition RTT_RTOCALC :: "rounding \<Rightarrow> rtt_info \<Rightarrow> real" where
  "RTT_RTOCALC db ptr = db (rtt_srtt ptr + db (4 * rtt_rttvar ptr))"

text \<open>The time of day is an argument; \<open>rtt_nrexmt\<close> keeps its value.\<close>

definition rtt_init :: "rounding \<Rightarrow> rounding \<Rightarrow> timeval \<Rightarrow> rtt_info \<Rightarrow> rtt_info" where
  "rtt_init fl db tv ptr =
     (let ptr = ptr\<lparr>rtt_base := of_int (tv_sec tv), rtt_rtt := 0, rtt_srtt := 0, rtt_rttvar := fl (3 / 4)\<rparr>
      in ptr\<lparr>rtt_rto := rtt_minmax (fl (RTT_RTOCALC db ptr))\<rparr>)"

definition rtt_ts :: "rtt_info \<Rightarrow> timeval \<Rightarrow> 32 word" where
  "rtt_ts ptr tv = of_int ((tv_sec tv - uint (rtt_base ptr)) * 1000 + tv_usec tv div 1000)"

definition rtt_newpack :: "rtt_info \<Rightarrow> rtt_info" where
  "rtt_newpack ptr = ptr\<lparr>rtt_nrexmt := 0\<rparr>"

definition rtt_start :: "rounding \<Rightarrow> rtt_info \<Rightarrow> int" where
  "rtt_start db ptr = \<lfloor>db (rtt_rto ptr + 1 / 2)\<rfloor>"

definition rtt_stop :: "rounding \<Rightarrow> rounding \<Rightarrow> rtt_info \<Rightarrow> 32 word \<Rightarrow> rtt_info" where
  "rtt_stop fl db ptr ms =
     (let rtt = fl (db (real (unat ms) / 1000));
          delta = fl (rtt - rtt_srtt ptr);
          srtt = fl (db (rtt_srtt ptr + db (delta / 8)));
          delta = (if delta < 0 then - delta else delta);
          rttvar = fl (db (rtt_rttvar ptr + db (db (delta - rtt_rttvar ptr) / 4)));
          ptr = ptr\<lparr>rtt_rtt := rtt, rtt_srtt := srtt, rtt_rttvar := rttvar\<rparr>
      in ptr\<lparr>rtt_rto := rtt_minmax (fl (RTT_RTOCALC db ptr))\<rparr>)"

text \<open>\<open>True\<close> is the return value -1: time to give up. Doubling is exact in binary.\<close>

definition rtt_timeout :: "rtt_info \<Rightarrow> bool \<times> rtt_info" where
  "rtt_timeout ptr =
     (let ptr = ptr\<lparr>rtt_rto := rtt_rto ptr * 2, rtt_nrexmt := rtt_nrexmt ptr + 1\<rparr>
      in (rtt_nrexmt ptr > RTT_MAXNREXMT, ptr))"

subsection \<open>dg\_send\_recv\<close>

text \<open>
  The static variables: the estimators, \<open>rttinit\<close> and the sequence number of \<open>sendhdr\<close>.
\<close>

record dgstate =
  dg_rtt :: rtt_info
  dg_init :: bool
  dg_seq :: "32 word"

text \<open>
  While the process waits in \<open>recvmsg\<close> either the alarm goes off or a datagram arrives: its size, the
  sequence number and timestamp of its header (what the static \<open>recvhdr\<close> holds after it), and its data.
  Both come with the time of day then.
\<close>

datatype dg_event =
    Alrm timeval
  | Dgram timeval nat "32 word" "32 word" "8 word list"

text \<open>What was sent: the header's two numbers and the alarm that was set.\<close>

type_synonym sent = "32 word \<times> 32 word \<times> int"

text \<open>
  From the label \<open>sendagain\<close>, after the send: \<open>sents\<close> holds what was sent so far. The result is the
  return value with the data stored (\<open>None\<close> is -1 with \<open>ETIMEDOUT\<close>).
\<close>

definition send_now :: "rounding \<Rightarrow> dgstate \<Rightarrow> timeval \<Rightarrow> sent" where
  "send_now db s now = (dg_seq s, rtt_ts (dg_rtt s) now, rtt_start db (dg_rtt s))"

fun dg_wait ::
  "rounding \<Rightarrow> rounding \<Rightarrow> dgstate \<Rightarrow> sent list \<Rightarrow> dg_event list \<Rightarrow>
   ((nat \<times> 8 word list) option \<times> dgstate \<times> sent list) option" where
  "dg_wait fl db s sents [] = None"
| "dg_wait fl db s sents (ev # evs) =
     (case ev of
        Alrm now \<Rightarrow>
          (case rtt_timeout (dg_rtt s) of
             (True, r) \<Rightarrow> Some (None, s\<lparr>dg_rtt := r, dg_init := False\<rparr>, sents)
           | (False, r) \<Rightarrow>
               let s = s\<lparr>dg_rtt := r\<rparr> in dg_wait fl db s (sents @ [send_now db s now]) evs)
      | Dgram now n seq ts dat \<Rightarrow>
          if n < 8 \<or> seq \<noteq> dg_seq s then dg_wait fl db s sents evs
          else Some (Some (n - 8, dat),
            s\<lparr>dg_rtt := rtt_stop fl db (dg_rtt s) (rtt_ts (dg_rtt s) now - ts)\<rparr>, sents))"

definition dg_prepare :: "rounding \<Rightarrow> rounding \<Rightarrow> dgstate \<Rightarrow> timeval \<Rightarrow> dgstate" where
  "dg_prepare fl db s now =
     (let s = (if dg_init s then s else s\<lparr>dg_rtt := rtt_init fl db now (dg_rtt s), dg_init := True\<rparr>)
      in s\<lparr>dg_seq := dg_seq s + 1, dg_rtt := rtt_newpack (dg_rtt s)\<rparr>)"

definition dg_send_recv ::
  "rounding \<Rightarrow> rounding \<Rightarrow> dgstate \<Rightarrow> timeval \<Rightarrow> dg_event list \<Rightarrow>
   ((nat \<times> 8 word list) option \<times> dgstate \<times> sent list) option" where
  "dg_send_recv fl db s now evs =
     (let s = dg_prepare fl db s now in dg_wait fl db s [send_now db s now] evs)"

definition Dg_send_recv ::
  "rounding \<Rightarrow> rounding \<Rightarrow> dgstate \<Rightarrow> timeval \<Rightarrow> dg_event list \<Rightarrow>
   (nat \<times> 8 word list \<times> dgstate) outcome option" where
  "Dg_send_recv fl db s now evs =
     map_option (\<lambda>(r, s, sents). case r of
        None \<Rightarrow> Inl (Err_quit ''dg_send_recv error'')
      | Some (n, dat) \<Rightarrow> Inr (n, dat, s)) (dg_send_recv fl db s now evs)"

subsection \<open>The estimators\<close>

lemma rtt_minmax_bounds: "2 \<le> rtt_minmax x \<and> rtt_minmax x \<le> 60"
  by (simp add: rtt_minmax_def RTT_RXTMIN_def RTT_RXTMAX_def)

lemma rto_rtt_stop: "2 \<le> rtt_rto (rtt_stop fl db p ms) \<and> rtt_rto (rtt_stop fl db p ms) \<le> 60"
  by (simp add: rtt_stop_def Let_def rtt_minmax_bounds)

lemma rto_rtt_init: "2 \<le> rtt_rto (rtt_init fl db tv p) \<and> rtt_rto (rtt_init fl db tv p) \<le> 60"
  by (simp add: rtt_init_def Let_def rtt_minmax_bounds)

lemma srtt_rtt_stop_exact:
  "rtt_srtt (rtt_stop (\<lambda>x. x) (\<lambda>x. x) p ms) = rtt_srtt p + (real (unat ms) / 1000 - rtt_srtt p) / 8"
  by (simp add: rtt_stop_def Let_def)

lemma rttvar_rtt_stop_exact:
  "rtt_rttvar (rtt_stop (\<lambda>x. x) (\<lambda>x. x) p ms) =
     rtt_rttvar p + (\<bar>real (unat ms) / 1000 - rtt_srtt p\<bar> - rtt_rttvar p) / 4"
  by (simp add: rtt_stop_def Let_def abs_if)

lemma srtt_iterate:
  assumes "r = real (unat ms) / 1000"
  shows "rtt_srtt (((\<lambda>p. rtt_stop (\<lambda>x. x) (\<lambda>x. x) p ms) ^^ n) p) = r - (7 / 8) ^ n * (r - rtt_srtt p)"
proof (induction n)
  case (Suc n)
  let ?x = "((\<lambda>p. rtt_stop (\<lambda>x. x) (\<lambda>x. x) p ms) ^^ n) p"
  have "rtt_srtt (((\<lambda>p. rtt_stop (\<lambda>x. x) (\<lambda>x. x) p ms) ^^ Suc n) p) = rtt_srtt ?x + (r - rtt_srtt ?x) / 8"
    by (simp add: srtt_rtt_stop_exact assms)
  also have "\<dots> = r - 7 / 8 * ((7 / 8) ^ n * (r - rtt_srtt p))"
    unfolding Suc.IH by (simp only: field_simps) simp
  finally show ?case by simp
qed simp

subsection \<open>The exchange\<close>

fun matching :: "32 word \<Rightarrow> dg_event \<Rightarrow> bool" where
  "matching seq (Alrm now) = False"
| "matching seq (Dgram now n seq' ts dat) = (8 \<le> n \<and> seq' = seq)"

fun is_alarm :: "dg_event \<Rightarrow> bool" where
  "is_alarm (Alrm now) = True"
| "is_alarm (Dgram now n seq ts dat) = False"

text \<open>The alarms of the retransmissions that follow a timeout with the given RTO.\<close>

definition backoff :: "rounding \<Rightarrow> real \<Rightarrow> nat \<Rightarrow> int list" where
  "backoff db rto k = map (\<lambda>i. \<lfloor>db (rto * 2 ^ (i + 1) + 1 / 2)\<rfloor>) [0..<k]"

lemma backoff_Suc: "backoff db rto (Suc k) = \<lfloor>db (rto * 2 + 1 / 2)\<rfloor> # backoff db (rto * 2) k"
  by (simp add: backoff_def upt_conv_Cons map_Suc_upt [symmetric] comp_def algebra_simps del: upt_Suc)

lemma dg_wait_alarm:
  "dg_wait fl db s sents (Alrm now # evs) =
    (let r = (dg_rtt s)\<lparr>rtt_rto := rtt_rto (dg_rtt s) * 2, rtt_nrexmt := rtt_nrexmt (dg_rtt s) + 1\<rparr>;
         s' = s\<lparr>dg_rtt := r\<rparr>
     in if rtt_nrexmt (dg_rtt s) + 1 > 3 then Some (None, s'\<lparr>dg_init := False\<rparr>, sents)
        else dg_wait fl db s' (sents @ [(dg_seq s, rtt_ts r now, \<lfloor>db (rtt_rto (dg_rtt s) * 2 + 1 / 2)\<rfloor>)]) evs)"
  by (simp add: rtt_timeout_def RTT_MAXNREXMT_def send_now_def rtt_start_def Let_def)

lemma dg_wait_noise:
  "\<not> matching (dg_seq s) (Dgram now n seq ts dat) \<Longrightarrow>
   dg_wait fl db s sents (Dgram now n seq ts dat # evs) = dg_wait fl db s sents evs"
  by auto

lemma dg_wait_spec:
  assumes "\<forall>e \<in> set pre. \<not> matching (dg_seq s) e" and "matching (dg_seq s) (Dgram now n q ts dat)"
    and "rtt_nrexmt (dg_rtt s) = int j" and "j \<le> 3" and "k = length (filter is_alarm pre)"
  shows "\<exists>s' sents'. dg_wait fl db s sents (pre @ Dgram now n q ts dat # rest) =
      Some (if j + k \<le> 3 then Some (n - 8, dat) else None, s', sents @ sents') \<and>
    map (snd \<circ> snd) sents' = backoff db (rtt_rto (dg_rtt s)) (min k (3 - j)) \<and>
    (\<forall>x \<in> set sents'. fst x = dg_seq s) \<and> dg_seq s' = dg_seq s \<and>
    (if j + k \<le> 3 then 2 \<le> rtt_rto (dg_rtt s') \<and> rtt_rto (dg_rtt s') \<le> 60 \<and> dg_init s' = dg_init s
     else \<not> dg_init s')"
  using assms
proof (induction pre arbitrary: s sents j k)
  case Nil
  then show ?case using rto_rtt_stop by (auto simp: backoff_def)
next
  case (Cons e pre)
  show ?case
  proof (cases e)
    case (Dgram now' n' q' ts' dat')
    with Cons.IH [of s j "length (filter is_alarm pre)" sents] Cons.prems show ?thesis
      by (simp add: dg_wait_noise del: dg_wait.simps)
  next
    case (Alrm t)
    let ?r = "(dg_rtt s)\<lparr>rtt_rto := rtt_rto (dg_rtt s) * 2, rtt_nrexmt := rtt_nrexmt (dg_rtt s) + 1\<rparr>"
    let ?s = "s\<lparr>dg_rtt := ?r\<rparr>" and ?k = "length (filter is_alarm pre)"
    have k: "k = Suc ?k" using Cons.prems(5) Alrm by simp
    show ?thesis
    proof (cases "j = 3")
      case True
      with Cons.prems Alrm k show ?thesis
        by (simp add: dg_wait_alarm Let_def backoff_def del: dg_wait.simps)
    next
      case False
      let ?x = "(dg_seq s, rtt_ts ?r t, \<lfloor>db (rtt_rto (dg_rtt s) * 2 + 1 / 2)\<rfloor>)"
      have "dg_wait fl db s sents ((e # pre) @ Dgram now n q ts dat # rest) =
          dg_wait fl db ?s (sents @ [?x]) (pre @ Dgram now n q ts dat # rest)"
        using Cons.prems(3,4) False Alrm by (simp add: dg_wait_alarm Let_def del: dg_wait.simps)
      moreover have m: "min k (3 - j) = Suc (min ?k (3 - Suc j))" using k False Cons.prems(4) by simp
      moreover have le: "Suc j + ?k \<le> 3 \<longleftrightarrow> j + k \<le> 3" using k by simp
      moreover have "\<exists>s' sents'. dg_wait fl db ?s (sents @ [?x]) (pre @ Dgram now n q ts dat # rest) =
          Some (if Suc j + ?k \<le> 3 then Some (n - 8, dat) else None, s', (sents @ [?x]) @ sents') \<and>
        map (snd \<circ> snd) sents' = backoff db (rtt_rto (dg_rtt ?s)) (min ?k (3 - Suc j)) \<and>
        (\<forall>x \<in> set sents'. fst x = dg_seq ?s) \<and> dg_seq s' = dg_seq ?s \<and>
        (if Suc j + ?k \<le> 3 then 2 \<le> rtt_rto (dg_rtt s') \<and> rtt_rto (dg_rtt s') \<le> 60 \<and> dg_init s' = dg_init ?s
         else \<not> dg_init s')"
        by (rule Cons.IH) (use Cons.prems(1-4) False in simp_all)
      then obtain s' sents' where "dg_wait fl db ?s (sents @ [?x]) (pre @ Dgram now n q ts dat # rest) =
          Some (if Suc j + ?k \<le> 3 then Some (n - 8, dat) else None, s', (sents @ [?x]) @ sents')"
        "map (snd \<circ> snd) sents' = backoff db (rtt_rto (dg_rtt ?s)) (min ?k (3 - Suc j))"
        "\<forall>x \<in> set sents'. fst x = dg_seq ?s" "dg_seq s' = dg_seq ?s"
        "if Suc j + ?k \<le> 3 then 2 \<le> rtt_rto (dg_rtt s') \<and> rtt_rto (dg_rtt s') \<le> 60 \<and> dg_init s' = dg_init ?s
         else \<not> dg_init s'"
        by (elim exE conjE) (rule that)
      ultimately show ?thesis
        by (intro exI [of _ s'] exI [of _ "?x # sents'"]) (cases "j + k \<le> 3", simp_all add: backoff_Suc comp_def del: dg_wait.simps)
    qed
  qed
qed

subsection \<open>Properties\<close>

text \<open>
  C26. The estimators: whatever the rounding, the RTO is between 2 and 60 seconds after every
  measurement and after the initialisation; with exact arithmetic the smoothed RTT after \<open>n\<close>
  measurements of the same value differs from it by the initial difference times \<open>(7/8) ^ n\<close>,
  and the first RTO is 3 seconds.
\<close>

theorem rtt_estimators:
  "2 \<le> rtt_rto (rtt_stop fl db p ms) \<and> rtt_rto (rtt_stop fl db p ms) \<le> 60 \<and>
   2 \<le> rtt_rto (rtt_init fl db tv p) \<and> rtt_rto (rtt_init fl db tv p) \<le> 60 \<and>
   rtt_rto (rtt_init (\<lambda>x. x) (\<lambda>x. x) tv p) = 3 \<and>
   rtt_srtt (((\<lambda>p. rtt_stop (\<lambda>x. x) (\<lambda>x. x) p ms) ^^ n) p) - real (unat ms) / 1000 =
     (7 / 8) ^ n * (rtt_srtt p - real (unat ms) / 1000)"
  using rto_rtt_stop [of fl db p ms] rto_rtt_init [of fl db tv p] srtt_iterate [OF refl, of n ms p]
  by (simp add: rtt_init_def RTT_RTOCALC_def rtt_minmax_def RTT_RXTMIN_def RTT_RXTMAX_def Let_def algebra_simps)

text \<open>
  C27. \<open>dg_send_recv\<close> sends the request with the next sequence number, ignores datagrams that are
  too short or carry another number, and retransmits on every timeout with a doubled RTO, three
  times at most: with at most three timeouts before the matching reply it returns that reply's data
  size, having sent once more than there were timeouts; with a fourth one it returns -1 after four
  requests and asks for a new initialisation. The alarms grow beyond \<open>RTT_RXTMAX\<close>, since the doubled
  RTO is not limited.
\<close>

theorem dg_send_recv_correct:
  assumes "s1 = dg_prepare fl db s t0" and "\<forall>e \<in> set pre. \<not> matching (dg_seq s + 1) e"
    and "matching (dg_seq s + 1) (Dgram now n q ts dat)" and "k = length (filter is_alarm pre)"
  shows "\<exists>s' sents. dg_send_recv fl db s t0 (pre @ Dgram now n q ts dat # rest) =
      Some (if k \<le> 3 then Some (n - 8, dat) else None, s', sents) \<and>
    length sents = min k 3 + 1 \<and> (\<forall>x \<in> set sents. fst x = dg_seq s + 1) \<and>
    map (snd \<circ> snd) sents = rtt_start db (dg_rtt s1) # backoff db (rtt_rto (dg_rtt s1)) (min k 3) \<and>
    (if k \<le> 3 then 2 \<le> rtt_rto (dg_rtt s') \<and> rtt_rto (dg_rtt s') \<le> 60 \<and> dg_init s' else \<not> dg_init s')"
proof -
  have s1: "dg_seq s1 = dg_seq s + 1" "rtt_nrexmt (dg_rtt s1) = int 0" "dg_init s1"
    using assms(1) by (auto simp: dg_prepare_def rtt_newpack_def Let_def)
  obtain s' sents' where w: "dg_wait fl db s1 [send_now db s1 t0] (pre @ Dgram now n q ts dat # rest) =
      Some (if k \<le> 3 then Some (n - 8, dat) else None, s', [send_now db s1 t0] @ sents')"
    "map (snd \<circ> snd) sents' = backoff db (rtt_rto (dg_rtt s1)) (min k 3)"
    "\<forall>x \<in> set sents'. fst x = dg_seq s1"
    "if k \<le> 3 then 2 \<le> rtt_rto (dg_rtt s') \<and> rtt_rto (dg_rtt s') \<le> 60 \<and> dg_init s' = dg_init s1
     else \<not> dg_init s'"
    using dg_wait_spec [of pre s1 now n q ts dat 0 k fl db "[send_now db s1 t0]" rest] assms(2-4) s1 by auto
  have len: "length sents' = min k 3"
    using arg_cong [OF w(2), of length] by (simp add: backoff_def)
  show ?thesis
    using w len s1 assms(1) by (auto simp: dg_send_recv_def send_now_def Let_def)
qed

definition cold :: dgstate where
  "cold = \<lparr>dg_rtt = \<lparr>rtt_rtt = 0, rtt_srtt = 0, rtt_rttvar = 0, rtt_rto = 0, rtt_nrexmt = 0, rtt_base = 0\<rparr>,
     dg_init = False, dg_seq = 41\<rparr>"

theorem dg_send_recv_correct_witness:
  "\<exists>s' sents. dg_send_recv (\<lambda>x. x) (\<lambda>x. x) cold \<lparr>tv_sec = 0, tv_usec = 0\<rparr>
      [Dgram \<lparr>tv_sec = 1, tv_usec = 0\<rparr> 12 41 0 [7], Alrm \<lparr>tv_sec = 3, tv_usec = 0\<rparr>,
       Dgram \<lparr>tv_sec = 4, tv_usec = 0\<rparr> 10 42 3000 [1, 2]] = Some (Some (2, [1, 2]), s', sents) \<and>
    length sents = 2 \<and> map (snd \<circ> snd) sents = [3, 6]"
proof -
  let ?pre = "[Dgram \<lparr>tv_sec = 1, tv_usec = 0\<rparr> 12 41 0 [7], Alrm \<lparr>tv_sec = 3, tv_usec = 0\<rparr>]"
  have r: "rtt_rto (dg_rtt (dg_prepare (\<lambda>x. x) (\<lambda>x. x) cold \<lparr>tv_sec = 0, tv_usec = 0\<rparr>)) = 3"
    by (simp add: dg_prepare_def cold_def rtt_init_def rtt_newpack_def RTT_RTOCALC_def rtt_minmax_def
        RTT_RXTMIN_def RTT_RXTMAX_def Let_def)
  let ?d = "Dgram \<lparr>tv_sec = 4, tv_usec = 0\<rparr> 10 42 3000 [1, 2]"
  have "\<exists>s' sents. dg_send_recv (\<lambda>x. x) (\<lambda>x. x) cold \<lparr>tv_sec = 0, tv_usec = 0\<rparr> (?pre @ ?d # []) =
      Some (if (1::nat) \<le> 3 then Some (10 - 8, [1, 2]) else None, s', sents) \<and>
    length sents = min 1 3 + 1 \<and> (\<forall>x \<in> set sents. fst x = dg_seq cold + 1) \<and>
    map (snd \<circ> snd) sents = rtt_start (\<lambda>x. x) (dg_rtt (dg_prepare (\<lambda>x. x) (\<lambda>x. x) cold \<lparr>tv_sec = 0, tv_usec = 0\<rparr>)) #
      backoff (\<lambda>x. x) (rtt_rto (dg_rtt (dg_prepare (\<lambda>x. x) (\<lambda>x. x) cold \<lparr>tv_sec = 0, tv_usec = 0\<rparr>))) (min 1 3) \<and>
    (if (1::nat) \<le> 3 then 2 \<le> rtt_rto (dg_rtt s') \<and> rtt_rto (dg_rtt s') \<le> 60 \<and> dg_init s' else \<not> dg_init s')"
    by (rule dg_send_recv_correct [OF refl]) (simp_all add: cold_def)
  then show ?thesis
    by (elim exE conjE, intro exI conjI) (simp_all add: rtt_start_def backoff_def r)
qed

end
