(* ===== verification/Static_Web.thy ===== *)
theory Static_Web
  imports Conn_Setup
begin

text \<open>
  The static web servers of \<open>hw1/hw_staticweb/demo\<close>: \<open>server.c\<close> over TCP and
  \<open>server_https.c\<close>, the same program over TLS.

  The text of the two \<open>serve_file\<close> is the same but for the output call, which is the parameter
  \<open>put\<close> here: \<open>put c m\<close> is the connection after \<open>send\<close> or \<open>SSL_write\<close> of the message \<open>m\<close> (both
  servers ignore what the call returns). The file system is a parameter as well: for every path, whether
  \<open>open\<close> works, the descriptor, and the chunks that the successive calls of \<open>read\<close> return.
\<close>

definition BUFSIZE :: nat where "BUFSIZE = 1024"

definition NUL :: char where "NUL = CHR 0x00"

definition crlf :: string where "crlf = [CHR 0x0D, CHR 0x0A]"

datatype opened = No_file | Opened int "string list"

type_synonym files = "string \<Rightarrow> opened"

fun fd_of :: "opened \<Rightarrow> int" where
  "fd_of No_file = -1"
| "fd_of (Opened fd _) = fd"

text \<open>What \<open>read\<close> returns until it fails; on the descriptor -1 it fails at once, as on a directory.\<close>

fun reads_of :: "opened \<Rightarrow> string list" where
  "reads_of No_file = []"
| "reads_of (Opened _ rs) = rs"

subsection \<open>url_decode\<close>

text \<open>
  \<open>sscanf(s, "%2x", &hex)\<close> of the C library: white space is skipped, then at most two characters are
  taken, of which a sign or \<open>0x\<close> may be part. \<open>None\<close>: nothing is stored in \<open>hex\<close>. The value is given
  modulo 256, as the conversion to \<open>char\<close> leaves it.
\<close>

definition scan_hex2 :: "string \<Rightarrow> nat option" where
  "scan_hex2 s =
     (case dropWhile isspace s of
        [] \<Rightarrow> None
      | c # r \<Rightarrow>
          (case xdigit_val c of
             Some d \<Rightarrow>
               (case r of
                  [] \<Rightarrow> Some d
                | e # _ \<Rightarrow> (case xdigit_val e of Some d' \<Rightarrow> Some (16 * d + d') | None \<Rightarrow> Some d))
           | None \<Rightarrow>
               if c = CHR ''+'' \<or> c = CHR ''-'' then
                 (case r of
                    [] \<Rightarrow> None
                  | e # _ \<Rightarrow>
                      map_option (\<lambda>d. if c = CHR ''-'' then (256 - d) mod 256 else d) (xdigit_val e))
               else None))"

text \<open>The loop; a value that \<open>sscanf\<close> did not store is read uninitialised.\<close>

fun decode_loop :: "string \<Rightarrow> string outcome" where
  "decode_loop [] = Inr []"
| "decode_loop (c # a # b # cs) =
     (if c = CHR ''%'' then
        (case scan_hex2 (a # b # cs) of
           None \<Rightarrow> Inl (Undefined Uninit_read)
         | Some hex \<Rightarrow> map_sum id (Cons (char_of hex)) (decode_loop cs))
      else map_sum id (Cons (if c = CHR ''+'' then CHR '' '' else c)) (decode_loop (a # b # cs)))"
| "decode_loop (c # cs) =
     map_sum id (Cons (if c = CHR ''+'' then CHR '' '' else c)) (decode_loop cs)"

text \<open>
  \<open>malloc(strlen(url) + 1)\<close> is not checked; \<open>mem\<close> tells whether there is memory. The characters and
  the final NUL have to fit.
\<close>

definition url_decode :: "bool \<Rightarrow> string \<Rightarrow> string outcome" where
  "url_decode mem url =
     (if \<not> mem then Inl (Undefined Null_deref)
      else case decode_loop url of
        Inl e \<Rightarrow> Inl e
      | Inr s \<Rightarrow> if length s < length url + 1 then Inr s else Inl (Undefined Buffer_overflow))"

subsection \<open>serve_file\<close>

text \<open>\<open>strcat(buf, t)\<close> where \<open>buf\<close> has \<open>sz\<close> bytes and holds \<open>s\<close>.\<close>

definition strcat_buf :: "nat \<Rightarrow> string \<Rightarrow> string \<Rightarrow> string outcome" where
  "strcat_buf sz s t = (if length s + length t < sz then Inr (s @ t) else Inl (Undefined Buffer_overflow))"

definition content_type :: "string \<Rightarrow> string option" where
  "content_type ext =
     (if ext = ''.txt'' then Some (''Content-Type: text/plain; charset=utf-8'' @ crlf @ crlf)
      else if ext = ''.html'' then Some (''Content-Type: text/html'' @ crlf @ crlf)
      else if ext = ''.css'' then Some (''Content-Type: text/css'' @ crlf @ crlf)
      else if ext = ''.jpg'' \<or> ext = ''.jpeg'' then Some (''Content-Type: image/jpeg'' @ crlf @ crlf)
      else if ext = ''.png'' then Some (''Content-Type: image/png'' @ crlf @ crlf)
      else if ext = ''.gif'' then Some (''Content-Type: image/gif'' @ crlf @ crlf)
      else if ext = ''.mp3'' then Some (''Content-Type: audio/mpeg'' @ crlf @ crlf)
      else None)"

definition ok_line :: string where "ok_line = ''HTTP/1.1 200 OK'' @ crlf"
definition not_found :: string where "not_found = ''HTTP/1.1 404 Not Found'' @ crlf @ crlf"
definition forbidden :: string where "forbidden = ''HTTP/1.1 403 Forbidden'' @ crlf @ ''Location: ''"
definition moved :: string where "moved = ''HTTP/1.1 301 Moved Permanently'' @ crlf @ ''Location: ''"
definition not_implemented :: string where
  "not_implemented = ''HTTP/1.1 501 Not Implemented'' @ crlf @ crlf"

text \<open>The type of the file whose path is given, when the extension is known.\<close>

definition put_type :: "('c \<Rightarrow> string \<Rightarrow> 'c) \<Rightarrow> 'c \<Rightarrow> string \<Rightarrow> 'c" where
  "put_type put c path =
     (case strrchr path CHR ''.'' of
        None \<Rightarrow> c
      | Some i \<Rightarrow> (case content_type (drop i path) of None \<Rightarrow> c | Some t \<Rightarrow> put c t))"

text \<open>\<open>while ((read_bytes = read(fd, buffer, BUFSIZE)) > 0) send(...)\<close>.\<close>

fun copy_out :: "('c \<Rightarrow> string \<Rightarrow> 'c) \<Rightarrow> 'c \<Rightarrow> string list \<Rightarrow> 'c" where
  "copy_out put c [] = c"
| "copy_out put c (chunk # rest) = (if chunk = [] then c else copy_out put (put c chunk) rest)"

text \<open>The first five characters, \<open>/html\<close>, are moved out of the way.\<close>

definition without_root :: "string \<Rightarrow> string" where
  "without_root directory = (if 5 \<le> length directory then drop 5 directory else directory)"

text \<open>The three calls of \<open>strcat\<close> on a buffer of \<open>sz\<close> bytes that holds \<open>start\<close>, and the output.\<close>

definition put_location ::
  "('c \<Rightarrow> string \<Rightarrow> 'c) \<Rightarrow> 'c \<Rightarrow> nat \<Rightarrow> string \<Rightarrow> string \<Rightarrow> 'c outcome" where
  "put_location put c sz start directory =
     (case strcat_buf sz start (without_root directory) of
        Inl e \<Rightarrow> Inl e
      | Inr r \<Rightarrow>
          (case strcat_buf sz r ''/'' of
             Inl e \<Rightarrow> Inl e
           | Inr r \<Rightarrow>
               (case strcat_buf sz r (crlf @ crlf) of Inl e \<Rightarrow> Inl e | Inr r \<Rightarrow> Inr (put c r))))"

definition serve_encoded ::
  "('c \<Rightarrow> string \<Rightarrow> 'c) \<Rightarrow> bool \<Rightarrow> files \<Rightarrow> 'c \<Rightarrow> string \<Rightarrow> 'c outcome" where
  "serve_encoded put mem fs c directory =
     (case url_decode mem (if last directory = CHR ''/'' then butlast directory else directory) of
        Inl e \<Rightarrow> Inl e
      | Inr decoded \<Rightarrow>
          (let decoded_path = takeWhile (\<lambda>x. x \<noteq> NUL) decoded;
               f = fs decoded_path;
               c = put c ok_line;
               c = (if fd_of f < 0 then put c not_found else put_type put c decoded_path)
           in Inr (copy_out put c (reads_of f))))"

definition serve_file ::
  "('c \<Rightarrow> string \<Rightarrow> 'c) \<Rightarrow> bool \<Rightarrow> files \<Rightarrow> 'c \<Rightarrow> string \<Rightarrow> 'c outcome" where
  "serve_file put mem fs c file_path =
     (let file_path = (case strchr file_path CHR ''?'' of
                         None \<Rightarrow> file_path
                       | Some q \<Rightarrow> if q \<noteq> 0 then take q file_path else file_path) in
      if BUFSIZE \<le> length file_path \<or> file_path = [] then Inl (Undefined Buffer_overflow)
      else
        (let lastc = last file_path;
             directory = (if file_path = ''/html/'' then file_path @ ''index.html'' else file_path);
             f = fs directory;
             dot = strrchr directory CHR ''.'' in
         if fd_of f > 0 \<and> dot = None \<and> lastc = CHR ''/''
         then put_location put c (length forbidden + 1) forbidden directory
         else if fd_of f > 0 \<and> dot = None \<and> lastc \<noteq> CHR ''/''
         then put_location put c BUFSIZE moved directory
         else if strstr directory ''/%'' \<and> dot = None
         then put_location put c (length forbidden + 1) forbidden directory
         else if strstr directory ''%'' then serve_encoded put mem fs c directory
         else if dot \<noteq> None
         then Inr (copy_out put (put_type put (put c ok_line) directory) (reads_of f))
         else Inr (put c not_found)))"

subsection \<open>The request\<close>

text \<open>
  \<open>strtok\<close> on a buffer that need not hold a NUL: running off its end is undefined. The second
  component is where the next call goes on.
\<close>

definition strtok_buf :: "string \<Rightarrow> (string option \<times> string) outcome" where
  "strtok_buf buf =
     (let delim = (\<lambda>c. c = CHR '' '' \<or> c = CHR 0x09 \<or> c = CHR 0x0A);
          t = dropWhile delim buf;
          w = takeWhile (\<lambda>c. \<not> delim c \<and> c \<noteq> NUL) t
      in if t = [] then Inl (Undefined Buffer_overflow)
         else if hd t = NUL then Inr (None, t)
         else (case drop (length w) t of
                 [] \<Rightarrow> Inl (Undefined Buffer_overflow)
               | d # r \<Rightarrow> Inr (Some w, if d = NUL then d # r else r)))"

text \<open>
  The child's work on a connection, from the two calls of \<open>strtok\<close> on. \<open>strcmp\<close> on a NULL method is
  undefined, and a NULL \<open>directory\<close> is printed as \<open>(null)\<close>.
\<close>

definition answer ::
  "('c \<Rightarrow> string \<Rightarrow> 'c) \<Rightarrow> bool \<Rightarrow> files \<Rightarrow> 'c \<Rightarrow> string \<Rightarrow> 'c outcome" where
  "answer put mem fs c request =
     (case strtok_buf request of
        Inl e \<Rightarrow> Inl e
      | Inr (http_method, rest) \<Rightarrow>
          (case strtok_buf rest of
             Inl e \<Rightarrow> Inl e
           | Inr (directory, _) \<Rightarrow>
               (case http_method of
                  None \<Rightarrow> Inl (Undefined Null_deref)
                | Some m \<Rightarrow>
                    if m = ''GET''
                    then serve_file put mem fs c (snprintf_buf BUFSIZE (''/html'' @ show_name directory))
                    else Inr (put c not_implemented))))"

text \<open>
  A request: what \<open>recv\<close> or \<open>SSL_read\<close> answered (\<open>None\<close> below 0), and what the array held before.
  After a failure the child \<open>continue\<close>s the loop on the listening socket it has closed, where \<open>accept\<close>
  fails for ever.
\<close>

datatype 'c served = Replied 'c | Died halt | Spins

definition request_buf :: "string \<Rightarrow> string \<Rightarrow> string" where
  "request_buf data stale = take BUFSIZE data @ drop (length data) stale"

definition child ::
  "('c \<Rightarrow> string \<Rightarrow> 'c) \<Rightarrow> bool \<Rightarrow> files \<Rightarrow> 'c \<Rightarrow> string option \<Rightarrow> string \<Rightarrow> 'c served" where
  "child put mem fs c received stale =
     (case received of
        None \<Rightarrow> Spins
      | Some data \<Rightarrow>
          (case answer put mem fs c (request_buf data stale) of Inl e \<Rightarrow> Died e | Inr c \<Rightarrow> Replied c))"

subsection \<open>The servers\<close>

text \<open>The listening socket, set up in \<open>main\<close>; \<open>errquit\<close> prints and exits with 1. \<open>SOMAXCONN\<close> is 4096.\<close>

definition web_listen :: "kernel \<Rightarrow> int outcome" where
  "web_listen k =
     (let fd = k_socket k 0 AF_INET SOCK_STREAM 6 in
      if fd < 0 then Inl (Err_sys ''socket'')
      else if \<not> k_setsockopt k fd then Inl (Err_sys ''setsockopt'')
      else if \<not> k_bind k 0 fd (Some (SIn \<lparr>sin_port = htons 80, sin_addr = replicate 4 0\<rparr>))
      then Inl (Err_sys ''bind'')
      else if \<not> k_listen k fd 4096 then Inl (Err_sys ''listen'')
      else Inr fd)"

text \<open>
  The loop of \<open>main\<close>: what happens to every connection, in order, and whether the server exits.
  Over TLS, the structure and the handshake come before the \<open>fork\<close>; over TCP those two
  events do not arise.
\<close>

datatype conn = Accept_fails | Ssl_new_fails | Ssl_accept_fails | Fork_fails | Conn "string option" string

fun accept_loop ::
  "('c \<Rightarrow> string \<Rightarrow> 'c) \<Rightarrow> bool \<Rightarrow> files \<Rightarrow> 'c \<Rightarrow> conn list \<Rightarrow> 'c served list \<Rightarrow> int option \<times> 'c served list" where
  "accept_loop put mem fs c [] done = (None, done)"
| "accept_loop put mem fs c (ev # evs) done =
     (case ev of
        Fork_fails \<Rightarrow> (Some 0, done)
      | Conn received stale \<Rightarrow> accept_loop put mem fs c evs (done @ [child put mem fs c received stale])
      | _ \<Rightarrow> accept_loop put mem fs c evs done)"

definition send :: "string \<Rightarrow> string \<Rightarrow> string" where
  "send stream m = stream @ m"

definition http_main ::
  "kernel \<Rightarrow> bool \<Rightarrow> files \<Rightarrow> conn list \<Rightarrow> (int option \<times> string served list) outcome" where
  "http_main k mem fs evs =
     (case web_listen k of
        Inl e \<Rightarrow> Inl e
      | Inr _ \<Rightarrow> Inr (accept_loop send mem fs [] evs []))"

definition https_main ::
  "('c \<Rightarrow> string \<Rightarrow> 'c) \<Rightarrow> 'c \<Rightarrow> bool \<Rightarrow> bool \<Rightarrow> kernel \<Rightarrow> bool \<Rightarrow> files \<Rightarrow> conn list \<Rightarrow>
   (int option \<times> 'c served list) outcome" where
  "https_main SSL_write fresh ctx_ok cert_ok k mem fs evs =
     (if \<not> ctx_ok \<or> \<not> cert_ok then Inl (Exit_code 1)
      else case web_listen k of
        Inl e \<Rightarrow> Inl e
      | Inr _ \<Rightarrow> Inr (accept_loop SSL_write mem fs fresh evs []))"

subsection \<open>The output call as an interface\<close>

text \<open>
  What the server needs of a connection: the client can recover a stream, \<open>sent\<close>, to which every
  output call appends its message. All the functions then refine their versions on plain streams.
\<close>

locale web_transport =
  fixes put :: "'c \<Rightarrow> string \<Rightarrow> 'c" and sent :: "'c \<Rightarrow> string"
  assumes sent_put: "sent (put c m) = sent c @ m"
begin

lemma sent_copy_out: "sent (copy_out put c rs) = copy_out send (sent c) rs"
  by (induction rs arbitrary: c) (simp_all add: sent_put send_def)

lemma sent_put_type: "sent (put_type put c path) = put_type send (sent c) path"
  by (cases "strrchr path CHR ''.''") (simp_all add: put_type_def sent_put send_def del: strrchr_None split: option.split)

lemma sent_put_location:
  "map_sum id sent (put_location put c sz start d) = put_location send (sent c) sz start d"
  by (simp add: put_location_def sent_put send_def split: sum.split)

lemma sent_serve_encoded:
  "map_sum id sent (serve_encoded put mem fs c d) = serve_encoded send mem fs (sent c) d"
  by (simp add: serve_encoded_def Let_def sent_copy_out sent_put_type sent_put send_def split: sum.split)

lemma sent_serve_file:
  "map_sum id sent (serve_file put mem fs c path) = serve_file send mem fs (sent c) path"
  by (simp add: serve_file_def Let_def sent_put_location sent_serve_encoded sent_copy_out sent_put_type
      sent_put send_def [of "sent c"])

lemma sent_answer: "map_sum id sent (answer put mem fs c req) = answer send mem fs (sent c) req"
  by (simp add: answer_def sent_serve_file sent_put send_def [of "sent c"] split: sum.split option.split)

lemma sent_child: "map_served sent (child put mem fs c recvd stale) = child send mem fs (sent c) recvd stale"
proof (cases recvd)
  case (Some data)
  then show ?thesis
    by (cases "answer put mem fs c (request_buf data stale)") (simp_all add: child_def sent_answer [symmetric])
qed (simp add: child_def)

lemma sent_accept_loop:
  "map_prod id (map (map_served sent)) (accept_loop put mem fs c evs ds) =
   accept_loop send mem fs (sent c) evs (map (map_served sent) ds)"
  by (induction evs arbitrary: ds) (simp_all add: sent_child split: conn.split)

end

interpretation tcp: web_transport send "\<lambda>stream. stream"
  by unfold_locales (simp add: send_def)

subsection \<open>Lemmas\<close>

lemma copy_out_send: "copy_out send c rs = c @ concat (takeWhile (\<lambda>r. r \<noteq> []) rs)"
  by (induction rs arbitrary: c) (simp_all add: send_def)

lemma strstr_char: "strstr s [x] \<longleftrightarrow> x \<in> set s"
proof (induction s)
  case (Cons a s)
  then show ?case by (cases s) auto
qed simp

text \<open>What \<open>url_decode\<close> undoes: a character may stay as it is, become \<open>+\<close> or become \<open>%\<close> and two digits.\<close>

datatype style = Plain | Plus | Percent "nat \<Rightarrow> char"

definition encode_char :: "(char \<Rightarrow> style) \<Rightarrow> char \<Rightarrow> string" where
  "encode_char st c =
     (case st c of
        Plain \<Rightarrow> [c]
      | Plus \<Rightarrow> ''+''
      | Percent f \<Rightarrow> [CHR ''%'', f (of_char c div 16), f (of_char c mod 16)])"

definition style_ok :: "(char \<Rightarrow> style) \<Rightarrow> char \<Rightarrow> bool" where
  "style_ok st c =
     (case st c of
        Plain \<Rightarrow> c \<noteq> CHR ''%'' \<and> c \<noteq> CHR ''+''
      | Plus \<Rightarrow> c = CHR '' ''
      | Percent f \<Rightarrow> list_all (\<lambda>d. xdigit_val (f d) = Some d) [0..<16])"

lemma xdigit_not_space: "xdigit_val c = Some d \<Longrightarrow> \<not> isspace c"
  by (auto simp: xdigit_val_def isspace_def Let_def split: if_splits)

lemma scan_two_digits:
  "xdigit_val a = Some d \<Longrightarrow> xdigit_val b = Some e \<Longrightarrow> scan_hex2 (a # b # cs) = Some (16 * d + e)"
  by (simp add: scan_hex2_def xdigit_not_space)

lemma decode_loop_Cons:
  "c \<noteq> CHR ''%'' \<Longrightarrow>
   decode_loop (c # cs) = map_sum id (Cons (if c = CHR ''+'' then CHR '' '' else c)) (decode_loop cs)"
  by (cases cs rule: list.exhaust; cases "tl cs") auto

lemma decode_encode_char:
  assumes "style_ok st c"
  shows "decode_loop (encode_char st c @ s) = map_sum id (Cons c) (decode_loop s)"
proof (cases "st c")
  case (Percent f)
  have lt: "(of_char c :: nat) < 256" by simp
  have "(of_char c :: nat) div 16 < 16" "(of_char c :: nat) mod 16 < 16" using lt by linarith+
  with assms Percent have x: "xdigit_val (f (of_char c div 16)) = Some (of_char c div 16)"
      "xdigit_val (f (of_char c mod 16)) = Some (of_char c mod 16)"
    by (simp_all add: style_ok_def list_all_iff)
  then show ?thesis using Percent by (simp add: encode_char_def scan_two_digits)
qed (use assms in \<open>simp_all add: style_ok_def encode_char_def decode_loop_Cons\<close>)

lemma decode_encode:
  "list_all (style_ok st) s \<Longrightarrow> decode_loop (concat (map (encode_char st) s)) = Inr s"
  by (induction s) (simp_all add: decode_encode_char)

lemma decode_loop_length: "decode_loop s = Inr t \<Longrightarrow> length t \<le> length s"
proof (induction s arbitrary: t rule: decode_loop.induct)
  case (2 c a b cs)
  show ?case
  proof (cases "c = CHR ''%''")
    case True
    with 2 show ?thesis by (fastforce split: option.splits sum.splits simp: map_sum_def)
  next
    case False
    with 2 show ?thesis by (fastforce split: sum.splits simp: map_sum_def)
  qed
qed (fastforce split: sum.splits simp: map_sum_def)+

lemma url_decode_no_overflow: "url_decode mem url \<noteq> Inl (Undefined Buffer_overflow)"
proof -
  have u: "decode_loop s \<noteq> Inl (Undefined Buffer_overflow)" for s
    by (induction s rule: decode_loop.induct) (auto split: option.split simp: map_sum_def split: sum.splits)
  show ?thesis
  proof (cases "decode_loop url")
    case (Inl e)
    then show ?thesis using u [of url] by (simp add: url_decode_def)
  next
    case (Inr t)
    then show ?thesis using decode_loop_length [OF Inr] by (simp add: url_decode_def)
  qed
qed

text \<open>The first two words of a request line.\<close>

definition word_char :: "char \<Rightarrow> bool" where
  "word_char c = (c \<notin> {CHR '' '', CHR 0x09, CHR 0x0A, NUL})"

lemma word_char_simps [simp]:
  "\<not> word_char CHR '' ''" "\<not> word_char NUL" "\<not> word_char CHR 0x09" "\<not> word_char CHR 0x0A"
  by (simp_all add: word_char_def)

lemma strtok_buf_word:
  assumes "w \<noteq> []" and "list_all word_char w"
  shows "strtok_buf (w @ CHR '' '' # r) = Inr (Some w, r)"
proof -
  have t: "takeWhile (\<lambda>c. c \<noteq> CHR '' '' \<and> c \<noteq> CHR 0x09 \<and> c \<noteq> CHR 0x0A \<and> c \<noteq> NUL) (w @ CHR '' '' # r) = w"
    using assms(2) by (subst takeWhile_append2) (auto simp: word_char_def list_all_iff)
  obtain a w' where w: "w = a # w'" using assms(1) by (cases w) auto
  with assms(2) have a: "word_char a" by simp
  have d: "dropWhile (\<lambda>c. c = CHR '' '' \<or> c = CHR 0x09 \<or> c = CHR 0x0A) (w @ CHR '' '' # r) = w @ CHR '' '' # r"
    using a w by (simp add: word_char_def)
  show ?thesis using a w t unfolding strtok_buf_def Let_def d by (simp add: word_char_def NUL_def)
qed

lemma answer_words:
  assumes "list_all word_char m" "m \<noteq> []" and "list_all word_char d" "d \<noteq> []"
  shows "answer put mem fs c (m @ CHR '' '' # d @ CHR '' '' # r) =
    (if m = ''GET'' then serve_file put mem fs c (snprintf_buf BUFSIZE (''/html'' @ d))
     else Inr (put c not_implemented))"
  using assms by (simp add: answer_def strtok_buf_word show_name_def)

text \<open>The file that a path names, and the type line for it.\<close>

definition target :: "string \<Rightarrow> string" where
  "target path = (if path = ''/'' then ''/html/index.html'' else ''/html'' @ path)"

definition type_line :: "string \<Rightarrow> string" where
  "type_line ext = (case content_type ext of None \<Rightarrow> [] | Some t \<Rightarrow> t)"

lemma put_type_send:
  "x \<notin> set e \<Longrightarrow> x = CHR ''.'' \<Longrightarrow> put_type send c (s @ x # e) = c @ type_line (x # e)"
  by (simp add: put_type_def strrchr_last type_line_def send_def split: option.split)

lemma serve_file_plain:
  assumes "list_all (\<lambda>x. x \<noteq> CHR ''?'' \<and> x \<noteq> CHR ''%'') p" and "length p < BUFSIZE" and "p \<noteq> []"
    and "(if p = ''/html/'' then ''/html/index.html'' else p) = s @ CHR ''.'' # e" and "CHR ''.'' \<notin> set e"
  shows "serve_file send mem fs c p =
    Inr (c @ ok_line @ type_line (CHR ''.'' # e) @ concat (takeWhile (\<lambda>r. r \<noteq> []) (reads_of (fs (s @ CHR ''.'' # e)))))"
proof -
  have q: "strchr p CHR ''?'' = None" and pc: "CHR ''%'' \<notin> set p" using assms(1) by (auto simp: list_all_iff)
  let ?d = "if p = ''/html/'' then p @ ''index.html'' else p"
  have d: "?d = s @ CHR ''.'' # e" using assms(4) by (auto split: if_splits)
  have "CHR ''%'' \<notin> set ?d" using pc by simp
  then have np: "\<not> strstr (s @ CHR ''.'' # e) ''%''" unfolding d strstr_char .
  show ?thesis
    unfolding serve_file_def Let_def q option.case d
    using assms(2,3,5) np by (simp add: strrchr_last put_type_send copy_out_send send_def)
qed

subsection \<open>Properties\<close>


definition upper_dig :: "nat \<Rightarrow> char" where
  "upper_dig d = (if d < 10 then char_of (48 + d) else char_of (55 + d))"


text \<open>
  C29. A GET request for a path with an extension (and for \<open>/\<close>, which stands for \<open>/index.html\<close>), without
  \<open>?\<close> and \<open>%\<close>, is answered with the status line 200, the type line of the extension when it is known, and
  the contents of the file under \<open>/html\<close>, whatever the chunks \<open>read\<close> returns. The file need not exist: the
  answer is 200 then as well, with nothing after the type line. Nothing keeps \<open>..\<close> out of the path.
\<close>

theorem get_serves_file:
  assumes "path \<noteq> []" and "list_all (\<lambda>x. word_char x \<and> x \<noteq> CHR ''?'' \<and> x \<noteq> CHR ''%'') path"
    and "length (''GET '' @ path @ '' '' @ rest) < BUFSIZE"
    and "target path = stem @ CHR ''.'' # ext" and "CHR ''.'' \<notin> set ext"
  shows "child send mem fs [] (Some (''GET '' @ path @ '' '' @ rest)) stale =
    Replied (ok_line @ type_line (CHR ''.'' # ext) @
      concat (takeWhile (\<lambda>chunk. chunk \<noteq> []) (reads_of (fs (target path)))))"
proof -
  let ?p = "''/html'' @ path"
  have len: "length ?p < BUFSIZE" using assms(3) by (simp add: BUFSIZE_def)
  have w: "list_all word_char path" using assms(2) by (simp add: list_all_iff)
  have "request_buf (''GET '' @ path @ '' '' @ rest) stale =
      ''GET'' @ CHR '' '' # path @ CHR '' '' # rest @ drop (length (''GET '' @ path @ '' '' @ rest)) stale"
    using assms(3) by (simp add: request_buf_def)
  then have a: "answer send mem fs [] (request_buf (''GET '' @ path @ '' '' @ rest) stale) =
      serve_file send mem fs [] ?p"
    using answer_words [of "''GET''" path] w assms(1) snprintf_buf_fits [OF len] by (simp add: word_char_def NUL_def)
  have "serve_file send mem fs [] ?p =
    Inr ([] @ ok_line @ type_line (CHR ''.'' # ext) @
      concat (takeWhile (\<lambda>r. r \<noteq> []) (reads_of (fs (stem @ CHR ''.'' # ext)))))"
    by (rule serve_file_plain [OF _ len])
      (use assms(2,4,5) in \<open>auto simp: list_all_iff target_def split: if_splits\<close>)
  with a assms(4) show ?thesis by (simp add: child_def)
qed

theorem get_serves_file_witness:
  "child send True (\<lambda>p. if p = ''/html/a.css'' then Opened 4 [''p {'', ''}''] else No_file) []
     (Some ''GET /a.css HTTP/1.0'') [] =
   Replied (''HTTP/1.1 200 OK'' @ crlf @ ''Content-Type: text/css'' @ crlf @ crlf @ ''p {}'') \<and>
   child send True (\<lambda>_. No_file) [] (Some ''GET /x.zip HTTP/1.0'') [] = Replied (''HTTP/1.1 200 OK'' @ crlf)"
  using get_serves_file [of "''/a.css''" "''HTTP/1.0''" "''/html/a''" "''css''" True
      "\<lambda>p. if p = ''/html/a.css'' then Opened 4 [''p {'', ''}''] else No_file" "[]"]
    get_serves_file [of "''/x.zip''" "''HTTP/1.0''" "''/html/x''" "''zip''" True "\<lambda>_. No_file" "[]"]
  by (simp add: word_char_def NUL_def BUFSIZE_def target_def type_line_def content_type_def ok_line_def)

text \<open>
  C30. The other answers, for a path \<open>d\<close> without \<open>.\<close> and \<open>?\<close>: the redirection of a directory without its final
  slash names the path below \<open>/html\<close> with the slash; a missing file gives 404; with the final
  slash, and for a missing path with a component that begins with \<open>%\<close>, the 403 answer overruns the array it is
  put together in, which has no room beyond its first line; and an encoded path that is not there gets
  the line of a 200 answer before that of the 404 one.
\<close>

theorem serve_file_errors:
  assumes "d \<noteq> []" and "d \<noteq> ''/html/''" and "length d < 900"
    and "CHR ''.'' \<notin> set d" and "CHR ''?'' \<notin> set d"
  shows "serve_file put mem fs c d =
     (if fd_of (fs d) > 0 then
        (if last d = CHR ''/'' then Inl (Undefined Buffer_overflow)
         else Inr (put c (moved @ without_root d @ ''/'' @ crlf @ crlf)))
      else if strstr d ''/%'' then Inl (Undefined Buffer_overflow)
      else if CHR ''%'' \<in> set d then serve_encoded put mem fs c d
      else Inr (put c not_found)) \<and>
    (url_decode mem (if last d = CHR ''/'' then butlast d else d) = Inr s \<and>
       fs (takeWhile (\<lambda>x. x \<noteq> NUL) s) = No_file \<longrightarrow>
     serve_encoded put mem fs c d = Inr (put (put c ok_line) not_found))"
proof -
  have q: "strchr d CHR ''?'' = None" and dot: "strrchr d CHR ''.'' = None" using assms(4,5) by simp_all
  have fb: "put_location put c (length forbidden + 1) forbidden d = Inl (Undefined Buffer_overflow)"
    by (simp add: put_location_def strcat_buf_def)
  have "length (without_root d) \<le> length d" by (simp add: without_root_def)
  then have mv: "put_location put c BUFSIZE moved d = Inr (put c (moved @ without_root d @ ''/'' @ crlf @ crlf))"
    using assms(3) by (simp add: put_location_def strcat_buf_def BUFSIZE_def moved_def crlf_def)
  show ?thesis using assms(1-3) fb mv
    unfolding serve_file_def Let_def q option.case dot serve_encoded_def
    by (auto simp: dot strstr_char BUFSIZE_def)
qed

theorem serve_file_errors_witness:
  "serve_file send True (\<lambda>_. Opened 5 []) [] ''/html/music'' =
     Inr (''HTTP/1.1 301 Moved Permanently'' @ crlf @ ''Location: /music/'' @ crlf @ crlf) \<and>
   serve_file send True (\<lambda>_. Opened 5 []) [] ''/html/music/'' = Inl (Undefined Buffer_overflow) \<and>
   serve_file send True (\<lambda>_. No_file) [] ''/html/no'' = Inr (''HTTP/1.1 404 Not Found'' @ crlf @ crlf) \<and>
   serve_encoded send True (\<lambda>_. No_file) [] ''/html/a%20b'' =
     Inr (''HTTP/1.1 200 OK'' @ crlf @ ''HTTP/1.1 404 Not Found'' @ crlf @ crlf)"
proof -
  have d: "url_decode True ''/html/a%20b'' = Inr ''/html/a b''"
    by (simp add: url_decode_def scan_hex2_def isspace_def xdigit_val_def char_of_def bit_0)
  show ?thesis
    using serve_file_errors [of "''/html/music''" send True "\<lambda>_. Opened 5 []" "[]"]
      serve_file_errors [of "''/html/music/''" send True "\<lambda>_. Opened 5 []" "[]"]
      serve_file_errors [of "''/html/no''" send True "\<lambda>_. No_file" "[]"]
      serve_file_errors [of "''/html/a%20b''" send True "\<lambda>_. No_file" "[]" "''/html/a b''"] d
    by (simp add: moved_def without_root_def send_def not_found_def ok_line_def)
qed


text \<open>TLS records of at most two characters, for a small example.\<close>

fun records :: "string \<Rightarrow> string list" where
  "records (a # b # s) = [a, b] # records s"
| "records [] = []"
| "records [a] = [[a]]"

definition demo_web_kernel :: kernel where
  "demo_web_kernel = \<lparr>k_socket = (\<lambda>_ _ _ _. 3), k_connect = (\<lambda>_ _ _. True), k_bind = (\<lambda>_ _ _. True),
     k_setsockopt = (\<lambda>_. True), k_close = (\<lambda>_. True), k_listen = (\<lambda>_ _. True)\<rparr>"

lemma concat_records: "concat (records s) = s"
  by (induction s rule: records.induct) simp_all


end
