(* ===== verification/Ready_Loop.thy ===== *)
theory Ready_Loop
  imports NP_Prelude
begin

text \<open>
  Two loops that the event-driven programs share (\<open>tcpcliserv/tcpservselect01.c\<close>,
  \<open>tcpcliserv/tcpservpoll01.c\<close>, \<open>server/serv05.c\<close>, \<open>nonblock/web.c\<close>, \<open>icmpd/icmpd.c\<close>): the search for the first free
  entry of a table, and the pass over the table that serves the ready entries and stops when as
  many were served as \<open>select\<close> or \<open>poll\<close> had announced.
\<close>

text \<open>The number of descriptors a \<open>fd_set\<close> can hold.\<close>

definition FD_SETSIZE :: nat where "FD_SETSIZE = 1024"

text \<open>\<open>for (i = 0; i < n; i++) if (P(x[i])) break;\<close>: the index after the loop.\<close>

definition find_slot :: "('a \<Rightarrow> bool) \<Rightarrow> 'a list \<Rightarrow> nat" where
  "find_slot P xs = length (takeWhile (\<lambda>x. \<not> P x) xs)"

text \<open>
  The pass: \<open>rdy s i\<close> tests entry \<open>i\<close>, \<open>srv s i\<close> serves it, and \<open>stop\<close> is the test of the decremented
  count.
\<close>

fun scan ::
  "('s \<Rightarrow> nat \<Rightarrow> bool outcome) \<Rightarrow> ('s \<Rightarrow> nat \<Rightarrow> 's outcome) \<Rightarrow> (int \<Rightarrow> bool) \<Rightarrow> nat list \<Rightarrow> int \<Rightarrow> 's \<Rightarrow> 's outcome" where
  "scan rdy srv stop [] nready s = Inr s"
| "scan rdy srv stop (i # is) nready s =
     (case rdy s i of
        Inl e \<Rightarrow> Inl e
      | Inr False \<Rightarrow> scan rdy srv stop is nready s
      | Inr True \<Rightarrow>
          (case srv s i of
             Inl e \<Rightarrow> Inl e
           | Inr s' \<Rightarrow> if stop (nready - 1) then Inr s' else scan rdy srv stop is (nready - 1) s'))"

text \<open>The pass without the count: every entry of the list is served, in order.\<close>

fun serve_each :: "('s \<Rightarrow> nat \<Rightarrow> 's outcome) \<Rightarrow> nat list \<Rightarrow> 's \<Rightarrow> 's outcome" where
  "serve_each srv [] s = Inr s"
| "serve_each srv (i # is) s = (case srv s i of Inl e \<Rightarrow> Inl e | Inr s' \<Rightarrow> serve_each srv is s')"

subsection \<open>Lemmas\<close>

lemma find_slot_le: "find_slot P xs \<le> length xs"
  by (simp add: find_slot_def length_takeWhile_le)

lemma find_slot_free: "find_slot P xs < length xs \<Longrightarrow> P (xs ! find_slot P xs)"
  unfolding find_slot_def using nth_length_takeWhile by blast

lemma find_slot_first: "j < find_slot P xs \<Longrightarrow> \<not> P (xs ! j)"
  unfolding find_slot_def by (metis nth_mem set_takeWhileD takeWhile_nth)

lemma find_slot_none: "find_slot P xs = length xs \<longleftrightarrow> (\<forall>x \<in> set xs. \<not> P x)"
  unfolding find_slot_def by (metis takeWhile_eq_all_conv length_takeWhile_le takeWhile_eq_take take_all_iff)

lemma filter_update_neither:
  "\<not> P v \<Longrightarrow> i < length xs \<Longrightarrow> \<not> P (xs ! i) \<Longrightarrow> filter P (xs[i := v]) = filter P xs"
  by (induction xs arbitrary: i) (auto split: nat.split)

lemma filter_update_count:
  assumes "i < length xs"
  shows "length (filter P (xs[i := v])) + (if P (xs ! i) then 1 else 0) =
    length (filter P xs) + (if P v then 1 else 0)"
  using assms
proof (induction xs arbitrary: i)
  case (Cons x xs)
  show ?case
  proof (cases i)
    case (Suc k)
    with Cons.prems have "k < length xs" by simp
    from Cons.IH [OF this] Suc show ?thesis by simp
  qed simp
qed simp

lemma filter_update_remove:
  assumes "i < length xs" and "P (xs ! i)" and "\<not> P v"
  shows "\<exists>A B. filter P xs = A @ xs ! i # B \<and> filter P (xs[i := v]) = A @ B"
proof (intro exI conjI)
  show "filter P xs = filter P (take i xs) @ xs ! i # filter P (drop (Suc i) xs)"
    by (subst id_take_nth_drop [OF assms(1)]) (simp add: assms)
  show "filter P (xs[i := v]) = filter P (take i xs) @ filter P (drop (Suc i) xs)"
    by (subst upd_conv_take_nth_drop [OF assms(1)]) (simp add: assms)
qed

lemma filter_update_add:
  assumes "i < length xs" and "\<not> P (xs ! i)" and "P v"
  shows "\<exists>A B. filter P xs = A @ B \<and> filter P (xs[i := v]) = A @ v # B"
proof (intro exI conjI)
  show "filter P xs = filter P (take i xs) @ filter P (drop (Suc i) xs)"
    by (subst id_take_nth_drop [OF assms(1)]) (simp add: assms)
  show "filter P (xs[i := v]) = filter P (take i xs) @ v # filter P (drop (Suc i) xs)"
    by (subst upd_conv_take_nth_drop [OF assms(1)]) (simp add: assms)
qed

text \<open>A table is changed in one place only.\<close>

lemma table_split:
  assumes "i < length (xs :: 'a list)"
  obtains ys zs where "\<And>P. filter P xs = filter P ys @ (if P (xs ! i) then [xs ! i] else []) @ filter P zs"
    "\<And>P v. filter P (xs[i := v]) = filter P ys @ (if P v then [v] else []) @ filter P zs"
proof
  show "filter P xs = filter P (take i xs) @ (if P (xs ! i) then [xs ! i] else []) @ filter P (drop (Suc i) xs)" for P
    by (subst id_take_nth_drop [OF assms]) simp
  show "filter P (xs[i := v]) = filter P (take i xs) @ (if P v then [v] else []) @ filter P (drop (Suc i) xs)" for P v
    by (subst upd_conv_take_nth_drop [OF assms]) simp
qed

lemma list_all_update: "list_all P xs \<Longrightarrow> P v \<Longrightarrow> list_all P (xs[i := v])"
  using set_update_subset_insert [of xs i v] by (auto simp: list_all_iff)

lemma map_update_same: "f v = f (xs ! i) \<Longrightarrow> map f (xs[i := v]) = map f xs"
  by (cases "i < length xs") (simp_all add: map_update list_update_same_conv list_update_beyond)

lemma distinct_entries:
  assumes "distinct (map f (filter P xs))" "i < length xs" "j < length xs" "P (xs ! i)" "P (xs ! j)" "f (xs ! i) = f (xs ! j)"
  shows "i = j"
  using assms
proof (induction xs arbitrary: i j)
  case (Cons x xs)
  have d: "distinct (map f (filter P xs))" using Cons.prems(1) by (simp split: if_splits)
  have x: "f x \<notin> f ` set (filter P xs)" if "P x" using Cons.prems(1) that by simp
  have m: "xs ! n \<in> set (filter P xs)" if "n < length xs" "P (xs ! n)" for n using that by simp
  show ?case
  proof (cases i; cases j)
    fix i' j' assume "i = Suc i'" "j = Suc j'"
    then show ?thesis using Cons.IH [OF d, of i' j'] Cons.prems by simp
  next
    fix j' assume "i = 0" "j = Suc j'"
    then show ?thesis using Cons.prems x m [of j'] by (auto simp: image_iff)
  next
    fix i' assume "i = Suc i'" "j = 0"
    then show ?thesis using Cons.prems x m [of i'] by (auto simp: image_iff)
  qed simp
qed simp

lemma map_nth_filter:
  "n \<le> length xs \<Longrightarrow> map (nth xs) (filter (\<lambda>i. P (xs ! i)) [m..<n]) = filter P (drop m (take n xs))"
proof (induction n)
  case (Suc n)
  then show ?case by (cases "m \<le> n") (simp_all add: take_Suc_conv_app_nth)
qed simp

lemma filter_take_all:
  assumes "\<And>i. n \<le> i \<Longrightarrow> i < length xs \<Longrightarrow> \<not> P (xs ! i)"
  shows "filter P (take n xs) = filter P xs"
proof -
  have "filter P (drop n xs) = []"
    using assms by (auto simp: filter_empty_conv in_set_conv_nth)
  then show ?thesis by (metis append_Nil2 append_take_drop_id filter_append)
qed

lemma length_removeAll_member:
  assumes "distinct xs" and "x \<in> set xs"
  shows "length xs = Suc (length (removeAll x xs))"
  using length_pos_if_in_set [OF assms(2)] assms(2)
  by (simp add: distinct_remove1_removeAll [OF assms(1), symmetric] length_remove1)

lemma serve_each_inv:
  assumes "serve_each srv is s = Inr s'" and "P s"
    and "\<And>s i s'. i \<in> set is \<Longrightarrow> P s \<Longrightarrow> srv s i = Inr s' \<Longrightarrow> P s'"
  shows "P s'"
  using assms
proof (induction "is" arbitrary: s)
  case (Cons i "is")
  from Cons.prems(1) obtain t where t: "srv s i = Inr t" "serve_each srv is t = Inr s'"
    by (auto split: sum.splits)
  have "P t" using Cons.prems(3) [OF _ Cons.prems(2) t(1)] by simp
  then show ?case using Cons.IH [OF t(2)] Cons.prems(3) by auto
qed simp

lemma scan_inv_ready:
  assumes "scan rdy srv stop is nready s = Inr s'" and "P s"
    and "\<And>s i s'. i \<in> set is \<Longrightarrow> P s \<Longrightarrow> rdy s i = Inr True \<Longrightarrow> srv s i = Inr s' \<Longrightarrow> P s'"
  shows "P s'"
  using assms
proof (induction "is" arbitrary: s nready)
  case (Cons i "is")
  show ?case
  proof (cases "rdy s i = Inr True")
    case False
    with Cons.prems(1) have "scan rdy srv stop is nready s = Inr s'" by (auto split: sum.splits bool.splits)
    then show ?thesis by (rule Cons.IH [OF _ Cons.prems(2)]) (rule Cons.prems(3); simp)
  next
    case True
    with Cons.prems(1) obtain t where t: "srv s i = Inr t"
      and c: "t = s' \<or> scan rdy srv stop is (nready - 1) t = Inr s'"
      by (auto split: sum.splits if_splits)
    have "P t" using Cons.prems(3) [OF _ Cons.prems(2) True t] by simp
    from c show ?thesis
    proof
      assume "scan rdy srv stop is (nready - 1) t = Inr s'"
      then show ?thesis by (rule Cons.IH [OF _ \<open>P t\<close>]) (rule Cons.prems(3); simp)
    qed (use \<open>P t\<close> in simp)
  qed
qed simp

lemma scan_inv:
  assumes "scan rdy srv stop is nready s = Inr s'" and "P s"
    and "\<And>s i s'. i \<in> set is \<Longrightarrow> P s \<Longrightarrow> srv s i = Inr s' \<Longrightarrow> P s'"
  shows "P s'"
  using assms(1,2) by (rule scan_inv_ready) (rule assms(3))

text \<open>
  Serving one entry leaves the readiness of the others alone. Then stopping at the announced count
  loses nothing: the entries behind the last ready one are not even looked at.
\<close>

locale ready_loop =
  fixes rdy :: "'s \<Rightarrow> nat \<Rightarrow> bool outcome" and srv :: "'s \<Rightarrow> nat \<Rightarrow> 's outcome"
  assumes frame: "srv s i = Inr s' \<Longrightarrow> j \<noteq> i \<Longrightarrow> rdy s' j = rdy s j"
begin

lemma scan_exact:
  assumes "distinct js" and "\<forall>j \<in> set js. rdy s j = Inr (R j)" and "filter R js \<noteq> []"
    and "nready = int (length (filter R js))"
    and stop: "\<And>n. 0 \<le> n \<Longrightarrow> stop n \<longleftrightarrow> n = 0"
  shows "scan rdy srv stop (js @ ks) nready s = serve_each srv (filter R js) s"
  using assms(1-4)
proof (induction js arbitrary: nready s)
  case (Cons j js)
  show ?case
  proof (cases "R j")
    case False
    with Cons show ?thesis by simp
  next
    case True
    show ?thesis
    proof (cases "srv s j")
      case (Inr s')
      have fr: "\<forall>i \<in> set js. rdy s' i = Inr (R i)"
        using Cons.prems(1,2) frame [OF Inr] by fastforce
      show ?thesis
      proof (cases "filter R js = []")
        case True
        with \<open>R j\<close> Cons.prems Inr stop [of 0] show ?thesis by simp
      next
        case False
        have "scan rdy srv stop (js @ ks) (nready - 1) s' = serve_each srv (filter R js) s'"
          using Cons.IH [OF _ fr False, of "nready - 1"] Cons.prems \<open>R j\<close> by simp
        moreover have "\<not> stop (nready - 1)"
          using stop [of "nready - 1"] Cons.prems(4) \<open>R j\<close> False by simp
        ultimately show ?thesis using \<open>R j\<close> Cons.prems Inr by simp
      qed
    qed (use True Cons.prems in simp)
  qed
qed simp

text \<open>A pass that fails fails in serving an entry, of which what was known before the pass still holds.\<close>

lemma scan_error:
  assumes "scan rdy srv stop js nready s = Inl e" and "distinct js"
    and "\<And>j. j \<in> set js \<Longrightarrow> \<exists>b. rdy s j = Inr b" and "\<And>j. j \<in> set js \<Longrightarrow> rdy s j = Inr True \<Longrightarrow> Q s j"
    and "\<And>s i s' j. srv s i = Inr s' \<Longrightarrow> j \<noteq> i \<Longrightarrow> Q s j \<Longrightarrow> Q s' j"
  shows "\<exists>t i. i \<in> set js \<and> Q t i \<and> srv t i = Inl e"
  using assms(1-4)
proof (induction js arbitrary: nready s)
  case (Cons j js)
  from Cons.prems(3) [of j] obtain b where b: "rdy s j = Inr b" by auto
  show ?case
  proof (cases "b \<and> (\<exists>s'. srv s j = Inr s')")
    case False
    show ?thesis
    proof (cases b)
      case True
      with False b Cons.prems(1) have "srv s j = Inl e" by (auto split: sum.splits)
      moreover have "Q s j" using Cons.prems(4) b True by simp
      ultimately show ?thesis by auto
    next
      case False
      with b Cons.prems Cons.IH [of nready s] show ?thesis by auto
    qed
  next
    case True
    then obtain t where t: "srv s j = Inr t" by blast
    have f: "rdy t i = rdy s i" if "i \<in> set js" for i by (rule frame [OF t]) (use that Cons.prems(2) in auto)
    from True b t Cons.prems(1) have "scan rdy srv stop js (nready - 1) t = Inl e" by (auto split: if_splits)
    moreover have "Q t i" if "i \<in> set js" "rdy t i = Inr True" for i
      using assms(5) [OF t, of i] Cons.prems(2,4) that f by auto
    ultimately have "\<exists>u i. i \<in> set js \<and> Q u i \<and> srv u i = Inl e"
      using Cons.IH [of "nready - 1" t] Cons.prems(2,3) f by auto
    then show ?thesis by auto
  qed
qed simp

lemma scan_none:
  assumes "\<forall>j \<in> set js. rdy s j = Inr False"
  shows "scan rdy srv stop js nready s = Inr s"
  using assms by (induction js) auto

end

end
