(* ===== verification/Select_Server.thy ===== *)
theory Select_Server
  imports Ready_Loop
begin

text \<open>
  The single-process echo servers \<open>tcpcliserv/tcpservselect01.c\<close> and
  \<open>tcpcliserv/tcpservpoll01.c\<close>: one table of clients and one pass over it for every return of
  \<open>select\<close> or \<open>poll\<close>.

  What the kernel answers during one round of the loop is a record: the ready descriptors and their
  number, the descriptor \<open>accept\<close> returns (the \<open>Accept\<close> wrapper retries aborted connections; a negative
  number is another error), what \<open>read\<close> returns on each descriptor, and whether \<open>writen\<close> and \<open>close\<close> work.
  A fd_set is the list of its members; \<open>FD_SET\<close> outside \<open>0 .. FD_SETSIZE - 1\<close> is undefined.
\<close>

record kready =
  k_rset :: "int list"
  k_nready :: int
  k_accept :: int
  k_read :: "int \<Rightarrow> errno + byte list"
  k_writen :: "int \<Rightarrow> bool"
  k_closes :: "int \<Rightarrow> bool"

datatype action = Accepted int | Echoed int "byte list" | Closed int

subsection \<open>The select server\<close>

record selsrv =
  sl_listen :: int
  sl_client :: "int list"
  sl_maxi :: int
  sl_maxfd :: int
  sl_allset :: "int list"
  sl_acts :: "action list"

definition sel_init :: "int \<Rightarrow> selsrv outcome" where
  "sel_init listenfd =
     (if 0 \<le> listenfd \<and> listenfd < int FD_SETSIZE
      then Inr \<lparr>sl_listen = listenfd, sl_client = replicate FD_SETSIZE (-1), sl_maxi = -1,
        sl_maxfd = listenfd, sl_allset = [listenfd], sl_acts = []\<rparr>
      else Inl (Undefined Buffer_overflow))"

definition sel_ready :: "kready \<Rightarrow> selsrv \<Rightarrow> nat \<Rightarrow> bool outcome" where
  "sel_ready k s i = (let sockfd = sl_client s ! i in Inr (0 \<le> sockfd \<and> sockfd \<in> set (k_rset k)))"

definition sel_serve :: "kready \<Rightarrow> selsrv \<Rightarrow> nat \<Rightarrow> selsrv outcome" where
  "sel_serve k s i =
     (let sockfd = sl_client s ! i in
      case k_read k sockfd of
        Inl _ \<Rightarrow> Inl (Err_sys ''read error'')
      | Inr [] \<Rightarrow>
          if k_closes k sockfd
          then Inr (s\<lparr>sl_allset := removeAll sockfd (sl_allset s), sl_client := (sl_client s)[i := -1],
                      sl_acts := sl_acts s @ [Closed sockfd]\<rparr>)
          else Inl (Err_sys ''close error'')
      | Inr buf \<Rightarrow>
          if k_writen k sockfd then Inr (s\<lparr>sl_acts := sl_acts s @ [Echoed sockfd buf]\<rparr>)
          else Inl (Err_sys ''writen error''))"

text \<open>A new connection.\<close>

definition sel_accept :: "kready \<Rightarrow> selsrv \<Rightarrow> selsrv outcome" where
  "sel_accept k s =
     (let connfd = k_accept k; i = find_slot (\<lambda>fd. fd < 0) (sl_client s) in
      if connfd < 0 then Inl (Err_sys ''accept error'')
      else if i = FD_SETSIZE then Inl (Err_quit ''too many clients'')
      else if int FD_SETSIZE \<le> connfd then Inl (Undefined Buffer_overflow)
      else Inr (s\<lparr>sl_client := (sl_client s)[i := connfd], sl_allset := sl_allset s @ [connfd],
                  sl_maxfd := max connfd (sl_maxfd s), sl_maxi := max (int i) (sl_maxi s),
                  sl_acts := sl_acts s @ [Accepted connfd]\<rparr>))"

text \<open>The pass over the clients, and one round of the \<open>for ( ; ; )\<close> loop.\<close>

definition sel_pass :: "kready \<Rightarrow> int \<Rightarrow> selsrv \<Rightarrow> selsrv outcome" where
  "sel_pass k nready s =
     scan (sel_ready k) (sel_serve k) (\<lambda>n. n \<le> 0) [0..<nat (sl_maxi s + 1)] nready s"

definition sel_round :: "kready \<Rightarrow> selsrv \<Rightarrow> selsrv outcome" where
  "sel_round k s =
     (if k_nready k < 0 then Inl (Err_sys ''select error'')
      else if sl_listen s \<in> set (k_rset k) then
        (case sel_accept k s of
           Inl e \<Rightarrow> Inl e
         | Inr s \<Rightarrow> if k_nready k - 1 \<le> 0 then Inr s else sel_pass k (k_nready k - 1) s)
      else sel_pass k (k_nready k) s)"

subsection \<open>The poll server\<close>

text \<open>
  An entry is the descriptor and \<open>revents\<close>, reduced to \<open>revents & (POLLRDNORM | POLLERR)\<close>; \<open>None\<close> is memory
  that was never written. \<open>poll\<close> writes it for the entries \<open>0 .. maxi\<close>, with 0 where the descriptor is
  negative. \<open>OPEN_MAX\<close>, the size of the table, is the system's.
\<close>

record pollsrv =
  pl_client :: "(int \<times> bool option) list"
  pl_maxi :: nat
  pl_acts :: "action list"

definition poll_init :: "nat \<Rightarrow> int \<Rightarrow> pollsrv" where
  "poll_init open_max listenfd =
     \<lparr>pl_client = (listenfd, None) # replicate (open_max - 1) (-1, None), pl_maxi = 0, pl_acts = []\<rparr>"

definition poll_answer :: "kready \<Rightarrow> pollsrv \<Rightarrow> pollsrv" where
  "poll_answer k s =
     s\<lparr>pl_client := map (\<lambda>(fd, r). (fd, Some (0 \<le> fd \<and> fd \<in> set (k_rset k)))) (take (Suc (pl_maxi s)) (pl_client s)) @
                    drop (Suc (pl_maxi s)) (pl_client s)\<rparr>"

definition poll_ready :: "pollsrv \<Rightarrow> nat \<Rightarrow> bool outcome" where
  "poll_ready s i =
     (let (sockfd, revents) = pl_client s ! i in
      if sockfd < 0 then Inr False
      else case revents of None \<Rightarrow> Inl (Undefined Uninit_read) | Some r \<Rightarrow> Inr r)"

definition poll_drop :: "kready \<Rightarrow> pollsrv \<Rightarrow> nat \<Rightarrow> pollsrv outcome" where
  "poll_drop k s i =
     (let (sockfd, r) = pl_client s ! i in
      if k_closes k sockfd
      then Inr (s\<lparr>pl_client := (pl_client s)[i := (-1, r)], pl_acts := pl_acts s @ [Closed sockfd]\<rparr>)
      else Inl (Err_sys ''close error''))"

definition poll_serve :: "kready \<Rightarrow> pollsrv \<Rightarrow> nat \<Rightarrow> pollsrv outcome" where
  "poll_serve k s i =
     (let sockfd = fst (pl_client s ! i) in
      case k_read k sockfd of
        Inl e \<Rightarrow> if e = ECONNRESET then poll_drop k s i else Inl (Err_sys ''read error'')
      | Inr [] \<Rightarrow> poll_drop k s i
      | Inr buf \<Rightarrow>
          if k_writen k sockfd then Inr (s\<lparr>pl_acts := pl_acts s @ [Echoed sockfd buf]\<rparr>)
          else Inl (Err_sys ''writen error''))"

definition poll_accept :: "kready \<Rightarrow> pollsrv \<Rightarrow> pollsrv outcome" where
  "poll_accept k s =
     (let connfd = k_accept k; i = Suc (find_slot (\<lambda>c. fst c < 0) (tl (pl_client s))) in
      if connfd < 0 then Inl (Err_sys ''accept error'')
      else if i = length (pl_client s) then Inl (Err_quit ''too many clients'')
      else Inr (s\<lparr>pl_client := (pl_client s)[i := (connfd, snd (pl_client s ! i))],
                  pl_maxi := max i (pl_maxi s), pl_acts := pl_acts s @ [Accepted connfd]\<rparr>))"

definition poll_pass :: "kready \<Rightarrow> int \<Rightarrow> pollsrv \<Rightarrow> pollsrv outcome" where
  "poll_pass k nready s =
     scan poll_ready (poll_serve k) (\<lambda>n. n \<le> 0) [1..<Suc (pl_maxi s)] nready s"

definition poll_round :: "kready \<Rightarrow> pollsrv \<Rightarrow> pollsrv outcome" where
  "poll_round k s0 =
     (if k_nready k < 0 then Inl (Err_sys ''poll error'')
      else
        (let s = poll_answer k s0 in
         case snd (hd (pl_client s)) of
           None \<Rightarrow> Inl (Undefined Uninit_read)
         | Some True \<Rightarrow>
             (case poll_accept k s of
                Inl e \<Rightarrow> Inl e
              | Inr s \<Rightarrow> if k_nready k - 1 \<le> 0 then Inr s else poll_pass k (k_nready k - 1) s)
         | Some False \<Rightarrow> poll_pass k (k_nready k) s))"

subsection \<open>The invariant of the select server\<close>

definition sel_live :: "selsrv \<Rightarrow> int list" where
  "sel_live s = filter (\<lambda>fd. 0 \<le> fd) (sl_client s)"

definition sel_inv :: "selsrv \<Rightarrow> bool" where
  "sel_inv s \<longleftrightarrow>
     length (sl_client s) = FD_SETSIZE \<and> distinct (sel_live s) \<and>
     set (sl_allset s) = insert (sl_listen s) (set (sel_live s)) \<and>
     sl_listen s \<notin> set (sel_live s) \<and> 0 \<le> sl_listen s \<and>
     (\<forall>fd \<in> set (sl_allset s). fd \<le> sl_maxfd s) \<and> sl_maxfd s < int FD_SETSIZE \<and>
     -1 \<le> sl_maxi s \<and> sl_maxi s < int FD_SETSIZE \<and>
     (\<forall>i < FD_SETSIZE. sl_maxi s < int i \<longrightarrow> sl_client s ! i < 0)"

text \<open>
  What \<open>select\<close> and \<open>accept\<close> promise: the ready descriptors are some of those asked about, at least
  one, counted exactly, and a new descriptor is not in use.
\<close>

definition sel_promise :: "selsrv \<Rightarrow> kready \<Rightarrow> bool" where
  "sel_promise s k \<longleftrightarrow>
     set (k_rset k) \<subseteq> set (sl_allset s) \<and> distinct (k_rset k) \<and> k_rset k \<noteq> [] \<and>
     k_nready k = int (length (k_rset k)) \<and> k_accept k \<notin> set (sl_allset s)"

text \<open>No error on a ready client.\<close>

definition calm :: "kready \<Rightarrow> bool" where
  "calm k \<longleftrightarrow> (\<forall>fd \<in> set (k_rset k). (\<exists>d. k_read k fd = Inr d) \<and> k_writen k fd \<and> k_closes k fd)"

definition echo_act :: "kready \<Rightarrow> int \<Rightarrow> action" where
  "echo_act k fd = (case k_read k fd of Inr (b # bs) \<Rightarrow> Echoed fd (b # bs) | _ \<Rightarrow> Closed fd)"

lemma sel_serve_frame: "sel_serve k s i = Inr s' \<Longrightarrow> j \<noteq> i \<Longrightarrow> sl_client s' ! j = sl_client s ! j"
  by (auto simp: sel_serve_def Let_def split: sum.splits list.splits if_splits)

interpretation sel: ready_loop "sel_ready k" "sel_serve k" for k
  by unfold_locales (simp add: sel_ready_def sel_serve_frame)

lemma sel_inv_drop:
  assumes "sel_inv s" and "i < FD_SETSIZE" and "0 \<le> sl_client s ! i"
  shows "sel_inv (s\<lparr>sl_allset := removeAll (sl_client s ! i) (sl_allset s), sl_client := (sl_client s)[i := -1], sl_acts := a\<rparr>)
    \<and> set (filter (\<lambda>fd. 0 \<le> fd) ((sl_client s)[i := -1])) = set (sel_live s) - {sl_client s ! i}"
proof -
  have len: "length (sl_client s) = FD_SETSIZE" using assms(1) by (simp add: sel_inv_def)
  obtain A B where AB: "filter (\<lambda>fd. 0 \<le> fd) (sl_client s) = A @ sl_client s ! i # B"
      "filter (\<lambda>fd. 0 \<le> fd) ((sl_client s)[i := -1]) = A @ B"
    using filter_update_remove [of i "sl_client s" "\<lambda>fd. 0 \<le> fd" "-1"] assms(2,3) len by auto
  have d: "distinct (A @ sl_client s ! i # B)" using assms(1) AB(1) by (simp add: sel_inv_def sel_live_def)
  then have eq: "set (A @ B) = set (sel_live s) - {sl_client s ! i}" by (auto simp: sel_live_def AB(1))
  moreover have "(sl_client s)[i := -1] ! j < 0" if "j < FD_SETSIZE" "sl_maxi s < int j" for j
    using that assms(1) len by (cases "j = i") (auto simp: sel_inv_def)
  ultimately show ?thesis using assms(1) d AB by (auto simp: sel_inv_def sel_live_def)
qed

lemma sel_serve_spec:
  assumes "sel_inv s" and "i < FD_SETSIZE" and "0 \<le> sl_client s ! i" and "sl_client s ! i \<in> set (k_rset k)" and "calm k"
  shows "\<exists>s'. sel_serve k s i = Inr s' \<and> sel_inv s' \<and> sl_listen s' = sl_listen s \<and>
    sl_acts s' = sl_acts s @ [echo_act k (sl_client s ! i)] \<and>
    set (sel_live s') = set (sel_live s) - {fd. fd = sl_client s ! i \<and> k_read k fd = Inr []}"
proof -
  let ?fd = "sl_client s ! i"
  obtain d where d: "k_read k ?fd = Inr d" "k_writen k ?fd" "k_closes k ?fd" using assms(4,5) by (auto simp: calm_def)
  show ?thesis
  proof (cases d)
    case Nil
    with d sel_inv_drop [OF assms(1-3), of "sl_acts s @ [Closed ?fd]"] show ?thesis
      by (auto simp: sel_serve_def echo_act_def sel_live_def Let_def)
  next
    case (Cons b bs)
    with d assms(1) show ?thesis
      by (auto simp: sel_serve_def echo_act_def sel_live_def sel_inv_def Let_def)
  qed
qed

lemma sel_serve_each:
  assumes "calm k" and "sel_inv s" and "distinct is"
    and "\<forall>i \<in> set is. i < FD_SETSIZE \<and> 0 \<le> sl_client s ! i \<and> sl_client s ! i \<in> set (k_rset k)"
  shows "\<exists>s'. serve_each (sel_serve k) is s = Inr s' \<and> sel_inv s' \<and> sl_listen s' = sl_listen s \<and>
    sl_acts s' = sl_acts s @ map (echo_act k) (map (nth (sl_client s)) is) \<and>
    set (sel_live s') = set (sel_live s) - {fd \<in> set (map (nth (sl_client s)) is). k_read k fd = Inr []}"
  using assms(2-4)
proof (induction "is" arbitrary: s)
  case (Cons i "is")
  then obtain t where t: "sel_serve k s i = Inr t" "sel_inv t" "sl_listen t = sl_listen s"
      "sl_acts t = sl_acts s @ [echo_act k (sl_client s ! i)]"
      "set (sel_live t) = set (sel_live s) - {fd. fd = sl_client s ! i \<and> k_read k fd = Inr []}"
    using sel_serve_spec [OF _ _ _ _ assms(1), of s i] by auto
  have fr: "\<forall>j \<in> set is. sl_client t ! j = sl_client s ! j"
    using sel_serve_frame [OF t(1)] Cons.prems(2) by fastforce
  then have m: "map (nth (sl_client t)) is = map (nth (sl_client s)) is" by simp
  from Cons.IH [OF t(2)] Cons.prems fr obtain u where u: "serve_each (sel_serve k) is t = Inr u" "sel_inv u"
      "sl_listen u = sl_listen t" "sl_acts u = sl_acts t @ map (echo_act k) (map (nth (sl_client s)) is)"
      "set (sel_live u) = set (sel_live t) - {fd \<in> set (map (nth (sl_client s)) is). k_read k fd = Inr []}"
    unfolding m by auto
  show ?case using t u by (intro exI [of _ u]) auto
qed auto

lemma sel_pass_spec:
  assumes "calm k" and "sel_inv s" and "distinct (k_rset k)" and "set (k_rset k) - {sl_listen s} \<subseteq> set (sel_live s)"
    and "n = int (length (removeAll (sl_listen s) (k_rset k)))" and "0 < n"
  shows "\<exists>s'. sel_pass k n s = Inr s' \<and> sel_inv s' \<and> sl_listen s' = sl_listen s \<and>
    sl_acts s' = sl_acts s @ map (echo_act k) (filter (\<lambda>fd. fd \<in> set (k_rset k)) (sel_live s)) \<and>
    set (sel_live s') = set (sel_live s) - {fd \<in> set (k_rset k). k_read k fd = Inr []}"
proof -
  let ?P = "\<lambda>fd. 0 \<le> fd \<and> fd \<in> set (k_rset k)"
  let ?R = "\<lambda>i. ?P (sl_client s ! i)"
  let ?js = "[0..<nat (sl_maxi s + 1)]"
  have inv: "length (sl_client s) = FD_SETSIZE" "distinct (sel_live s)" "sl_maxi s < int FD_SETSIZE"
      "sl_listen s \<notin> set (sel_live s)" "0 \<le> sl_listen s"
      "\<And>i. i < FD_SETSIZE \<Longrightarrow> sl_maxi s < int i \<Longrightarrow> sl_client s ! i < 0"
    using assms(2) by (auto simp: sel_inv_def)
  have "filter ?P (take (nat (sl_maxi s + 1)) (sl_client s)) = filter ?P (sl_client s)"
    using inv by (intro filter_take_all) (auto simp: not_le)
  then have m: "map (nth (sl_client s)) (filter ?R ?js) = filter (\<lambda>fd. fd \<in> set (k_rset k)) (sel_live s)"
    using map_nth_filter [of "nat (sl_maxi s + 1)" "sl_client s" ?P 0] inv
    by (simp add: sel_live_def conj_commute)
  have sub: "set (filter (\<lambda>fd. fd \<in> set (k_rset k)) (sel_live s)) = set (removeAll (sl_listen s) (k_rset k))"
    using assms(4) inv(4) by auto
  have "length (filter (\<lambda>fd. fd \<in> set (k_rset k)) (sel_live s)) = length (removeAll (sl_listen s) (k_rset k))"
    using arg_cong [OF sub, of card] assms(3) inv(2) by (simp add: distinct_card distinct_removeAll del: set_filter set_removeAll)
  then have len: "n = int (length (filter ?R ?js))"
    using arg_cong [OF m, of length] assms(5) by simp
  have scan: "scan (sel_ready k) (sel_serve k) (\<lambda>n. n \<le> 0) (?js @ []) n s = serve_each (sel_serve k) (filter ?R ?js) s"
    by (rule sel.scan_exact) (use len assms(6) in \<open>auto simp: sel_ready_def Let_def\<close>)
  have rdy: "\<forall>i \<in> set (filter ?R ?js). i < FD_SETSIZE \<and> 0 \<le> sl_client s ! i \<and> sl_client s ! i \<in> set (k_rset k)"
    using inv(3) by auto
  have "distinct (filter ?R ?js)" by simp
  from sel_serve_each [OF assms(1,2) this rdy, unfolded m] obtain s' where
    "serve_each (sel_serve k) (filter ?R ?js) s = Inr s'" "sel_inv s'" "sl_listen s' = sl_listen s"
    "sl_acts s' = sl_acts s @ map (echo_act k) (filter (\<lambda>fd. fd \<in> set (k_rset k)) (sel_live s))"
    "set (sel_live s') = set (sel_live s) -
      {fd \<in> set (filter (\<lambda>fd. fd \<in> set (k_rset k)) (sel_live s)). k_read k fd = Inr []}" by blast
  moreover have "set (sel_live s) - {fd \<in> set (filter (\<lambda>fd. fd \<in> set (k_rset k)) (sel_live s)). k_read k fd = Inr []} =
      set (sel_live s) - {fd \<in> set (k_rset k). k_read k fd = Inr []}" by auto
  ultimately show ?thesis using scan by (intro exI [of _ s']) (simp add: sel_pass_def)
qed

text \<open>
  The table has a free entry whenever all descriptors are below \<open>FD_SETSIZE\<close>: the listening
  descriptor takes one of the numbers that the clients would need to fill it.
\<close>

lemma sel_slot_free:
  assumes "sel_inv s"
  shows "find_slot (\<lambda>fd. fd < 0) (sl_client s) < FD_SETSIZE"
proof (rule ccontr)
  assume "\<not> ?thesis"
  with find_slot_le [of "\<lambda>fd. fd < 0" "sl_client s"] assms
  have "find_slot (\<lambda>fd. fd < 0) (sl_client s) = length (sl_client s)" by (simp add: sel_inv_def)
  then have "\<forall>fd \<in> set (sl_client s). 0 \<le> fd" by (auto simp: find_slot_none)
  then have l: "sel_live s = sl_client s" by (simp add: sel_live_def filter_id_conv)
  then have "card (set (sl_client s)) = FD_SETSIZE" using assms by (simp add: sel_inv_def distinct_card)
  moreover have "fd \<in> {0..<int FD_SETSIZE} - {sl_listen s}" if "fd \<in> set (sl_client s)" for fd
  proof -
    have "fd \<le> sl_maxfd s" "sl_maxfd s < int FD_SETSIZE" using assms that l by (simp_all add: sel_inv_def)
    then have "fd < int FD_SETSIZE" by linarith
    then show ?thesis using assms that l \<open>\<forall>fd \<in> set (sl_client s). 0 \<le> fd\<close> by (auto simp: sel_inv_def)
  qed
  then have "set (sl_client s) \<subseteq> {0..<int FD_SETSIZE} - {sl_listen s}" by blast
  then have "card (set (sl_client s)) \<le> card ({0..<int FD_SETSIZE} - {sl_listen s})"
    by (intro card_mono) auto
  moreover have "sl_listen s \<in> {0..<int FD_SETSIZE}" using assms by (auto simp: sel_inv_def)
  ultimately show False by (simp add: FD_SETSIZE_def)
qed

lemma sel_accept_spec:
  assumes "sel_inv s" and "0 \<le> k_accept k" and "k_accept k < int FD_SETSIZE"
    and "k_accept k \<notin> set (sl_allset s)" and "k_accept k \<notin> set (k_rset k)"
  shows "\<exists>s'. sel_accept k s = Inr s' \<and> sel_inv s' \<and> sl_listen s' = sl_listen s \<and>
    sl_acts s' = sl_acts s @ [Accepted (k_accept k)] \<and> set (sel_live s') = insert (k_accept k) (set (sel_live s)) \<and>
    filter (\<lambda>fd. fd \<in> set (k_rset k)) (sel_live s') = filter (\<lambda>fd. fd \<in> set (k_rset k)) (sel_live s)"
proof -
  let ?i = "find_slot (\<lambda>fd. fd < 0) (sl_client s)" and ?c = "k_accept k"
  have len: "length (sl_client s) = FD_SETSIZE" using assms(1) by (simp add: sel_inv_def)
  have i: "?i < FD_SETSIZE" by (rule sel_slot_free [OF assms(1)])
  then have neg: "sl_client s ! ?i < 0" using find_slot_free len by metis
  obtain A B where AB: "filter (\<lambda>fd. 0 \<le> fd) (sl_client s) = A @ B"
      "filter (\<lambda>fd. 0 \<le> fd) ((sl_client s)[?i := ?c]) = A @ ?c # B"
    using filter_update_add [of ?i "sl_client s" "\<lambda>fd. 0 \<le> fd" ?c] i neg len assms(2) by auto
  have new: "?c \<notin> set (A @ B)" using assms(1,4) AB(1) by (simp add: sel_inv_def sel_live_def)
  define s' where "s' = s\<lparr>sl_client := (sl_client s)[?i := ?c], sl_allset := sl_allset s @ [?c],
    sl_maxfd := max ?c (sl_maxfd s), sl_maxi := max (int ?i) (sl_maxi s), sl_acts := sl_acts s @ [Accepted ?c]\<rparr>"
  have a: "sel_accept k s = Inr s'" using assms(2,3) i by (simp add: sel_accept_def Let_def s'_def)
  have live: "sel_live s' = A @ ?c # B" "sel_live s = A @ B" by (simp_all add: sel_live_def s'_def AB)
  have "sl_client s' ! j < 0" if "j < FD_SETSIZE" "sl_maxi s' < int j" for j
    using that assms(1) len by (simp add: s'_def sel_inv_def)
  moreover have "distinct (A @ B)" "set (sl_allset s) = insert (sl_listen s) (set (A @ B))"
      "sl_listen s \<notin> set (A @ B)" using assms(1) live(2) by (simp_all add: sel_inv_def)
  moreover have "\<forall>fd \<in> set (sl_allset s'). fd \<le> sl_maxfd s'"
    using assms(1) by (auto simp: s'_def sel_inv_def le_max_iff_disj)
  moreover have "set (sl_allset s') = insert ?c (set (sl_allset s))" "sl_listen s' = sl_listen s"
      "?c \<noteq> sl_listen s" "sl_maxfd s' < int FD_SETSIZE" "-1 \<le> sl_maxi s'" "sl_maxi s' < int FD_SETSIZE"
      "length (sl_client s') = FD_SETSIZE" "0 \<le> sl_listen s"
    using assms(1,3,4) i len by (auto simp: s'_def sel_inv_def)
  ultimately have "sel_inv s'" using new unfolding sel_inv_def live by auto
  then show ?thesis using a live assms(5) by (auto simp: s'_def)
qed

lemma sel_promise_new: "sel_promise s k \<Longrightarrow> k_accept k \<notin> set (k_rset k)"
  by (auto simp: sel_promise_def)

lemma sel_round_spec:
  assumes "sel_inv s" and "sel_promise s k" and "calm k"
    and "sl_listen s \<in> set (k_rset k) \<longrightarrow> 0 \<le> k_accept k \<and> k_accept k < int FD_SETSIZE"
  shows "\<exists>s'. sel_round k s = Inr s' \<and> sel_inv s' \<and> sl_listen s' = sl_listen s \<and>
    sl_acts s' = sl_acts s @ (if sl_listen s \<in> set (k_rset k) then [Accepted (k_accept k)] else []) @
      map (echo_act k) (filter (\<lambda>fd. fd \<in> set (k_rset k)) (sel_live s)) \<and>
    set (sel_live s') = set (sel_live s) - {fd \<in> set (k_rset k). k_read k fd = Inr []} \<union>
      (if sl_listen s \<in> set (k_rset k) then {k_accept k} else {})"
proof (cases "sl_listen s \<in> set (k_rset k)")
  case False
  then have "removeAll (sl_listen s) (k_rset k) = k_rset k" by simp
  moreover have p: "set (k_rset k) - {sl_listen s} \<subseteq> set (sel_live s)" "distinct (k_rset k)"
      "k_nready k = int (length (k_rset k))" "0 < k_nready k"
    using assms(1,2) by (auto simp: sel_promise_def sel_inv_def)
  ultimately show ?thesis
    using sel_pass_spec [OF assms(3,1) p(2,1) _ p(4)] False by (simp add: sel_round_def)
next
  case True
  let ?n = "k_nready k - 1" and ?r = "removeAll (sl_listen s) (k_rset k)"
  have p: "set (k_rset k) \<subseteq> set (sl_allset s)" "distinct (k_rset k)" "k_nready k = int (length (k_rset k))"
      "k_accept k \<notin> set (sl_allset s)" using assms(2) by (simp_all add: sel_promise_def)
  have "length (k_rset k) = Suc (length ?r)"
    by (rule length_removeAll_member [OF p(2) True])
  then have n: "?n = int (length ?r)" using p(3) by simp
  obtain t where t: "sel_accept k s = Inr t" "sel_inv t" "sl_listen t = sl_listen s"
      "sl_acts t = sl_acts s @ [Accepted (k_accept k)]" "set (sel_live t) = insert (k_accept k) (set (sel_live s))"
      "filter (\<lambda>fd. fd \<in> set (k_rset k)) (sel_live t) = filter (\<lambda>fd. fd \<in> set (k_rset k)) (sel_live s)"
    using sel_accept_spec [OF assms(1) _ _ p(4) sel_promise_new [OF assms(2)]] assms(4) True by blast
  have new: "k_accept k \<notin> set (k_rset k)" by (rule sel_promise_new [OF assms(2)])
  show ?thesis
  proof (cases "?r = []")
    case True
    then have "set (k_rset k) \<subseteq> {sl_listen s}" by (auto simp: removeAll_filter_not_eq filter_empty_conv)
    then have "filter (\<lambda>fd. fd \<in> set (k_rset k)) (sel_live s) = []" "set (sel_live s) \<inter> set (k_rset k) = {}"
      using assms(1) by (auto simp: sel_inv_def filter_empty_conv)
    with True n t \<open>sl_listen s \<in> set (k_rset k)\<close> p(3) show ?thesis by (auto simp: sel_round_def)
  next
    case False
    have sub: "set (k_rset k) - {sl_listen t} \<subseteq> set (sel_live t)" using p(1) assms(1) t(3,5) by (auto simp: sel_inv_def)
    have pos: "0 < ?n" using n False by simp
    from sel_pass_spec [OF assms(3) t(2) p(2) sub n [folded t(3)] pos] obtain u where u: "sel_pass k ?n t = Inr u"
        "sel_inv u" "sl_listen u = sl_listen t"
        "sl_acts u = sl_acts t @ map (echo_act k) (filter (\<lambda>fd. fd \<in> set (k_rset k)) (sel_live t))"
        "set (sel_live u) = set (sel_live t) - {fd \<in> set (k_rset k). k_read k fd = Inr []}"
      by blast
    then show ?thesis using True t new p(3) pos by (intro exI [of _ u]) (auto simp: sel_round_def)
  qed
qed

subsection \<open>Runs of the select server\<close>

text \<open>The states at the head of the loop, with an environment that keeps the promises.\<close>

inductive sel_reach :: "int \<Rightarrow> selsrv \<Rightarrow> bool" for listenfd where
  start: "sel_init listenfd = Inr s \<Longrightarrow> sel_reach listenfd s"
| round: "sel_reach listenfd s \<Longrightarrow> sel_promise s k \<Longrightarrow> calm k \<Longrightarrow> sel_round k s = Inr t \<Longrightarrow> sel_reach listenfd t"

lemma sel_inv_init: "sel_init l = Inr s \<Longrightarrow> sel_inv s"
  by (auto simp: sel_init_def sel_inv_def sel_live_def FD_SETSIZE_def split: if_splits)

lemma sel_round_accept_bounds:
  "sel_round k s = Inr t \<Longrightarrow> sl_listen s \<in> set (k_rset k) \<Longrightarrow> 0 \<le> k_accept k \<and> k_accept k < int FD_SETSIZE"
  by (auto simp: sel_round_def sel_accept_def Let_def split: if_splits sum.splits)

lemma sel_reach_inv: "sel_reach l s \<Longrightarrow> sel_inv s \<and> sl_listen s = l"
proof (induction rule: sel_reach.induct)
  case (start s)
  then show ?case using sel_inv_init [OF start] by (auto simp: sel_init_def split: if_splits)
next
  case (round s k t)
  then have "sel_inv s" by simp
  from sel_round_spec [OF this round.hyps(2,3)] round sel_round_accept_bounds [OF round.hyps(4)] show ?case by auto
qed

subsection \<open>The invariant of the poll server\<close>

definition pl_fds :: "pollsrv \<Rightarrow> int list" where
  "pl_fds s = map fst (pl_client s)"

definition pl_live :: "pollsrv \<Rightarrow> int list" where
  "pl_live s = filter (\<lambda>fd. 0 \<le> fd) (pl_fds s)"

definition poll_inv :: "pollsrv \<Rightarrow> bool" where
  "poll_inv s \<longleftrightarrow>
     pl_maxi s < length (pl_fds s) \<and> 0 \<le> pl_fds s ! 0 \<and> distinct (pl_live s) \<and>
     (\<forall>i < length (pl_fds s). pl_maxi s < i \<longrightarrow> pl_fds s ! i < 0)"

definition poll_promise :: "pollsrv \<Rightarrow> kready \<Rightarrow> bool" where
  "poll_promise s k \<longleftrightarrow>
     set (k_rset k) \<subseteq> set (pl_live s) \<and> distinct (k_rset k) \<and> k_rset k \<noteq> [] \<and>
     k_nready k = int (length (k_rset k)) \<and> k_accept k \<notin> set (pl_live s)"

text \<open>No error on a ready client, except that it may have reset its connection.\<close>

definition poll_calm :: "kready \<Rightarrow> bool" where
  "poll_calm k \<longleftrightarrow>
     (\<forall>fd \<in> set (k_rset k). k_read k fd \<in> insert (Inl ECONNRESET) (range Inr) \<and> k_writen k fd \<and> k_closes k fd)"

definition goes_away :: "kready \<Rightarrow> int \<Rightarrow> bool" where
  "goes_away k fd \<longleftrightarrow> k_read k fd = Inr [] \<or> k_read k fd = Inl ECONNRESET"

lemma poll_serve_frame: "poll_serve k s i = Inr s' \<Longrightarrow> j \<noteq> i \<Longrightarrow> pl_client s' ! j = pl_client s ! j"
  by (auto simp: poll_serve_def poll_drop_def Let_def split: sum.splits list.splits if_splits prod.splits)

interpretation pol: ready_loop poll_ready "poll_serve k" for k
  by unfold_locales (simp add: poll_ready_def poll_serve_frame)

lemma poll_serve_spec:
  assumes "poll_inv s" and "0 < i" and "i < length (pl_fds s)" and "pl_fds s ! i \<in> set (k_rset k)"
    and "0 \<le> pl_fds s ! i" and "poll_calm k"
  shows "\<exists>s'. poll_serve k s i = Inr s' \<and> poll_inv s' \<and> pl_fds s' ! 0 = pl_fds s ! 0 \<and>
    length (pl_fds s') = length (pl_fds s) \<and> pl_acts s' = pl_acts s @ [echo_act k (pl_fds s ! i)] \<and>
    set (pl_live s') = set (pl_live s) - {fd. fd = pl_fds s ! i \<and> goes_away k fd}"
proof (cases "goes_away k (pl_fds s ! i)")
  case True
  define t where "t = s\<lparr>pl_client := (pl_client s)[i := (-1, snd (pl_client s ! i))],
    pl_acts := pl_acts s @ [Closed (pl_fds s ! i)]\<rparr>"
  have fst_i: "fst (pl_client s ! i) = pl_fds s ! i" using assms(3) by (simp add: pl_fds_def)
  have r: "poll_serve k s i = Inr t"
    using True assms(4,6) fst_i by (auto simp: poll_serve_def poll_drop_def goes_away_def poll_calm_def Let_def
        t_def split: prod.split)
  have fds: "pl_fds t = (pl_fds s)[i := -1]" by (simp add: t_def pl_fds_def map_update)
  obtain A B where AB: "pl_live s = A @ pl_fds s ! i # B" "pl_live t = A @ B"
    using filter_update_remove [of i "pl_fds s" "\<lambda>fd. 0 \<le> fd" "-1"] assms(3,5) by (auto simp: pl_live_def fds)
  have d: "distinct (A @ pl_fds s ! i # B)" using assms(1) AB(1) by (simp add: poll_inv_def)
  have mx: "pl_maxi t = pl_maxi s" by (simp add: t_def)
  have "pl_fds t ! j < 0" if "j < length (pl_fds t)" "pl_maxi t < j" for j
    using that assms(1) by (cases "j = i") (auto simp: poll_inv_def fds mx)
  then have "poll_inv t" using assms(1,2) d AB(2) by (auto simp: poll_inv_def fds mx)
  moreover have "pl_acts t = pl_acts s @ [echo_act k (pl_fds s ! i)]"
    using True by (auto simp: t_def echo_act_def goes_away_def)
  moreover have "set (pl_live t) = set (pl_live s) - {pl_fds s ! i}" using d AB by auto
  ultimately show ?thesis using r True assms(2) fds by (intro exI [of _ t]) auto
next
  case False
  moreover have "k_read k (pl_fds s ! i) \<in> insert (Inl ECONNRESET) (range Inr)" "k_writen k (pl_fds s ! i)"
    using assms(4,6) unfolding poll_calm_def by blast+
  ultimately obtain b bs where "k_read k (pl_fds s ! i) = Inr (b # bs)" "k_writen k (pl_fds s ! i)"
    by (auto simp: goes_away_def neq_Nil_conv)
  with assms(1,3) False show ?thesis
    by (auto simp: poll_serve_def echo_act_def Let_def poll_inv_def pl_live_def pl_fds_def)
qed

lemma poll_serve_each:
  assumes "poll_calm k" and "poll_inv s" and "distinct is"
    and "\<forall>i \<in> set is. 0 < i \<and> i < length (pl_fds s) \<and> 0 \<le> pl_fds s ! i \<and> pl_fds s ! i \<in> set (k_rset k)"
  shows "\<exists>s'. serve_each (poll_serve k) is s = Inr s' \<and> poll_inv s' \<and> pl_fds s' ! 0 = pl_fds s ! 0 \<and>
    pl_acts s' = pl_acts s @ map (echo_act k) (map (nth (pl_fds s)) is) \<and>
    set (pl_live s') = set (pl_live s) - {fd \<in> set (map (nth (pl_fds s)) is). goes_away k fd}"
  using assms(2-4)
proof (induction "is" arbitrary: s)
  case (Cons i "is")
  then obtain t where t: "poll_serve k s i = Inr t" "poll_inv t" "pl_fds t ! 0 = pl_fds s ! 0"
      "length (pl_fds t) = length (pl_fds s)" "pl_acts t = pl_acts s @ [echo_act k (pl_fds s ! i)]"
      "set (pl_live t) = set (pl_live s) - {fd. fd = pl_fds s ! i \<and> goes_away k fd}"
    using poll_serve_spec [OF _ _ _ _ _ assms(1), of s i] by auto
  have fr: "\<forall>j \<in> set is. pl_fds t ! j = pl_fds s ! j"
    using poll_serve_frame [OF t(1)] Cons.prems(2,3) t(4) by (fastforce simp: pl_fds_def)
  then have m: "map (nth (pl_fds t)) is = map (nth (pl_fds s)) is" by simp
  from Cons.IH [OF t(2)] Cons.prems fr t(4) obtain u where u: "serve_each (poll_serve k) is t = Inr u" "poll_inv u"
      "pl_fds u ! 0 = pl_fds t ! 0" "pl_acts u = pl_acts t @ map (echo_act k) (map (nth (pl_fds s)) is)"
      "set (pl_live u) = set (pl_live t) - {fd \<in> set (map (nth (pl_fds s)) is). goes_away k fd}"
    unfolding m by auto
  show ?case using t u by (intro exI [of _ u]) auto
qed auto

text \<open>
  The pass: the entries \<open>1 .. m\<close> were filled in by \<open>poll\<close>, and none behind them is ready, so a new
  client there, whose \<open>revents\<close> was never written, is not looked at.
\<close>

lemma poll_pass_spec:
  assumes "poll_calm k" and "poll_inv s" and "distinct (k_rset k)" and "set (k_rset k) \<subseteq> set (pl_live s)"
    and "m \<le> pl_maxi s"
    and "\<And>j. 1 \<le> j \<Longrightarrow> j \<le> m \<Longrightarrow> poll_ready s j = Inr (0 \<le> pl_fds s ! j \<and> pl_fds s ! j \<in> set (k_rset k))"
    and "\<And>j. m < j \<Longrightarrow> j < length (pl_fds s) \<Longrightarrow> pl_fds s ! j \<notin> set (k_rset k)"
    and "n = int (length (removeAll (pl_fds s ! 0) (k_rset k)))" and "0 < n"
  shows "\<exists>s'. poll_pass k n s = Inr s' \<and> poll_inv s' \<and> pl_fds s' ! 0 = pl_fds s ! 0 \<and>
    pl_acts s' = pl_acts s @ map (echo_act k) (filter (\<lambda>fd. fd \<in> set (k_rset k)) (tl (pl_live s))) \<and>
    set (pl_live s') = set (pl_live s) - {fd \<in> set (k_rset k) - {pl_fds s ! 0}. goes_away k fd}"
proof -
  let ?P = "\<lambda>fd. 0 \<le> fd \<and> fd \<in> set (k_rset k)"
  let ?R = "\<lambda>i. ?P (pl_fds s ! i)"
  let ?js = "[1..<Suc m]" and ?l = "pl_fds s ! 0"
  have inv: "pl_maxi s < length (pl_fds s)" "0 \<le> ?l" "distinct (pl_live s)" using assms(2) by (auto simp: poll_inv_def)
  obtain fds where fds: "pl_fds s = ?l # fds" using inv(1) by (cases "pl_fds s") auto
  then have live: "pl_live s = ?l # filter (\<lambda>fd. 0 \<le> fd) fds" using inv(2) by (metis filter.simps(2) pl_live_def)
  have "filter ?P (take m fds) = filter ?P fds"
    using assms(7) fds by (intro filter_take_all) (metis Suc_le_eq Suc_less_eq length_Cons nth_Cons_Suc less_Suc_eq_le)
  moreover have "drop 1 (take (Suc m) (pl_fds s)) = take m fds" by (subst fds) simp
  ultimately have m: "map (nth (pl_fds s)) (filter ?R ?js) = filter (\<lambda>fd. fd \<in> set (k_rset k)) (tl (pl_live s))"
    using map_nth_filter [of "Suc m" "pl_fds s" ?P 1] inv(1) assms(5)
    by (simp add: live conj_commute del: upt_Suc)
  have sub: "set (filter (\<lambda>fd. fd \<in> set (k_rset k)) (tl (pl_live s))) = set (removeAll ?l (k_rset k))"
    using assms(4) inv(3) live by auto
  have "distinct (tl (pl_live s))" using inv(3) by (rule distinct_tl)
  then have "length (filter (\<lambda>fd. fd \<in> set (k_rset k)) (tl (pl_live s))) = length (removeAll ?l (k_rset k))"
    using arg_cong [OF sub, of card] assms(3) by (simp add: distinct_card distinct_removeAll del: set_filter set_removeAll)
  then have len: "n = int (length (filter ?R ?js))"
    using arg_cong [OF m, of length] assms(8) by simp
  have scan: "scan poll_ready (poll_serve k) (\<lambda>n. n \<le> 0) (?js @ [Suc m..<Suc (pl_maxi s)]) n s =
      serve_each (poll_serve k) (filter ?R ?js) s"
    by (rule pol.scan_exact) (use len assms(6,9) in \<open>auto simp del: upt_Suc\<close>)
  moreover have "?js @ [Suc m..<Suc (pl_maxi s)] = [1..<Suc (pl_maxi s)]"
    using upt_add_eq_append [of 1 "Suc m" "pl_maxi s - m"] assms(5) by (simp del: upt_Suc)
  ultimately have scan: "poll_pass k n s = serve_each (poll_serve k) (filter ?R ?js) s" by (simp add: poll_pass_def del: upt_Suc)
  have rdy: "\<forall>i \<in> set (filter ?R ?js). 0 < i \<and> i < length (pl_fds s) \<and> 0 \<le> pl_fds s ! i \<and> pl_fds s ! i \<in> set (k_rset k)"
    using inv(1) assms(5) by auto
  have dis: "distinct (filter ?R ?js)" by simp
  from poll_serve_each [OF assms(1,2) dis rdy, unfolded m sub] obtain s' where
    "serve_each (poll_serve k) (filter ?R ?js) s = Inr s'" "poll_inv s'" "pl_fds s' ! 0 = ?l"
    "pl_acts s' = pl_acts s @ map (echo_act k) (filter (\<lambda>fd. fd \<in> set (k_rset k)) (tl (pl_live s)))"
    "set (pl_live s') = set (pl_live s) - {fd \<in> set (removeAll ?l (k_rset k)). goes_away k fd}" by blast
  then show ?thesis using scan by (intro exI [of _ s']) simp
qed

lemma poll_answer_simps [simp]:
  "pl_fds (poll_answer k s) = pl_fds s" "pl_maxi (poll_answer k s) = pl_maxi s"
  "pl_acts (poll_answer k s) = pl_acts s" "length (pl_client (poll_answer k s)) = length (pl_client s)"
proof -
  show f: "pl_fds (poll_answer k s) = pl_fds s"
    unfolding pl_fds_def poll_answer_def
    by (simp add: case_prod_unfold comp_def take_map [symmetric] drop_map [symmetric])
  show "length (pl_client (poll_answer k s)) = length (pl_client s)"
    using arg_cong [OF f, of length] by (simp add: pl_fds_def)
qed (simp_all add: poll_answer_def)

lemma poll_answer_live [simp]:
  "pl_live (poll_answer k s) = pl_live s" "poll_inv (poll_answer k s) = poll_inv s"
  by (simp_all add: pl_live_def poll_inv_def)

lemma poll_answer_nth:
  assumes "j \<le> pl_maxi s" and "pl_maxi s < length (pl_fds s)"
  shows "pl_client (poll_answer k s) ! j = (pl_fds s ! j, Some (0 \<le> pl_fds s ! j \<and> pl_fds s ! j \<in> set (k_rset k)))"
  using assms by (simp add: poll_answer_def pl_fds_def nth_append case_prod_unfold)

lemma poll_accept_spec:
  assumes "poll_inv s" and "0 \<le> k_accept k" and "k_accept k \<notin> set (pl_live s)"
    and "\<exists>fd \<in> set (tl (pl_fds s)). fd < 0"
  shows "\<exists>s' i. poll_accept k s = Inr s' \<and> poll_inv s' \<and> pl_fds s' ! 0 = pl_fds s ! 0 \<and> 1 \<le> i \<and> i < length (pl_fds s) \<and>
    pl_fds s ! i < 0 \<and> pl_fds s' = (pl_fds s)[i := k_accept k] \<and> pl_maxi s \<le> pl_maxi s' \<and>
    pl_client s' = (pl_client s)[i := (k_accept k, snd (pl_client s ! i))] \<and>
    pl_acts s' = pl_acts s @ [Accepted (k_accept k)] \<and>
    (\<exists>A B. tl (pl_live s) = A @ B \<and> tl (pl_live s') = A @ k_accept k # B \<and> pl_live s' \<noteq> [] \<and> hd (pl_live s') = hd (pl_live s))"
proof -
  let ?f = "find_slot (\<lambda>c. fst c < 0) (tl (pl_client s))" and ?c = "k_accept k"
  have ne: "pl_client s \<noteq> []" "pl_fds s \<noteq> []" "0 \<le> pl_fds s ! 0" using assms(1) by (auto simp: poll_inv_def pl_fds_def)
  have "?f \<noteq> length (tl (pl_client s))"
    unfolding find_slot_none using assms(4) by (auto simp: pl_fds_def map_tl [symmetric])
  with find_slot_le [of "\<lambda>c. fst c < 0" "tl (pl_client s)"] have f: "?f < length (tl (pl_client s))" by simp
  then have i: "Suc ?f < length (pl_client s)" using ne by (simp add: less_diff_conv)
  have neg: "pl_fds s ! Suc ?f < 0"
    using find_slot_free [OF f] f i by (simp add: pl_fds_def nth_tl)
  define t where "t = s\<lparr>pl_client := (pl_client s)[Suc ?f := (?c, snd (pl_client s ! Suc ?f))],
    pl_maxi := max (Suc ?f) (pl_maxi s), pl_acts := pl_acts s @ [Accepted ?c]\<rparr>"
  have r: "poll_accept k s = Inr t" using assms(2) i by (simp add: poll_accept_def Let_def t_def)
  have fds: "pl_fds t = (pl_fds s)[Suc ?f := ?c]" by (simp add: t_def pl_fds_def map_update)
  obtain l fs where lfs: "pl_fds s = l # fs" using ne(2) by (cases "pl_fds s") auto
  then have l: "0 \<le> l" using ne(3) by simp
  have tf: "pl_fds t = l # fs[?f := ?c]" using fds lfs by simp
  obtain A B where AB: "filter (\<lambda>fd. 0 \<le> fd) fs = A @ B" "filter (\<lambda>fd. 0 \<le> fd) (fs[?f := ?c]) = A @ ?c # B"
    using filter_update_add [of ?f fs "\<lambda>fd. 0 \<le> fd" ?c] neg lfs i assms(2) by (auto simp: pl_fds_def)
  have live: "pl_live s = l # A @ B" "pl_live t = l # A @ ?c # B"
    using l AB by (simp_all add: pl_live_def lfs tf)
  have "pl_fds t ! j < 0" if "j < length (pl_fds t)" "pl_maxi t < j" for j
    using that assms(1) unfolding fds by (auto simp: t_def poll_inv_def)
  moreover have "pl_maxi t < length (pl_fds t)" using assms(1) i by (auto simp: t_def poll_inv_def pl_fds_def)
  moreover have "distinct (pl_live t)" using assms(1,3) live by (auto simp: poll_inv_def)
  ultimately have inv: "poll_inv t" using l tf by (auto simp: poll_inv_def)
  have "Suc ?f < length (pl_fds s)" using i by (simp add: pl_fds_def)
  moreover have "pl_fds t ! 0 = pl_fds s ! 0" using tf lfs by simp
  moreover have "1 \<le> Suc ?f" "pl_maxi s \<le> pl_maxi t" "pl_acts t = pl_acts s @ [Accepted ?c]"
      "pl_client t = (pl_client s)[Suc ?f := (?c, snd (pl_client s ! Suc ?f))]"
    by (simp_all add: t_def)
  ultimately show ?thesis using r inv neg fds live by fastforce
qed

lemma poll_live_hd: "poll_inv s \<Longrightarrow> pl_live s = pl_fds s ! 0 # tl (pl_live s)"
  by (cases "pl_fds s") (auto simp: poll_inv_def pl_live_def)

text \<open>What \<open>poll\<close> has stored when the pass begins.\<close>

lemma poll_answer_head:
  assumes "poll_inv s"
  shows "snd (hd (pl_client (poll_answer k s))) = Some (pl_fds s ! 0 \<in> set (k_rset k))"
proof -
  have inv: "pl_maxi s < length (pl_fds s)" "0 \<le> pl_fds s ! 0" using assms by (auto simp: poll_inv_def)
  then have "pl_client s \<noteq> []" by (auto simp: pl_fds_def)
  then have "hd (pl_client (poll_answer k s)) = pl_client (poll_answer k s) ! 0"
    by (metis hd_conv_nth length_0_conv poll_answer_simps(4))
  then show ?thesis using poll_answer_nth [of 0 s k] inv by simp
qed

lemma poll_answer_ready:
  assumes "poll_inv s" and "j \<le> pl_maxi s"
  shows "poll_ready (poll_answer k s) j = Inr (0 \<le> pl_fds s ! j \<and> pl_fds s ! j \<in> set (k_rset k))"
proof -
  have "pl_maxi s < length (pl_fds s)" using assms(1) by (simp add: poll_inv_def)
  from poll_answer_nth [OF assms(2) this, of k] show ?thesis by (auto simp: poll_ready_def)
qed

lemma poll_unused_not_ready:
  assumes "poll_inv s" and "poll_promise s k" and "pl_maxi s < j" and "j < length (pl_fds s)"
  shows "pl_fds s ! j \<notin> set (k_rset k)"
proof
  assume "pl_fds s ! j \<in> set (k_rset k)"
  then have "0 \<le> pl_fds s ! j" using assms(2) by (auto simp: poll_promise_def pl_live_def)
  moreover have "pl_fds s ! j < 0" using assms(1,3,4) by (simp add: poll_inv_def)
  ultimately show False by simp
qed

lemma poll_round_idle:
  assumes "poll_inv s" and "poll_promise s k" and "poll_calm k" and "pl_fds s ! 0 \<notin> set (k_rset k)"
  shows "\<exists>s'. poll_round k s = Inr s' \<and> poll_inv s' \<and> pl_fds s' ! 0 = pl_fds s ! 0 \<and>
    pl_acts s' = pl_acts s @ map (echo_act k) (filter (\<lambda>fd. fd \<in> set (k_rset k)) (tl (pl_live s))) \<and>
    set (pl_live s') = set (pl_live s) - {fd \<in> set (k_rset k) - {pl_fds s ! 0}. goes_away k fd}"
proof -
  have p: "set (k_rset k) \<subseteq> set (pl_live s)" "distinct (k_rset k)" "k_rset k \<noteq> []"
      "k_nready k = int (length (k_rset k))" using assms(2) by (auto simp: poll_promise_def)
  have "removeAll (pl_fds s ! 0) (k_rset k) = k_rset k" "0 < k_nready k" using assms(4) p(3,4) by simp_all
  with poll_pass_spec [OF assms(3), of "poll_answer k s" "pl_maxi s" "k_nready k"] obtain s' where
    "poll_pass k (k_nready k) (poll_answer k s) = Inr s'" "poll_inv s'" "pl_fds s' ! 0 = pl_fds s ! 0"
    "pl_acts s' = pl_acts s @ map (echo_act k) (filter (\<lambda>fd. fd \<in> set (k_rset k)) (tl (pl_live s)))"
    "set (pl_live s') = set (pl_live s) - {fd \<in> set (k_rset k) - {pl_fds s ! 0}. goes_away k fd}"
    using assms(1) p poll_answer_ready [OF assms(1)] poll_unused_not_ready [OF assms(1,2)] by auto
  with poll_answer_head [OF assms(1), of k] assms(4) p(4) show ?thesis
    by (intro exI [of _ s']) (simp add: poll_round_def Let_def)
qed

text \<open>After a new client was entered, the entries that \<open>poll\<close> filled in are as ready as before.\<close>

lemma poll_accept_ready:
  assumes "poll_inv s" and "1 \<le> j" and "j \<le> pl_maxi s" and "i < length (pl_fds s)" and "pl_fds s ! i < 0"
    and "pl_fds t = (pl_fds s)[i := c]"
    and "pl_client t = (pl_client (poll_answer k s))[i := (c, snd (pl_client (poll_answer k s) ! i))]"
    and "c \<notin> set (k_rset k)"
  shows "poll_ready t j = Inr (0 \<le> pl_fds t ! j \<and> pl_fds t ! j \<in> set (k_rset k))"
proof (cases "j = i")
  case True
  have "pl_maxi s < length (pl_fds s)" using assms(1) by (simp add: poll_inv_def)
  then have "pl_client t ! i = (c, Some False)"
    using True assms(3-5,7) poll_answer_nth [of i s k] by (simp add: pl_fds_def)
  then show ?thesis using True assms(4,6,8) by (simp add: poll_ready_def)
next
  case False
  then show ?thesis using poll_answer_ready [OF assms(1,3), of k] assms(6,7) by (simp add: poll_ready_def)
qed

lemma poll_round_conn:
  assumes "poll_inv s" and "poll_promise s k" and "poll_calm k" and "pl_fds s ! 0 \<in> set (k_rset k)"
    and "0 \<le> k_accept k" and "\<exists>fd \<in> set (tl (pl_fds s)). fd < 0"
  shows "\<exists>s'. poll_round k s = Inr s' \<and> poll_inv s' \<and> pl_fds s' ! 0 = pl_fds s ! 0 \<and>
    pl_acts s' = pl_acts s @ Accepted (k_accept k) #
      map (echo_act k) (filter (\<lambda>fd. fd \<in> set (k_rset k)) (tl (pl_live s))) \<and>
    set (pl_live s') = insert (k_accept k) (set (pl_live s) - {fd \<in> set (k_rset k) - {pl_fds s ! 0}. goes_away k fd})"
proof -
  let ?l = "pl_fds s ! 0" and ?a = "poll_answer k s" and ?m = "pl_maxi s"
  let ?n = "k_nready k - 1" and ?r = "removeAll ?l (k_rset k)"
  have p: "set (k_rset k) \<subseteq> set (pl_live s)" "distinct (k_rset k)"
      "k_nready k = int (length (k_rset k))" "k_accept k \<notin> set (pl_live s)" using assms(2) by (auto simp: poll_promise_def)
  have n: "?n = int (length ?r)" using length_removeAll_member [OF p(2) assms(4)] p(3) by simp
  have "\<exists>fd \<in> set (tl (pl_fds ?a)). fd < 0" using assms(6) by simp
  from poll_accept_spec [of ?a, OF _ assms(5) _ this] assms(1) p(4) obtain t i A B where
    t: "poll_accept k ?a = Inr t" "poll_inv t" "pl_fds t ! 0 = ?l" "i < length (pl_fds s)" "pl_fds s ! i < 0"
      "pl_fds t = (pl_fds s)[i := k_accept k]" "?m \<le> pl_maxi t"
      "pl_client t = (pl_client ?a)[i := (k_accept k, snd (pl_client ?a ! i))]"
      "pl_acts t = pl_acts s @ [Accepted (k_accept k)]"
      "tl (pl_live s) = A @ B" "tl (pl_live t) = A @ k_accept k # B" "1 \<le> i" by auto
  have live: "pl_live s = ?l # A @ B" "pl_live t = ?l # A @ k_accept k # B"
    using poll_live_hd [OF assms(1)] poll_live_hd [OF t(2)] t(3,10,11) by simp_all
  have new: "k_accept k \<notin> set (k_rset k)" using p(1,4) by auto
  have out: "pl_fds t ! j \<notin> set (k_rset k)" if "?m < j" "j < length (pl_fds t)" for j
    using poll_unused_not_ready [OF assms(1,2) that(1)] that(2) t(4,6) new by (cases "j = i") simp_all
  have act: "filter (\<lambda>fd. fd \<in> set (k_rset k)) (tl (pl_live t)) = filter (\<lambda>fd. fd \<in> set (k_rset k)) (tl (pl_live s))"
    using new by (simp add: live)
  note head = poll_answer_head [OF assms(1), of k]
  show ?thesis
  proof (cases "?r = []")
    case True
    then have "set (k_rset k) \<subseteq> {?l}" by (auto simp: removeAll_filter_not_eq filter_empty_conv)
    moreover have "?l \<notin> set (A @ B)" using assms(1) live(1) by (simp add: poll_inv_def)
    ultimately have "filter (\<lambda>fd. fd \<in> set (k_rset k)) (tl (pl_live s)) = []" "set (k_rset k) - {?l} = {}"
      by (auto simp: live filter_empty_conv)
    with True n t(1,2,3,9) live assms(4) p(3) head show ?thesis
      by (intro exI [of _ t]) (auto simp: poll_round_def Let_def)
  next
    case False
    have pos: "0 < ?n" using n False by simp
    have sub: "set (k_rset k) \<subseteq> set (pl_live t)" using p(1) live by auto
    from poll_pass_spec [OF assms(3) t(2) p(2) sub t(7) poll_accept_ready [OF assms(1) _ _ t(4-6,8) new] out
        n [folded t(3)] pos, unfolded act t(3)]
    obtain u where "poll_pass k ?n t = Inr u" "poll_inv u" "pl_fds u ! 0 = ?l"
        "pl_acts u = pl_acts t @ map (echo_act k) (filter (\<lambda>fd. fd \<in> set (k_rset k)) (tl (pl_live s)))"
        "set (pl_live u) = set (pl_live t) - {fd \<in> set (k_rset k) - {?l}. goes_away k fd}" by blast
    then show ?thesis using t(1,9) head assms(4) pos p(3) live new
      by (intro exI [of _ u]) (auto simp: poll_round_def Let_def)
  qed
qed

subsection \<open>Properties\<close>

text \<open>
  C32. One round of the select server, from every state it can reach: when the kernel keeps its
  promises and no system call fails, the round ends, the new connection (if any) is entered, every
  ready client is served in this round, in the order of the table, by echoing exactly what was read
  or by closing at end of file, no other client is touched, and the clients afterwards are the old ones without those
  closed, with the new one. The early exits at \<open>--nready <= 0\<close> lose nothing.
\<close>

theorem select_round_serves:
  assumes "sel_reach l s" and "sel_promise s k" and "calm k"
    and "l \<in> set (k_rset k) \<longrightarrow> 0 \<le> k_accept k \<and> k_accept k < int FD_SETSIZE"
  shows "\<exists>s'. sel_round k s = Inr s' \<and>
    sl_acts s' = sl_acts s @ (if l \<in> set (k_rset k) then [Accepted (k_accept k)] else []) @
      map (echo_act k) (filter (\<lambda>fd. fd \<in> set (k_rset k)) (sel_live s)) \<and>
    set (sel_live s') = set (sel_live s) - {fd \<in> set (k_rset k). k_read k fd = Inr []} \<union>
      (if l \<in> set (k_rset k) then {k_accept k} else {})"
  using sel_reach_inv [OF assms(1)] sel_round_spec [of s k] assms(2-4) by auto

definition demo_ready :: "int list \<Rightarrow> int \<Rightarrow> kready" where
  "demo_ready fds c = \<lparr>k_rset = fds, k_nready = int (length fds), k_accept = c, k_read = (\<lambda>_. Inr [104, 105]),
     k_writen = (\<lambda>_. True), k_closes = (\<lambda>_. True)\<rparr>"

theorem select_round_serves_witness:
  "\<exists>s s'. sel_init 3 = Inr s \<and> sel_round (demo_ready [3] 4) s = Inr s' \<and> sl_acts s' = [Accepted 4] \<and> set (sel_live s') = {4}"
proof -
  obtain s where s: "sel_init 3 = Inr s" by (simp add: sel_init_def FD_SETSIZE_def)
  then have f: "sl_listen s = 3" "sl_allset s = [3]" "sl_acts s = []" "sel_live s = []"
    by (auto simp: sel_init_def FD_SETSIZE_def sel_live_def)
  have "sel_promise s (demo_ready [3] 4)" "calm (demo_ready [3] 4)"
    by (simp_all add: sel_promise_def calm_def demo_ready_def f)
  from select_round_serves [OF sel_reach.start [OF s] this] f s show ?thesis
    by (auto simp: demo_ready_def FD_SETSIZE_def)
qed

text \<open>
  C33. In every state the select server can reach: the descriptors in \<open>allset\<close> are exactly the listening one
  and those of the client table, each once, all at most \<open>maxfd\<close>, and no client is behind \<open>maxi\<close>; the
  table always has a free entry, so that \<open>too many clients\<close> is never reported; what happens instead when
  \<open>accept\<close> returns a descriptor of \<open>FD_SETSIZE\<close> or more is that \<open>FD_SET\<close> writes beyond the set.
\<close>

theorem select_invariant:
  assumes "sel_reach l s"
  shows "set (sl_allset s) = insert (sl_listen s) (set (sel_live s)) \<and> distinct (sl_listen s # sel_live s) \<and>
    list_all (\<lambda>fd. fd \<le> sl_maxfd s) (sl_allset s) \<and> sl_maxfd s < int FD_SETSIZE \<and>
    list_all (\<lambda>fd. fd < 0) (drop (nat (sl_maxi s + 1)) (sl_client s)) \<and>
    sel_round k s \<noteq> Inl (Err_quit ''too many clients'') \<and>
    (sl_listen s \<in> set (k_rset k) \<and> 0 \<le> k_nready k \<and> int FD_SETSIZE \<le> k_accept k \<longrightarrow>
      sel_round k s = Inl (Undefined Buffer_overflow))"
proof -
  have inv: "sel_inv s" using sel_reach_inv [OF assms] by simp
  note slot = sel_slot_free [OF inv]
  have "scan (sel_ready k) (sel_serve k) stop js n u \<noteq> Inl (Err_quit ''too many clients'')" for stop js n u
    by (induction js arbitrary: n u)
      (auto simp: sel_ready_def sel_serve_def Let_def split: sum.splits list.splits bool.splits if_splits)
  then have "sel_round k s \<noteq> Inl (Err_quit ''too many clients'')"
    using slot by (auto simp: sel_round_def sel_accept_def sel_pass_def Let_def)
  moreover have "list_all (\<lambda>fd. fd < 0) (drop (nat (sl_maxi s + 1)) (sl_client s))"
    using inv by (auto simp: sel_inv_def list_all_length)
  moreover have "sel_round k s = Inl (Undefined Buffer_overflow)"
    if "sl_listen s \<in> set (k_rset k)" "0 \<le> k_nready k" "int FD_SETSIZE \<le> k_accept k"
    using that slot by (simp add: sel_round_def sel_accept_def Let_def)
  ultimately show ?thesis using inv by (auto simp: sel_inv_def list_all_iff)
qed

theorem select_invariant_witness:
  "\<exists>s. sel_init 3 = Inr s \<and> set (sl_allset s) = insert 3 (set (sel_live s)) \<and>
     sel_round (demo_ready [3] 1024) s = Inl (Undefined Buffer_overflow)"
proof -
  obtain s where s: "sel_init 3 = Inr s" by (simp add: sel_init_def FD_SETSIZE_def)
  then have "sl_listen s = 3" by (auto simp: sel_init_def FD_SETSIZE_def)
  with select_invariant [OF sel_reach.start [OF s], of "demo_ready [3] 1024"] s show ?thesis
    by (auto simp: demo_ready_def FD_SETSIZE_def)
qed

text \<open>
  C34. One round of the poll server, from every state that satisfies its invariant, as the initial
  one does: under the same promises, with resets allowed, the round ends, keeps the invariant, serves every
  ready client in the order of the table and no other, closing those at end of file and those reset by the
  client; the \<open>revents\<close> of a new entry, which is not initialised, is never read.
\<close>

theorem poll_round_serves:
  assumes "poll_inv s" and "poll_promise s k" and "poll_calm k"
    and "pl_fds s ! 0 \<in> set (k_rset k) \<longrightarrow> 0 \<le> k_accept k \<and> (\<exists>fd \<in> set (tl (pl_fds s)). fd < 0)"
  shows "\<exists>s'. poll_round k s = Inr s' \<and> poll_inv s' \<and>
    pl_acts s' = pl_acts s @ (if pl_fds s ! 0 \<in> set (k_rset k) then [Accepted (k_accept k)] else []) @
      map (echo_act k) (filter (\<lambda>fd. fd \<in> set (k_rset k)) (tl (pl_live s))) \<and>
    set (pl_live s') = set (pl_live s) - {fd \<in> set (k_rset k) - {pl_fds s ! 0}. goes_away k fd} \<union>
      (if pl_fds s ! 0 \<in> set (k_rset k) then {k_accept k} else {})"
proof (cases "pl_fds s ! 0 \<in> set (k_rset k)")
  case True
  with poll_round_conn [OF assms(1-3) True] assms(4) show ?thesis by auto
next
  case False
  with poll_round_idle [OF assms(1-3) False] show ?thesis by auto
qed

lemma poll_inv_init: "0 < om \<Longrightarrow> 0 \<le> l \<Longrightarrow> poll_inv (poll_init om l)"
  by (auto simp: poll_inv_def poll_init_def pl_fds_def pl_live_def nth_Cons' filter_replicate)

theorem poll_round_serves_witness:
  "\<exists>s'. poll_round (demo_ready [3, 4] 5) \<lparr>pl_client = [(3, None), (4, None), (-1, None)], pl_maxi = 1, pl_acts = []\<rparr> = Inr s' \<and>
     poll_inv s' \<and> pl_acts s' = [Accepted 5, Echoed 4 [104, 105]] \<and> set (pl_live s') = {3, 4, 5}"
proof -
  let ?s = "\<lparr>pl_client = [(3, None), (4, None), (-1, None)], pl_maxi = 1, pl_acts = []\<rparr> :: pollsrv"
  have f: "pl_fds ?s = [3, 4, -1]" "pl_live ?s = [3, 4]" by (simp_all add: pl_fds_def pl_live_def)
  have "poll_inv ?s" unfolding poll_inv_def f by (auto simp: nth_Cons')
  moreover have "poll_promise ?s (demo_ready [3, 4] 5)" "poll_calm (demo_ready [3, 4] 5)"
    unfolding poll_promise_def f by (simp_all add: poll_calm_def demo_ready_def)
  ultimately show ?thesis
    using poll_round_serves [of ?s "demo_ready [3, 4] 5"] unfolding f
    by (simp add: demo_ready_def echo_act_def goes_away_def insert_commute)
qed

end
