(* ===== verification/Std_Map.thy ===== *)
theory Std_Map
  imports NP_Prelude
begin

text \<open>
  The containers of the C++ programs (\<open>hw2/110550158_hw2/hw2_chat_server.cpp\<close>, \<open>np-lab6/server.cpp\<close>,
  \<open>np-lab6/client.cpp\<close>). A \<open>std::map\<close> is an association list in the order of its keys, a \<open>std::set\<close> an
  ordered list; \<open>operator[]\<close> inserts a default value where there is none (\<open>ensure\<close>) and then reads
  (\<open>val_at\<close>). The locale \<open>std_map\<close> is what the programs rely on.
\<close>

subsection \<open>std::map and std::set\<close>

fun put :: "'k::linorder \<Rightarrow> 'v \<Rightarrow> ('k \<times> 'v) list \<Rightarrow> ('k \<times> 'v) list" where
  "put k v [] = [(k, v)]"
| "put k v ((k', v') # m) =
     (if k = k' then (k, v) # m else if k < k' then (k, v) # (k', v') # m else (k', v') # put k v m)"

definition erase :: "'k \<Rightarrow> ('k \<times> 'v) list \<Rightarrow> ('k \<times> 'v) list" where
  "erase k m = filter (\<lambda>p. fst p \<noteq> k) m"

definition ensure :: "'v \<Rightarrow> 'k::linorder \<Rightarrow> ('k \<times> 'v) list \<Rightarrow> ('k \<times> 'v) list" where
  "ensure d k m = (case map_of m k of None \<Rightarrow> put k d m | Some _ \<Rightarrow> m)"

definition val_at :: "'v \<Rightarrow> 'k \<Rightarrow> ('k \<times> 'v) list \<Rightarrow> 'v" where
  "val_at d k m = (case map_of m k of None \<Rightarrow> d | Some v \<Rightarrow> v)"

definition set_insert :: "'a::linorder \<Rightarrow> 'a list \<Rightarrow> 'a list" where
  "set_insert x xs = (if x \<in> set xs then xs else insort x xs)"

subsection \<open>The map interface\<close>

text \<open>What the server relies on of \<open>std::map\<close>; \<open>get m k\<close> is the value at \<open>k\<close>, if any.\<close>

locale std_map =
  fixes get :: "'m \<Rightarrow> 'k \<Rightarrow> 'v option" and ins :: "'k \<Rightarrow> 'v \<Rightarrow> 'm \<Rightarrow> 'm" and del :: "'k \<Rightarrow> 'm \<Rightarrow> 'm"
    and brackets :: "'v \<Rightarrow> 'k \<Rightarrow> 'm \<Rightarrow> 'm" and read :: "'v \<Rightarrow> 'k \<Rightarrow> 'm \<Rightarrow> 'v"
  assumes get_ins: "get (ins k v m) = (get m)(k \<mapsto> v)" and get_del: "get (del k m) = (get m)(k := None)"
    and brackets: "brackets d k m = (if get m k = None then ins k d m else m)"
    and read: "read d k m = (case get m k of None \<Rightarrow> d | Some v \<Rightarrow> v)"
begin

lemma read_brackets: "read d j (brackets d k m) = read d j m"
  by (auto simp: read brackets get_ins split: option.split)

lemma get_brackets: "get (brackets d k m) j = (if j = k \<and> get m k = None then Some d else get m j)"
  by (auto simp: brackets get_ins split: option.split)

lemma brackets_present: "get m k \<noteq> None \<Longrightarrow> brackets d k m = m"
  by (auto simp: brackets)

lemma ran_ins: "ran (get m) \<subseteq> A \<Longrightarrow> v \<in> A \<Longrightarrow> ran (get (ins k v m)) \<subseteq> A"
  by (auto simp: get_ins ran_def)

lemma ran_del: "ran (get m) \<subseteq> A \<Longrightarrow> ran (get (del k m)) \<subseteq> A"
  by (auto simp: get_del ran_def)

lemma ran_brackets: "ran (get m) \<subseteq> A \<Longrightarrow> d \<in> A \<Longrightarrow> ran (get (brackets d k m)) \<subseteq> A"
  by (auto simp: brackets ran_ins split: option.split)

end

lemma map_of_put: "map_of (put k v m) = (map_of m)(k \<mapsto> v)"
  by (induction m) (auto simp: fun_eq_iff)

lemma map_of_erase: "map_of (erase k m) = (map_of m)(k := None)"
  by (induction m) (auto simp: erase_def fun_eq_iff)

interpretation om: std_map map_of put erase ensure val_at
  by unfold_locales (auto simp: map_of_put map_of_erase ensure_def val_at_def split: option.split)

lemma fold_ensure_get:
  "map_of (fold (ensure d) ks m) j = (if map_of m j = None \<and> j \<in> set ks then Some d else map_of m j)"
  by (induction ks arbitrary: m) (auto simp: om.get_brackets)

lemma fold_ensure_read: "val_at d j (fold (ensure d) ks m) = val_at d j m"
  by (induction ks arbitrary: m) (simp_all add: om.read_brackets)

lemma fold_ensure_present: "(\<And>k. k \<in> set ks \<Longrightarrow> map_of m k \<noteq> None) \<Longrightarrow> fold (ensure d) ks m = m"
  by (induction ks) (simp_all add: om.brackets_present)

lemma keys_put: "set (map fst (put k v m)) = insert k (set (map fst m))"
proof (induction m)
  case (Cons p m)
  then show ?case by (cases p) (simp add: insert_commute)
qed simp

lemma sorted_put: "sorted_wrt (<) (map fst m) \<Longrightarrow> sorted_wrt (<) (map fst (put k v m))"
proof (induction m)
  case (Cons p m)
  then show ?case using keys_put [of k v m] by (cases p) (force simp: not_less less_le)
qed simp

lemma set_set_insert [simp]: "set (set_insert x xs) = insert x (set xs)"
  by (auto simp: set_insert_def set_insort_key)

end
