(* ===== verification/Chat_Server.thy ===== *)
theory Chat_Server
  imports Std_Map "HOL-Library.Char_ord" "HOL-Library.List_Lexorder"
begin

text \<open>
  The chat server of \<open>hw2/110550158_hw2/hw2_chat_server.cpp\<close>: users register and log in, enter chat
  rooms, and what they type there is filtered and broadcast.

  The globals are one record. A \<open>std::map\<close> is an association list in the order of its keys, a
  \<open>std::set\<close> an ordered list; \<open>operator[]\<close> inserts a default value where there is none (\<open>ensure\<close>).
  \<open>outbox\<close> is everything that was sent, by descriptor. Commands are taken one at a time; the threads of
  the program do not lock these variables.

  \<open>logout\<close>, \<open>exit\<close> and the end of a connection use a reference to a string of \<open>client_usernames\<close> after
  the entry was erased. What such a reference still reads is the parameter \<open>freed\<close>; the code relies
  on \<open>freed u = u\<close>.
\<close>

subsection \<open>The state\<close>

definition MAX_CHAT_HISTORY_SIZE :: nat where "MAX_CHAT_HISTORY_SIZE = 10"

definition BUFFER_SIZE :: nat where "BUFFER_SIZE = 1024"

record chat =
  client_sockets :: "int list"
  registered_users :: "(string \<times> string) list"
  logged_in_clients :: "int list"
  logged_in_usernames :: "string list"
  client_usernames :: "(int \<times> string) list"
  client_statuses :: "(string \<times> string) list"
  client_chat_rooms :: "(int \<times> int) list"
  chat_rooms :: "(int \<times> string list) list"
  chat_room_clients :: "(int \<times> int list) list"
  chat_room_creators :: "(int \<times> string) list"
  chat_room_pins :: "(int \<times> bool) list"
  room_pin_message :: "(int \<times> string) list"
  in_room :: bool
  outbox :: "(int \<times> string) list"
  hung_up :: "int list"

definition filtered_keywords :: "string list" where
  "filtered_keywords = [''superpie'', ''hello'', ''starburst stream'', ''domain expansion'', ''=='']"

definition nl :: string where "nl = [CHR 0x0A]"

definition prompt :: string where "prompt = nl @ ''% ''"

definition send_message :: "int \<Rightarrow> string \<Rightarrow> chat \<Rightarrow> chat" where
  "send_message fd msg s = s\<lparr>outbox := outbox s @ [(fd, msg)]\<rparr>"

fun send_messages :: "int \<Rightarrow> string list \<Rightarrow> chat \<Rightarrow> chat" where
  "send_messages fd [] s = s"
| "send_messages fd (m # ms) s = send_messages fd ms (send_message fd m s)"

text \<open>The loops over the messages from \<open>start_index\<close> on, and the pinned message.\<close>

definition send_chat_history :: "int \<Rightarrow> int \<Rightarrow> chat \<Rightarrow> chat" where
  "send_chat_history fd room s =
     (let s = (case map_of (chat_rooms s) room of
                 None \<Rightarrow> s
               | Some h \<Rightarrow> send_messages fd (concat (map (\<lambda>m. [m, nl]) (drop (length h - MAX_CHAT_HISTORY_SIZE) h))) s);
          s = s\<lparr>chat_room_pins := ensure False room (chat_room_pins s)\<rparr>
      in if val_at False room (chat_room_pins s)
         then (let s = s\<lparr>room_pin_message := ensure [] room (room_pin_message s)\<rparr>
               in send_messages fd [val_at [] room (room_pin_message s), nl] s)
         else s)"

subsection \<open>filter_message\<close>

definition tolower :: "char \<Rightarrow> char" where
  "tolower c = (let k = of_char c in if 65 \<le> k \<and> k \<le> (90::nat) then char_of (k + 32) else c)"

definition isalpha :: "char \<Rightarrow> bool" where
  "isalpha c = (let k = of_char c in (65 \<le> k \<and> k \<le> (90::nat)) \<or> (97 \<le> k \<and> k \<le> 122))"

text \<open>\<open>s.find(kw, i)\<close> for a keyword that is not empty.\<close>

definition find_from :: "string \<Rightarrow> string \<Rightarrow> nat \<Rightarrow> nat option" where
  "find_from kw s i = List.find (\<lambda>p. is_prefix kw (drop p s)) [i..<length s]"

text \<open>The first keyword that stops the scan at \<open>i\<close>, with its position.\<close>

fun keyword_at :: "string list \<Rightarrow> string \<Rightarrow> nat \<Rightarrow> (string \<times> nat) option" where
  "keyword_at [] msg i = None"
| "keyword_at (kw # kws) msg i =
     (case find_from (map tolower kw) (map tolower msg) i of
        Some pos \<Rightarrow> if pos = i \<or> \<not> isalpha (msg ! (pos - 1)) then Some (kw, pos) else keyword_at kws msg i
      | None \<Rightarrow> keyword_at kws msg i)"

lemma find_from_ge: "find_from kw s i = Some p \<Longrightarrow> i \<le> p \<and> p < length s \<and> is_prefix kw (drop p s)"
  unfolding find_from_def find_Some_iff by auto

lemma keyword_at_ge: "keyword_at kws msg i = Some (kw, pos) \<Longrightarrow> i \<le> pos \<and> pos < length msg"
  by (induction kws) (auto split: option.splits if_splits dest: find_from_ge)

text \<open>
  The loop: \<open>i = pos + keyword.length() - 1\<close> and \<open>++i\<close>, or one character copied. (No keyword is empty, so
  the index grows; the \<open>max\<close> is only for the termination proof.)
\<close>

function filter_loop :: "string list \<Rightarrow> string \<Rightarrow> nat \<Rightarrow> string" where
  "filter_loop kws msg i =
     (if i < length msg then
        (case keyword_at kws msg i of
           Some (kw, pos) \<Rightarrow>
             replicate (length kw) CHR ''*'' @ filter_loop kws msg (max (Suc i) (pos + length kw))
         | None \<Rightarrow> msg ! i # filter_loop kws msg (Suc i))
      else [])"
  by pat_completeness auto
termination
  by (relation "measure (\<lambda>(kws, msg, i). length msg - i)") auto

declare filter_loop.simps [simp del]

definition filter_message :: "string \<Rightarrow> string" where
  "filter_message msg = filter_loop filtered_keywords msg 0"

subsection \<open>Commands outside the rooms\<close>

definition logged_in :: "chat \<Rightarrow> int \<Rightarrow> bool" where
  "logged_in s fd = (fd \<in> set (logged_in_clients s))"

text \<open>\<open>rest\<close> is where \<open>strtok\<close> goes on.\<close>

definition tok :: "string \<Rightarrow> string option \<times> string" where
  "tok = strtok (CHR '' '' # nl)"

definition cmd_register :: "int \<Rightarrow> string \<Rightarrow> chat \<Rightarrow> chat" where
  "cmd_register fd rest s =
     (case tok rest of (username, rest) \<Rightarrow>
      case (username, fst (tok rest)) of
        (Some u, Some p) \<Rightarrow>
          if map_of (registered_users s) u \<noteq> None
          then send_message fd (''Username is already used.'' @ prompt) s
          else send_message fd (''Register successfully.'' @ prompt)
                 (s\<lparr>registered_users := put u p (registered_users s)\<rparr>)
      | _ \<Rightarrow> send_message fd (''Usage: register <username> <password>'' @ prompt) s)"

definition cmd_login :: "int \<Rightarrow> string \<Rightarrow> chat \<Rightarrow> chat" where
  "cmd_login fd rest s =
     (if logged_in s fd then send_message fd (''Please logout first.'' @ prompt) s
      else case tok rest of (username, rest) \<Rightarrow>
        case (username, fst (tok rest)) of
          (Some u, Some p) \<Rightarrow>
            if map_of (registered_users s) u \<noteq> Some p then send_message fd (''Login failed.'' @ prompt) s
            else if u \<in> set (logged_in_usernames s) then send_message fd (''Login failed.'' @ prompt) s
            else send_messages fd [''Welcome, '', u, ''.'' @ prompt]
                   (s\<lparr>logged_in_clients := set_insert fd (logged_in_clients s),
                      client_usernames := put fd u (client_usernames s),
                      client_statuses := put u ''online'' (client_statuses s),
                      logged_in_usernames := set_insert u (logged_in_usernames s)\<rparr>)
        | _ \<Rightarrow> send_message fd (''Usage: login <username> <password>'' @ prompt) s)"

text \<open>
  \<open>freed\<close> is what the reference to the user's name reads after its entry is gone. In \<open>logout\<close> and at the
  end of a connection the name is erased from \<open>logged_in_usernames\<close> before that, in \<open>exit\<close> after.
\<close>

definition cmd_logout :: "(string \<Rightarrow> string) \<Rightarrow> int \<Rightarrow> string \<Rightarrow> chat \<Rightarrow> chat" where
  "cmd_logout freed fd rest s =
     (if fst (tok rest) \<noteq> None then send_message fd (''Usage: logout'' @ prompt) s
      else if \<not> logged_in s fd then send_message fd (''Please login first.'' @ prompt) s
      else
        (let username = val_at [] fd (client_usernames s) in
         send_messages fd [''Bye, '', freed username, ''.'' @ prompt]
           (s\<lparr>logged_in_clients := removeAll fd (logged_in_clients s),
              logged_in_usernames := removeAll username (logged_in_usernames s),
              client_usernames := erase fd (client_usernames s),
              client_statuses := put (freed username) ''offline'' (client_statuses s)\<rparr>)))"

definition cmd_exit :: "(string \<Rightarrow> string) \<Rightarrow> int \<Rightarrow> string \<Rightarrow> chat \<Rightarrow> chat" where
  "cmd_exit freed fd rest s =
     (if fst (tok rest) \<noteq> None then send_message fd (''Usage: exit'' @ prompt) s
      else
        (let s = s\<lparr>client_usernames := ensure [] fd (client_usernames s)\<rparr>;
             username = val_at [] fd (client_usernames s);
             s = (if logged_in s fd
                  then send_messages fd [''Bye, '', freed username, ''.'' @ nl]
                         (s\<lparr>logged_in_clients := removeAll fd (logged_in_clients s),
                            client_usernames := erase fd (client_usernames s),
                            client_statuses := put (freed username) ''offline'' (client_statuses s),
                            logged_in_usernames := removeAll (freed username) (logged_in_usernames s)\<rparr>)
                  else s)
         in s\<lparr>hung_up := hung_up s @ [fd]\<rparr>))"

definition cmd_whoami :: "int \<Rightarrow> string \<Rightarrow> chat \<Rightarrow> chat" where
  "cmd_whoami fd rest s =
     (if fst (tok rest) \<noteq> None then send_message fd (''Usage: whoami'' @ prompt) s
      else if \<not> logged_in s fd then send_message fd (''Please login first.'' @ prompt) s
      else (let s = s\<lparr>client_usernames := ensure [] fd (client_usernames s)\<rparr>
            in send_messages fd [val_at [] fd (client_usernames s), prompt] s))"

definition cmd_set_status :: "int \<Rightarrow> string \<Rightarrow> chat \<Rightarrow> chat" where
  "cmd_set_status fd rest s =
     (case fst (tok rest) of
        None \<Rightarrow> send_message fd (''Usage: set-status <status>'' @ prompt) s
      | Some st \<Rightarrow>
          if \<not> logged_in s fd then send_message fd (''Please login first.'' @ prompt) s
          else
            (let s = s\<lparr>client_usernames := ensure [] fd (client_usernames s)\<rparr>;
                 username = val_at [] fd (client_usernames s) in
             if st = ''online'' \<or> st = ''offline'' \<or> st = ''busy''
             then send_messages fd [username, '' '', st, prompt]
                    (s\<lparr>client_statuses := put username st (client_statuses s)\<rparr>)
             else send_message fd (''set-status failed'' @ prompt) s))"

definition cmd_list_user :: "int \<Rightarrow> string \<Rightarrow> chat \<Rightarrow> chat" where
  "cmd_list_user fd rest s =
     (if fst (tok rest) \<noteq> None then send_message fd (''Usage: list-user'' @ prompt) s
      else if \<not> logged_in s fd then send_message fd (''Please login first.'' @ prompt) s
      else send_messages fd
             (concat (map (\<lambda>u. [u, '' '', val_at ''offline'' u (client_statuses s), nl]) (map fst (registered_users s))) @
              [''% '']) s)"

subsection \<open>Rooms\<close>

text \<open>
  The loops over the clients logged in: the members of the room, except those skipped, get the
  messages. The test \<open>client_chat_rooms[other] == room\<close> enters the room 0 for a client that is in none.
\<close>

fun notify :: "(int \<Rightarrow> bool) \<Rightarrow> int \<Rightarrow> string list \<Rightarrow> int list \<Rightarrow> chat \<Rightarrow> chat" where
  "notify skip room msgs [] s = s"
| "notify skip room msgs (c # cs) s =
     (if skip c then notify skip room msgs cs s
      else
        (let s = s\<lparr>client_chat_rooms := ensure 0 c (client_chat_rooms s)\<rparr> in
         notify skip room msgs cs
           (if val_at 0 c (client_chat_rooms s) = room then send_messages c msgs s else s)))"

text \<open>\<open>atoi\<close>: white space, a sign, digits; a value beyond an \<open>int\<close> is not specified and is kept here.\<close>

definition atoi :: "string \<Rightarrow> int" where
  "atoi s =
     (let t = dropWhile (\<lambda>c. c = CHR '' '' \<or> (9 \<le> (of_char c :: nat) \<and> (of_char c :: nat) \<le> 13)) s;
          neg = (t \<noteq> [] \<and> hd t = CHR ''-'');
          t = (if t \<noteq> [] \<and> hd t \<in> {CHR ''-'', CHR ''+''} then tl t else t);
          n = int (num_of 10 (map (\<lambda>c. the (digit_val c)) (takeWhile isdigit t)))
      in if neg then - n else n)"

definition cmd_enter :: "int \<Rightarrow> string \<Rightarrow> chat \<Rightarrow> chat" where
  "cmd_enter fd rest s =
     (if \<not> logged_in s fd then send_message fd (''Please login first.'' @ prompt) s
      else case fst (tok rest) of
        None \<Rightarrow> send_message fd (''Usage: enter-chat-room <number>'' @ prompt) s
      | Some num \<Rightarrow>
          (let room = atoi num in
           if room < 1 \<or> 100 < room
           then send_messages fd [''Number '', print_int room, '' is not valid.'' @ prompt] s
           else
             (let s = s\<lparr>chat_room_creators := ensure [] room (chat_room_creators s)\<rparr>;
                  s = (if val_at [] room (chat_room_creators s) = []
                       then s\<lparr>chat_room_creators :=
                                put room (val_at [] fd (client_usernames s)) (chat_room_creators s)\<rparr>
                       else s);
                  s = s\<lparr>client_chat_rooms := put fd room (client_chat_rooms s)\<rparr>;
                  s = send_messages fd
                        [''Welcome to the public chat room.'' @ nl, ''Room number: '', print_int room, nl,
                         ''Owner: '', val_at [] room (chat_room_creators s), nl] s;
                  s = s\<lparr>in_room := True, chat_rooms := ensure [] room (chat_rooms s)\<rparr>;
                  s = (if val_at [] room (chat_rooms s) \<noteq> [] \<or> val_at False room (chat_room_pins s)
                       then send_chat_history fd room s else s)
              in notify (\<lambda>c. c = fd) room
                   [val_at [] fd (client_usernames s), '' had enter the chat room.'' @ nl]
                   (logged_in_clients s) s)))"

definition cmd_list_room :: "int \<Rightarrow> string \<Rightarrow> chat \<Rightarrow> chat" where
  "cmd_list_room fd rest s =
     (if fst (tok rest) \<noteq> None then send_message fd (''Usage: list-chat-room'' @ prompt) s
      else if \<not> logged_in s fd then send_message fd (''Please login first.'' @ prompt) s
      else
        (let rooms = map fst (chat_rooms s);
             s = s\<lparr>chat_room_creators := fold (ensure []) rooms (chat_room_creators s)\<rparr>
         in send_messages fd
              (map (\<lambda>r. val_at [] r (chat_room_creators s) @ '' '' @ print_int r @ nl) rooms @ [''% '']) s))"

text \<open>The loop of \<open>close-chat-room\<close>: the members are told and leave the room.\<close>

fun expel :: "int \<Rightarrow> string list \<Rightarrow> int list \<Rightarrow> chat \<Rightarrow> chat" where
  "expel room msgs [] s = s"
| "expel room msgs (c # cs) s =
     (let s = s\<lparr>client_chat_rooms := ensure 0 c (client_chat_rooms s)\<rparr> in
      expel room msgs cs
        (if val_at 0 c (client_chat_rooms s) = room
         then (let s = send_messages c msgs s in s\<lparr>client_chat_rooms := erase c (client_chat_rooms s)\<rparr>)
         else s))"

definition cmd_close :: "int \<Rightarrow> string \<Rightarrow> chat \<Rightarrow> chat" where
  "cmd_close fd rest s =
     (if \<not> logged_in s fd then send_message fd (''Please login first.'' @ prompt) s
      else case fst (tok rest) of
        None \<Rightarrow> send_message fd (''Usage: close-chat-room <number>'' @ prompt) s
      | Some num \<Rightarrow>
          (let room = atoi num in
           if map_of (chat_rooms s) room = None
           then send_messages fd [''Chat room '', num, '' does not exist.'' @ prompt] s
           else
             (let s = s\<lparr>chat_room_creators := ensure [] room (chat_room_creators s),
                        client_usernames := ensure [] fd (client_usernames s)\<rparr> in
              if val_at [] room (chat_room_creators s) \<noteq> val_at [] fd (client_usernames s)
              then send_message fd (''Only the owner can close this chat room.'' @ prompt) s
              else
                (let closed = [''Chat room '', num, '' was closed.'' @ prompt];
                     s = expel room closed (logged_in_clients s) s
                 in send_messages fd closed
                      (s\<lparr>chat_rooms := erase room (chat_rooms s),
                         chat_room_creators := erase room (chat_room_creators s)\<rparr>)))))"

subsection \<open>Commands and messages inside a room\<close>

definition too_long :: string where
  "too_long = ''Message length exceeds 150 characters or is empty.'' @ nl"

text \<open>\<open>string token_message = message\<close> comes before the test of \<open>message\<close> against NULL.\<close>

definition room_pin :: "int \<Rightarrow> int \<Rightarrow> string \<Rightarrow> chat \<Rightarrow> chat outcome" where
  "room_pin fd room rest s =
     (case fst (strtok nl rest) of
        None \<Rightarrow> Inl (Undefined Null_deref)
      | Some message \<Rightarrow>
          if length message \<le> 150 then
            (let s = s\<lparr>client_usernames := ensure [] fd (client_usernames s)\<rparr>;
                 pinned = ''Pin -> ['' @ val_at [] fd (client_usernames s) @ '']: '' @ filter_message message;
                 s = s\<lparr>room_pin_message := put room pinned (room_pin_message s),
                       chat_room_pins := put room True (chat_room_pins s)\<rparr>;
                 s = send_message fd (pinned @ nl) s
             in Inr (notify (\<lambda>c. c = fd) room [pinned @ nl] (logged_in_clients s) s))
          else Inr (send_message fd too_long s))"

definition room_delete_pin :: "int \<Rightarrow> int \<Rightarrow> chat \<Rightarrow> chat" where
  "room_delete_pin fd room s =
     (let s = s\<lparr>chat_room_pins := ensure False room (chat_room_pins s)\<rparr> in
      if val_at False room (chat_room_pins s)
      then s\<lparr>room_pin_message := put room [] (room_pin_message s)\<rparr>
      else send_messages fd [''No pin message in chat room '', print_int room, nl] s)"

definition room_exit :: "int \<Rightarrow> int \<Rightarrow> chat \<Rightarrow> chat" where
  "room_exit fd room s =
     (let s = s\<lparr>client_usernames := ensure [] fd (client_usernames s)\<rparr>;
          username = val_at [] fd (client_usernames s);
          s = notify (\<lambda>c. c = fd) room [username @ '' had left the chat room.'' @ nl] (logged_in_clients s) s;
          s = s\<lparr>chat_room_clients :=
                  put room (removeAll fd (val_at [] room (chat_room_clients s))) (chat_room_clients s),
                client_chat_rooms := erase fd (client_chat_rooms s)\<rparr>;
          s = send_message fd ''% '' s
      in s\<lparr>in_room := False\<rparr>)"

definition room_list_user :: "int \<Rightarrow> int \<Rightarrow> chat \<Rightarrow> chat" where
  "room_list_user fd room s =
     (let s = s\<lparr>client_chat_rooms := fold (ensure 0) (logged_in_clients s) (client_chat_rooms s)\<rparr>;
          members = filter (\<lambda>c. val_at 0 c (client_chat_rooms s) = room) (logged_in_clients s);
          s = s\<lparr>client_usernames := fold (ensure []) members (client_usernames s)\<rparr>;
          names = sort (map (\<lambda>c. val_at [] c (client_usernames s)) members);
          s = s\<lparr>client_statuses := fold (ensure []) names (client_statuses s)\<rparr>
      in send_messages fd (concat (map (\<lambda>u. [u, '' '', val_at [] u (client_statuses s), nl]) names)) s)"

definition room_message :: "int \<Rightarrow> int \<Rightarrow> string \<Rightarrow> string \<Rightarrow> chat \<Rightarrow> chat" where
  "room_message fd room token rest s =
     (let s = s\<lparr>client_usernames := ensure [] fd (client_usernames s)\<rparr>;
          message = fst (strtok nl rest);
          token_message = token @ (case message of None \<Rightarrow> [] | Some m \<Rightarrow> '' '' @ m) in
      if (case message of None \<Rightarrow> True | Some m \<Rightarrow> length m \<le> 150) then
        (let chat_message = ''['' @ val_at [] fd (client_usernames s) @ '']: '' @ filter_message token_message;
             s = s\<lparr>chat_rooms := put room (val_at [] room (chat_rooms s) @ [chat_message]) (chat_rooms s)\<rparr>
         in notify (\<lambda>c. False) room [chat_message, nl] (logged_in_clients s) s)
      else send_message fd too_long s)"

definition room_command :: "int \<Rightarrow> string \<Rightarrow> string \<Rightarrow> chat \<Rightarrow> chat outcome" where
  "room_command fd token rest s =
     (let room = val_at 0 fd (client_chat_rooms s) in
      if hd token = CHR ''/'' then
        (if token = ''/pin'' then room_pin fd room rest s
         else if token = ''/delete-pin'' then Inr (room_delete_pin fd room s)
         else if token = ''/exit-chat-room'' then Inr (room_exit fd room s)
         else if token = ''/list-user'' then Inr (room_list_user fd room s)
         else Inr (send_message fd (''Error: Unknown command'' @ nl) s))
      else Inr (room_message fd room token rest s))"

subsection \<open>handle_command, handle_client and main\<close>

definition handle_command :: "(string \<Rightarrow> string) \<Rightarrow> int \<Rightarrow> string \<Rightarrow> chat \<Rightarrow> chat outcome" where
  "handle_command freed fd cmd s =
     (case tok cmd of
        (None, _) \<Rightarrow> Inr (send_message fd (''Usage: Enter a valid command.'' @ prompt) s)
      | (Some token, rest) \<Rightarrow>
          if token = ''register'' then Inr (cmd_register fd rest s)
          else if token = ''login'' then Inr (cmd_login fd rest s)
          else if token = ''logout'' then Inr (cmd_logout freed fd rest s)
          else if token = ''exit'' \<and> \<not> in_room s then Inr (cmd_exit freed fd rest s)
          else if token = ''whoami'' then Inr (cmd_whoami fd rest s)
          else if token = ''set-status'' then Inr (cmd_set_status fd rest s)
          else if token = ''list-user'' then Inr (cmd_list_user fd rest s)
          else if token = ''enter-chat-room'' then Inr (cmd_enter fd rest s)
          else if token = ''list-chat-room'' then Inr (cmd_list_room fd rest s)
          else if token = ''close-chat-room'' then Inr (cmd_close fd rest s)
          else if map_of (client_chat_rooms s) fd \<noteq> None then room_command fd token rest s
          else Inr (send_message fd (''Error: Unknown command'' @ prompt) s))"

text \<open>
  What \<open>recv\<close> returns: nothing, or some bytes, of which \<open>handle_command\<close> reads those before the first NUL. The NUL
  stored after \<open>BUFFER_SIZE\<close> bytes is outside the array.
\<close>

definition disconnect :: "(string \<Rightarrow> string) \<Rightarrow> int \<Rightarrow> chat \<Rightarrow> chat" where
  "disconnect freed fd s =
     (let s = s\<lparr>client_sockets := removeAll fd (client_sockets s)\<rparr>;
          s = (if logged_in s fd
               then (let username = val_at [] fd (client_usernames s) in
                     s\<lparr>logged_in_clients := removeAll fd (logged_in_clients s),
                       logged_in_usernames := removeAll username (logged_in_usernames s),
                       client_usernames := erase fd (client_usernames s),
                       client_statuses := put (freed username) ''offline'' (client_statuses s)\<rparr>)
               else s)
      in s\<lparr>hung_up := hung_up s @ [fd, fd]\<rparr>)"

definition handle_client :: "(string \<Rightarrow> string) \<Rightarrow> int \<Rightarrow> string option \<Rightarrow> chat \<Rightarrow> chat outcome" where
  "handle_client freed fd received s =
     (case received of
        None \<Rightarrow> Inr (disconnect freed fd s)
      | Some bytes \<Rightarrow>
          if BUFFER_SIZE \<le> length bytes then Inl (Undefined Buffer_overflow)
          else handle_command freed fd (takeWhile (\<lambda>c. c \<noteq> CHR 0x00) bytes) s)"

definition chat_init :: chat where
  "chat_init = \<lparr>client_sockets = [], registered_users = [], logged_in_clients = [], logged_in_usernames = [],
     client_usernames = [], client_statuses = [], client_chat_rooms = [], chat_rooms = [], chat_room_clients = [],
     chat_room_creators = [], chat_room_pins = map (\<lambda>r. (int r, False)) [1..<101], room_pin_message = [],
     in_room = False, outbox = [], hung_up = []\<rparr>"

definition stars :: string where "stars = replicate 33 CHR ''*'' @ nl"

text \<open>The events of the program: \<open>accept\<close> returned, and \<open>recv\<close> returned in the thread of a client.\<close>

datatype chat_event = Connect int | Receive int "string option"

fun chat_step :: "(string \<Rightarrow> string) \<Rightarrow> chat \<Rightarrow> chat_event \<Rightarrow> chat outcome" where
  "chat_step freed s (Connect fd) =
     Inr (send_messages fd [stars, ''** Welcome to the Chat server. **'' @ nl, butlast stars @ prompt]
       (s\<lparr>client_sockets := client_sockets s @ [fd]\<rparr>))"
| "chat_step freed s (Receive fd received) = handle_client freed fd received s"

fun chat_run :: "(string \<Rightarrow> string) \<Rightarrow> chat \<Rightarrow> chat_event list \<Rightarrow> chat outcome" where
  "chat_run freed s [] = Inr s"
| "chat_run freed s (e # es) = (case chat_step freed s e of Inl h \<Rightarrow> Inl h | Inr t \<Rightarrow> chat_run freed t es)"

subsection \<open>The output of the loops\<close>

lemma send_messages_eq [simp]: "send_messages fd ms s = s\<lparr>outbox := outbox s @ map (Pair fd) ms\<rparr>"
  by (induction ms arbitrary: s) (simp_all add: send_message_def)

lemma notify_eq:
  "notify skip room msgs cs s =
     s\<lparr>client_chat_rooms := fold (ensure 0) (filter (\<lambda>c. \<not> skip c) cs) (client_chat_rooms s),
       outbox := outbox s @ concat (map (\<lambda>c. map (Pair c) msgs)
         (filter (\<lambda>c. \<not> skip c \<and> val_at 0 c (client_chat_rooms s) = room) cs))\<rparr>"
  by (induction cs arbitrary: s) (simp_all add: om.read_brackets Let_def)

lemma expel_eq:
  "\<exists>m out. expel room msgs cs s = s\<lparr>client_chat_rooms := m, outbox := out\<rparr> \<and>
     (ran (map_of (client_chat_rooms s)) \<subseteq> A \<longrightarrow> 0 \<in> A \<longrightarrow> ran (map_of m) \<subseteq> A)"
proof (induction cs arbitrary: s)
  case Nil
  show ?case by (rule exI [of _ "client_chat_rooms s"], rule exI [of _ "outbox s"]) simp
next
  case (Cons c cs)
  let ?e = "ensure 0 c (client_chat_rooms s)"
  have r: "ran (map_of ?e) \<subseteq> A" "ran (map_of (erase c ?e)) \<subseteq> A" if "ran (map_of (client_chat_rooms s)) \<subseteq> A" "0 \<in> A"
    by (rule om.ran_brackets [OF that], rule om.ran_del [OF om.ran_brackets [OF that]])
  let ?t = "if val_at 0 c ?e = room
    then s\<lparr>outbox := outbox s @ map (Pair c) msgs, client_chat_rooms := erase c ?e\<rparr> else s\<lparr>client_chat_rooms := ?e\<rparr>"
  have step: "expel room msgs (c # cs) s = expel room msgs cs ?t" by (simp add: Let_def)
  obtain m out where m: "expel room msgs cs ?t = ?t\<lparr>client_chat_rooms := m, outbox := out\<rparr>"
      "ran (map_of (client_chat_rooms ?t)) \<subseteq> A \<longrightarrow> 0 \<in> A \<longrightarrow> ran (map_of m) \<subseteq> A" using Cons [of ?t] by blast
  have "ran (map_of (client_chat_rooms ?t)) \<subseteq> A" if "ran (map_of (client_chat_rooms s)) \<subseteq> A" "0 \<in> A"
    using r that by simp
  moreover have "?t\<lparr>client_chat_rooms := m, outbox := out\<rparr> = s\<lparr>client_chat_rooms := m, outbox := out\<rparr>" by simp
  ultimately show ?case using m unfolding step by metis
qed

subsection \<open>The filter\<close>

definition maskable :: "string \<Rightarrow> bool" where
  "maskable kw \<longleftrightarrow> kw \<noteq> [] \<and> CHR ''*'' \<notin> set (map tolower kw)"

lemma tolower_star [simp]: "tolower CHR ''*'' = CHR ''*''"
  by (simp add: tolower_def)

lemma is_prefix_length: "is_prefix p s \<Longrightarrow> length p \<le> length s"
  by (induction p s rule: is_prefix.induct) auto

lemma strstr_drop: "is_prefix w (drop p s) \<Longrightarrow> strstr s w"
proof (induction s arbitrary: p)
  case Nil
  then show ?case by (cases w) auto
next
  case (Cons x s)
  then show ?case by (cases p) auto
qed

lemma strstr_stars:
  assumes "w \<noteq> []" and "CHR ''*'' \<notin> set w"
  shows "strstr (replicate n CHR ''*'' @ s) w = strstr s w"
  using assms by (induction n) (auto simp: neq_Nil_conv)

lemma keyword_at_here:
  assumes "kw \<in> set kws" and "kw \<noteq> []" and "is_prefix (map tolower kw) (drop i (map tolower msg))"
  shows "keyword_at kws msg i \<noteq> None"
proof -
  have "i < length msg" using is_prefix_length [OF assms(3)] assms(2) by (cases kw) auto
  then have "find_from (map tolower kw) (map tolower msg) i = Some i"
    using assms(3) by (simp add: find_from_def upt_conv_Cons)
  then show ?thesis using assms(1) by (induction kws) (auto split: option.split)
qed

lemma keyword_at_mem:
  "keyword_at kws msg i = Some (kw, pos) \<Longrightarrow>
   kw \<in> set kws \<and> is_prefix (map tolower kw) (drop pos (map tolower msg))"
  by (induction kws) (auto split: option.splits if_splits dest: find_from_ge)

lemma keyword_at_none:
  "\<forall>kw \<in> set kws. \<not> strstr (map tolower msg) (map tolower kw) \<Longrightarrow> keyword_at kws msg i = None"
  by (induction kws) (auto split: option.split dest!: find_from_ge strstr_drop)

text \<open>A text without stars at the start of the result was at that place of the message.\<close>

lemma filter_loop_prefix:
  assumes "\<forall>kw \<in> set kws. maskable kw" and "is_prefix w (map tolower (filter_loop kws msg i))" and "CHR ''*'' \<notin> set w"
  shows "is_prefix w (drop i (map tolower msg))"
  using assms
proof (induction kws msg i arbitrary: w rule: filter_loop.induct)
  case (1 kws msg i)
  show ?case
  proof (cases "i < length msg \<and> w \<noteq> []")
    case True
    then obtain c w' where w: "w = c # w'" by (cases w) auto
    show ?thesis
    proof (cases "keyword_at kws msg i")
      case None
      then have "is_prefix w (tolower (msg ! i) # map tolower (filter_loop kws msg (Suc i)))"
        using True 1(4) by (simp add: filter_loop.simps [of kws msg i])
      then have "c = tolower (msg ! i)" "is_prefix w' (drop (Suc i) (map tolower msg))"
        using 1(1) [OF _ None 1(3), of w'] True 1(5) w by auto
      then show ?thesis using True w by (simp add: Cons_nth_drop_Suc [symmetric])
    next
      case (Some p)
      obtain kw pos where p: "p = (kw, pos)" by (cases p)
      then have "kw \<noteq> []" using keyword_at_mem [of kws msg i kw pos] Some 1(3) by (auto simp: maskable_def)
      then have "\<exists>r. map tolower (filter_loop kws msg i) = CHR ''*'' # r"
        using True Some p by (cases kw) (simp_all add: filter_loop.simps [of kws msg i])
      then show ?thesis using 1(4,5) w by auto
    qed
  next
    case False
    then show ?thesis using 1(4) by (cases w) (auto simp: filter_loop.simps [of kws msg i])
  qed
qed

lemma filter_loop_masks:
  assumes "\<forall>kw \<in> set kws. maskable kw" and "kw \<in> set kws"
  shows "\<not> strstr (map tolower (filter_loop kws msg i)) (map tolower kw)"
  using assms
proof (induction kws msg i rule: filter_loop.induct)
  case (1 kws msg i)
  have kw: "map tolower kw \<noteq> []" "CHR ''*'' \<notin> set (map tolower kw)" using 1(3,4) by (auto simp: maskable_def)
  show ?case
  proof (cases "i < length msg")
    case True
    show ?thesis
    proof (cases "keyword_at kws msg i")
      case None
      then have "\<not> is_prefix (map tolower kw) (map tolower (filter_loop kws msg i))"
        using keyword_at_here [OF 1(4), of i msg] filter_loop_prefix [OF 1(3) _ kw(2), of msg i] kw(1) by auto
      then show ?thesis using 1(1) [OF True None 1(3,4)] True None
        by (simp add: filter_loop.simps [of kws msg i])
    next
      case (Some p)
      obtain k pos where p: "p = (k, pos)" by (cases p)
      have f: "filter_loop kws msg i = replicate (length k) CHR ''*'' @ filter_loop kws msg (max (Suc i) (pos + length k))"
        using True Some p by (simp add: filter_loop.simps [of kws msg i])
      show ?thesis using 1(2) [OF True Some p [symmetric] 1(3,4)] strstr_stars [OF kw] unfolding f by simp
    qed
  next
    case False
    then show ?thesis using kw(1) by (simp add: filter_loop.simps [of kws msg i])
  qed
qed

lemma filter_loop_clean:
  "\<forall>kw \<in> set kws. \<not> strstr (map tolower msg) (map tolower kw) \<Longrightarrow> filter_loop kws msg i = drop i msg"
proof (induction kws msg i rule: filter_loop.induct)
  case (1 kws msg i)
  then show ?case
    using keyword_at_none [OF 1(3), of i]
    by (auto simp: filter_loop.simps [of kws msg i] Cons_nth_drop_Suc)
qed

lemma filter_loop_length:
  "length (filter_loop kws msg i) \<le> length msg - i"
proof (induction kws msg i rule: filter_loop.induct)
  case (1 kws msg i)
  show ?case
  proof (cases "i < length msg")
    case True
    show ?thesis
    proof (cases "keyword_at kws msg i")
      case None
      then show ?thesis using 1(1) [OF True None] True by (simp add: filter_loop.simps [of kws msg i])
    next
      case (Some p)
      obtain k pos where p: "p = (k, pos)" by (cases p)
      have "pos + length k \<le> length msg" "i \<le> pos"
        using is_prefix_length [of "map tolower k" "drop pos (map tolower msg)"] keyword_at_mem [of kws msg i k pos]
          keyword_at_ge [of kws msg i k pos] Some p by auto
      then show ?thesis using 1(2) [OF True Some p [symmetric]] True Some p by (simp add: filter_loop.simps [of kws msg i])
    qed
  qed (simp add: filter_loop.simps)
qed

subsection \<open>The invariant\<close>

definition name_of :: "chat \<Rightarrow> int \<Rightarrow> string" where
  "name_of s = (\<lambda>fd. val_at [] fd (client_usernames s))"

definition registered :: "chat \<Rightarrow> string set" where
  "registered s = dom (map_of (registered_users s))"

definition chat_inv :: "chat \<Rightarrow> bool" where
  "chat_inv s \<longleftrightarrow>
     (\<forall>fd \<in> set (logged_in_clients s). map_of (client_usernames s) fd \<noteq> None) \<and>
     inj_on (name_of s) (set (logged_in_clients s)) \<and>
     set (logged_in_usernames s) = name_of s ` set (logged_in_clients s) \<and>
     (\<forall>fd \<in> set (logged_in_clients s). map_of (client_statuses s) (name_of s fd) \<noteq> None) \<and>
     (\<forall>u. map_of (client_statuses s) u \<noteq> None \<longrightarrow> u \<in> registered s) \<and>
     ran (map_of (client_statuses s)) \<subseteq> {''online'', ''offline'', ''busy''} \<and>
     ran (map_of (client_chat_rooms s)) \<subseteq> {0..100} \<and>
     sorted_wrt (<) (map fst (registered_users s))"

lemma chat_inv_frame [simp]:
  "chat_inv (outbox_update f s) = chat_inv s" "chat_inv (client_sockets_update f1 s) = chat_inv s"
  "chat_inv (chat_rooms_update f2 s) = chat_inv s" "chat_inv (chat_room_clients_update f3 s) = chat_inv s"
  "chat_inv (chat_room_creators_update f4 s) = chat_inv s" "chat_inv (chat_room_pins_update f5 s) = chat_inv s"
  "chat_inv (room_pin_message_update f6 s) = chat_inv s" "chat_inv (in_room_update f7 s) = chat_inv s"
  "chat_inv (hung_up_update f8 s) = chat_inv s"
  by (simp_all add: chat_inv_def name_of_def registered_def)

lemma send_message_inv [simp]: "chat_inv (send_message fd m s) = chat_inv s"
  by (simp add: send_message_def)

lemma rooms_inv: "chat_inv s \<Longrightarrow> ran (map_of m) \<subseteq> {0..100} \<Longrightarrow> chat_inv (s\<lparr>client_chat_rooms := m\<rparr>)"
  by (simp add: chat_inv_def name_of_def registered_def)

lemma inv_rooms: "chat_inv s \<Longrightarrow> ran (map_of (client_chat_rooms s)) \<subseteq> {0..100}"
  by (simp add: chat_inv_def)

lemma ran_fold_ensure: "ran (map_of m) \<subseteq> A \<Longrightarrow> d \<in> A \<Longrightarrow> ran (map_of (fold (ensure d) ks m)) \<subseteq> A"
  by (induction ks arbitrary: m) (simp_all add: om.ran_brackets)

lemma name_of_fold_ensure [simp]:
  "name_of (s\<lparr>client_usernames := fold (ensure []) ks (client_usernames s)\<rparr>) = name_of s"
  by (simp add: name_of_def fold_ensure_read fun_eq_iff)

lemma usernames_inv: "chat_inv s \<Longrightarrow> chat_inv (s\<lparr>client_usernames := fold (ensure []) ks (client_usernames s)\<rparr>)"
  unfolding chat_inv_def name_of_fold_ensure by (auto simp: registered_def fold_ensure_get)

lemma username_inv: "chat_inv s \<Longrightarrow> chat_inv (s\<lparr>client_usernames := ensure [] fd (client_usernames s)\<rparr>)"
  using usernames_inv [of s "[fd]"] by simp

lemma status_inv:
  assumes "chat_inv s" and "u \<in> registered s" and "st \<in> {''online'', ''offline'', ''busy''}"
  shows "chat_inv (s\<lparr>client_statuses := put u st (client_statuses s)\<rparr>)"
proof -
  have "ran (map_of (put u st (client_statuses s))) \<subseteq> {''online'', ''offline'', ''busy''}"
    using assms(1,3) by (intro om.ran_ins) (auto simp: chat_inv_def)
  then show ?thesis using assms by (auto simp: chat_inv_def name_of_def registered_def map_of_put)
qed

lemma register_inv:
  assumes "chat_inv s"
  shows "chat_inv (s\<lparr>registered_users := put u p (registered_users s)\<rparr>)"
  using assms sorted_put [of "registered_users s" u p]
  by (auto simp: chat_inv_def name_of_def registered_def map_of_put)

lemma login_inv:
  assumes "chat_inv s" and "\<not> logged_in s fd" and "u \<in> registered s" and "u \<notin> set (logged_in_usernames s)"
  shows "chat_inv (s\<lparr>logged_in_clients := set_insert fd (logged_in_clients s),
    client_usernames := put fd u (client_usernames s), client_statuses := put u ''online'' (client_statuses s),
    logged_in_usernames := set_insert u (logged_in_usernames s)\<rparr>)" (is "chat_inv ?t")
proof -
  have inv: "\<And>fd. fd \<in> set (logged_in_clients s) \<Longrightarrow> map_of (client_usernames s) fd \<noteq> None"
      "inj_on (name_of s) (set (logged_in_clients s))" "set (logged_in_usernames s) = name_of s ` set (logged_in_clients s)"
      "\<And>fd. fd \<in> set (logged_in_clients s) \<Longrightarrow> map_of (client_statuses s) (name_of s fd) \<noteq> None"
      "\<And>u. map_of (client_statuses s) u \<noteq> None \<Longrightarrow> u \<in> registered s"
      "ran (map_of (client_statuses s)) \<subseteq> {''online'', ''offline'', ''busy''}"
      "ran (map_of (client_chat_rooms s)) \<subseteq> {0..100}" "sorted_wrt (<) (map fst (registered_users s))"
    using assms(1) by (simp_all add: chat_inv_def)
  have n: "name_of ?t = (name_of s)(fd := u)" by (auto simp: name_of_def val_at_def map_of_put fun_eq_iff)
  have fd: "fd \<notin> set (logged_in_clients s)" using assms(2) by (simp add: logged_in_def)
  have reg: "registered ?t = registered s" by (simp add: registered_def)
  show ?thesis unfolding chat_inv_def n reg
  proof (intro conjI)
    show "inj_on ((name_of s)(fd := u)) (set (logged_in_clients ?t))"
      using inv(2,3) assms(4) fd by (auto simp: inj_on_def)
    show "set (logged_in_usernames ?t) = ((name_of s)(fd := u)) ` set (logged_in_clients ?t)"
      using inv(3) fd by auto
    show "\<forall>fd' \<in> set (logged_in_clients ?t). map_of (client_statuses ?t) (((name_of s)(fd := u)) fd') \<noteq> None"
      using inv(4) by (auto simp: map_of_put)
    show "ran (map_of (client_statuses ?t)) \<subseteq> {''online'', ''offline'', ''busy''}"
      using om.ran_ins [OF inv(6), of "''online''" u] by simp
  qed (use inv(1,5,7,8) assms(3) in \<open>auto simp: map_of_put\<close>)
qed

lemma logout_inv:
  assumes "chat_inv s" and "logged_in s fd"
  shows "chat_inv (s\<lparr>logged_in_clients := removeAll fd (logged_in_clients s),
    logged_in_usernames := removeAll (name_of s fd) (logged_in_usernames s),
    client_usernames := erase fd (client_usernames s),
    client_statuses := put (name_of s fd) ''offline'' (client_statuses s)\<rparr>)" (is "chat_inv ?t")
proof -
  have inv: "\<And>fd. fd \<in> set (logged_in_clients s) \<Longrightarrow> map_of (client_usernames s) fd \<noteq> None"
      "inj_on (name_of s) (set (logged_in_clients s))" "set (logged_in_usernames s) = name_of s ` set (logged_in_clients s)"
      "\<And>fd. fd \<in> set (logged_in_clients s) \<Longrightarrow> map_of (client_statuses s) (name_of s fd) \<noteq> None"
      "\<And>u. map_of (client_statuses s) u \<noteq> None \<Longrightarrow> u \<in> registered s"
      "ran (map_of (client_statuses s)) \<subseteq> {''online'', ''offline'', ''busy''}"
      "ran (map_of (client_chat_rooms s)) \<subseteq> {0..100}" "sorted_wrt (<) (map fst (registered_users s))"
    using assms(1) by (simp_all add: chat_inv_def)
  have n: "name_of ?t = (name_of s)(fd := [])" by (auto simp: name_of_def val_at_def map_of_erase fun_eq_iff)
  have reg: "registered ?t = registered s" by (simp add: registered_def)
  have fd: "fd \<in> set (logged_in_clients s)" using assms(2) by (simp add: logged_in_def)
  show ?thesis unfolding chat_inv_def n reg
  proof (intro conjI)
    show "inj_on ((name_of s)(fd := [])) (set (logged_in_clients ?t))" using inv(2) by (auto simp: inj_on_def)
    show "set (logged_in_usernames ?t) = ((name_of s)(fd := [])) ` set (logged_in_clients ?t)"
      using inv(2,3) fd by (auto simp: inj_on_def)
    show "\<forall>fd' \<in> set (logged_in_clients ?t). map_of (client_statuses ?t) (((name_of s)(fd := [])) fd') \<noteq> None"
      using inv(4) by (auto simp: map_of_put)
    show "ran (map_of (client_statuses ?t)) \<subseteq> {''online'', ''offline'', ''busy''}"
      using om.ran_ins [OF inv(6), of "''offline''" "name_of s fd"] by simp
    show "\<forall>u. map_of (client_statuses ?t) u \<noteq> None \<longrightarrow> u \<in> registered s"
      using inv(5) inv(4) [OF fd] by (auto simp: map_of_put)
  qed (use inv(1,7,8) in \<open>auto simp: map_of_erase\<close>)
qed

lemma inv_name_registered: "chat_inv s \<Longrightarrow> logged_in s fd \<Longrightarrow> name_of s fd \<in> registered s"
  by (simp add: chat_inv_def logged_in_def)

lemma notify_inv: "chat_inv s \<Longrightarrow> chat_inv (notify skip room msgs cs s)"
  unfolding notify_eq chat_inv_frame by (rule rooms_inv) (simp_all add: ran_fold_ensure inv_rooms)

lemma expel_inv: "chat_inv s \<Longrightarrow> chat_inv (expel room msgs cs s)"
  using expel_eq [of room msgs cs s "{0..100}"] rooms_inv [of s] inv_rooms [of s] by (auto simp: chat_inv_frame)

lemma history_inv [simp]: "chat_inv (send_chat_history fd room s) = chat_inv s"
  by (simp add: send_chat_history_def Let_def split: option.split)

lemma cmds_inv:
  assumes "chat_inv s" and "\<And>u. freed u = u"
  shows "chat_inv (cmd_register fd rest s)" "chat_inv (cmd_login fd rest s)" "chat_inv (cmd_logout freed fd rest s)"
    "chat_inv (cmd_exit freed fd rest s)" "chat_inv (cmd_whoami fd rest s)" "chat_inv (cmd_set_status fd rest s)"
    "chat_inv (cmd_list_user fd rest s)" "chat_inv (cmd_enter fd rest s)" "chat_inv (cmd_list_room fd rest s)"
    "chat_inv (cmd_close fd rest s)"
proof -
  show "chat_inv (cmd_register fd rest s)"
    using assms(1) register_inv [OF assms(1)] by (auto simp: cmd_register_def split: prod.split option.split)
  show "chat_inv (cmd_login fd rest s)"
    using assms(1) login_inv [OF assms(1)] by (auto simp: cmd_login_def registered_def split: prod.split option.split)
  show "chat_inv (cmd_logout freed fd rest s)"
    using assms(1) logout_inv [OF assms(1), of fd] by (auto simp: cmd_logout_def assms(2) Let_def name_of_def)
  show "chat_inv (cmd_whoami fd rest s)"
    using assms(1) username_inv [OF assms(1)] by (auto simp: cmd_whoami_def Let_def)
  show "chat_inv (cmd_list_user fd rest s)" using assms(1) by (auto simp: cmd_list_user_def)
  show "chat_inv (cmd_list_room fd rest s)" using assms(1) by (auto simp: cmd_list_room_def Let_def)
  show "chat_inv (cmd_close fd rest s)"
    using assms(1) username_inv [of "s\<lparr>chat_room_creators := x\<rparr>" fd for x]
    by (auto simp: cmd_close_def Let_def intro!: expel_inv split: option.split)
  show "chat_inv (cmd_enter fd rest s)"
  proof -
    have r: "ran (map_of (put fd r (client_chat_rooms s))) \<subseteq> {0..100}" if "\<not> r < 1" "\<not> 100 < r" for r
      by (rule om.ran_ins [OF inv_rooms [OF assms(1)]]) (use that in simp)
    show ?thesis using assms(1)
      by (auto simp: cmd_enter_def Let_def intro!: notify_inv rooms_inv [OF _ r] split: option.split)
  qed
  have e: "logged_in s fd \<Longrightarrow> ensure [] fd (client_usernames s) = client_usernames s"
    using assms(1) by (intro om.brackets_present) (simp add: chat_inv_def logged_in_def)
  show "chat_inv (cmd_set_status fd rest s)"
    using assms(1) status_inv [OF assms(1) inv_name_registered [OF assms(1), of fd]] e
    by (auto simp: cmd_set_status_def Let_def name_of_def split: option.split)
  show "chat_inv (cmd_exit freed fd rest s)"
  proof (cases "logged_in s fd")
    case True
    have ord: "s\<lparr>logged_in_clients := a, client_usernames := b, client_statuses := c, logged_in_usernames := d\<rparr> =
      s\<lparr>logged_in_clients := a, logged_in_usernames := d, client_usernames := b, client_statuses := c\<rparr>" for a b c d
      by simp
    show ?thesis using True assms(1) logout_inv [OF assms(1) True]
      by (auto simp: cmd_exit_def Let_def logged_in_def assms(2) e name_of_def ord)
  next
    case False
    then show ?thesis using assms(1) username_inv [OF assms(1), of fd]
      by (auto simp: cmd_exit_def Let_def logged_in_def)
  qed
qed

lemma room_list_user_inv:
  assumes "chat_inv s"
  shows "chat_inv (room_list_user fd room s)"
proof -
  let ?m = "fold (ensure 0) (logged_in_clients s) (client_chat_rooms s)"
  let ?c = "filter (\<lambda>c. val_at 0 c ?m = room) (logged_in_clients s)"
  have c: "fold (ensure []) ?c (client_usernames s) = client_usernames s"
    by (rule fold_ensure_present) (use assms in \<open>auto simp: chat_inv_def\<close>)
  have n: "fold (ensure []) (sort (map (\<lambda>c. val_at [] c (client_usernames s)) ?c)) (client_statuses s) = client_statuses s"
    by (rule fold_ensure_present) (use assms in \<open>auto simp: chat_inv_def name_of_def\<close>)
  have "chat_inv (s\<lparr>client_chat_rooms := ?m\<rparr>)"
    by (rule rooms_inv [OF assms]) (rule ran_fold_ensure [OF inv_rooms [OF assms]], simp)
  then show ?thesis by (simp add: room_list_user_def Let_def c n)
qed

lemma room_cmds_inv:
  assumes "chat_inv s" and "room_command fd token rest s = Inr t"
  shows "chat_inv t"
proof -
  let ?s = "s\<lparr>client_usernames := ensure [] fd (client_usernames s)\<rparr>"
  note u = username_inv [OF assms(1), of fd] and r = inv_rooms [OF assms(1)]
  have pin: "chat_inv t" if "room_pin fd room rest s = Inr t" for room
    using that u assms(1) by (auto simp: room_pin_def Let_def intro!: notify_inv split: option.splits if_splits)
  have msg: "chat_inv (room_message fd room token rest s)" for room
    using u assms(1) by (auto simp: room_message_def Let_def intro!: notify_inv split: option.split)
  have leave: "chat_inv (room_exit fd room s)" for room
  proof -
    let ?n = "notify (\<lambda>c. c = fd) room [name_of s fd @ '' had left the chat room.'' @ nl] (logged_in_clients s) ?s"
    have n: "chat_inv ?n" by (rule notify_inv [OF u])
    have "chat_inv (?n\<lparr>chat_room_clients := x, client_chat_rooms := erase fd (client_chat_rooms ?n)\<rparr>)" for x
      by (rule rooms_inv) (use n om.ran_del [OF inv_rooms [OF n]] in simp_all)
    then show ?thesis by (simp add: room_exit_def Let_def name_of_def om.read_brackets)
  qed
  have "chat_inv (room_list_user fd room s)" for room
    by (rule room_list_user_inv [OF assms(1)])
  with pin msg leave assms show ?thesis
    by (auto simp: room_command_def room_delete_pin_def Let_def split: if_splits)
qed

lemma disconnect_inv:
  assumes "chat_inv s" and "\<And>u. freed u = u"
  shows "chat_inv (disconnect freed fd s)"
proof (cases "logged_in s fd")
  case True
  let ?s = "s\<lparr>client_sockets := removeAll fd (client_sockets s)\<rparr>"
  have "chat_inv ?s" "logged_in ?s fd" using assms(1) True by (simp_all add: logged_in_def)
  from logout_inv [OF this] True show ?thesis
    by (simp add: disconnect_def Let_def assms(2) logged_in_def name_of_def)
next
  case False
  then show ?thesis using assms(1) by (simp add: disconnect_def Let_def logged_in_def)
qed

lemma handle_command_inv:
  assumes "chat_inv s" and "\<And>u. freed u = u" and "handle_command freed fd cmd s = Inr t"
  shows "chat_inv t"
  using assms(3) cmds_inv [where freed = freed, OF assms(1,2)] assms(1) room_cmds_inv [OF assms(1)]
  by (auto simp: handle_command_def split: prod.splits option.splits if_splits)

lemma chat_step_inv:
  assumes "chat_inv s" and "\<And>u. freed u = u" and "chat_step freed s e = Inr t"
  shows "chat_inv t"
  using assms(1,3) handle_command_inv [where freed = freed, OF assms(1,2)] disconnect_inv [where freed = freed, OF assms(1,2)]
  by (cases e) (auto simp: handle_client_def split: option.splits if_splits)

lemma chat_init_inv: "chat_inv chat_init"
  by (simp add: chat_inv_def chat_init_def registered_def name_of_def)

lemma chat_run_inv: "chat_run freed s es = Inr t \<Longrightarrow> (\<And>u. freed u = u) \<Longrightarrow> chat_inv s \<Longrightarrow> chat_inv t"
proof (induction es arbitrary: s)
  case (Cons e es)
  from Cons.prems(1) obtain u where "chat_step freed s e = Inr u" "chat_run freed u es = Inr t" by (auto split: sum.splits)
  with Cons chat_step_inv [of s freed e u] show ?case by blast
qed simp

text \<open>Registrations are only ever added.\<close>

definition adds_user :: "chat \<Rightarrow> chat \<Rightarrow> bool" where
  "adds_user s t \<longleftrightarrow> registered_users t = registered_users s \<or>
     (\<exists>u p. map_of (registered_users s) u = None \<and> registered_users t = put u p (registered_users s))"

lemma notify_users [simp]: "registered_users (notify skip room msgs cs s) = registered_users s"
  by (simp add: notify_eq)

lemma expel_users [simp]: "registered_users (expel room msgs cs s) = registered_users s"
  using expel_eq [of room msgs cs s UNIV] by auto

lemma history_users [simp]: "registered_users (send_chat_history fd room s) = registered_users s"
  by (simp add: send_chat_history_def Let_def split: option.split)

lemma register_adds: "adds_user s (cmd_register fd rest s)"
  by (auto simp: cmd_register_def adds_user_def send_message_def split: prod.split option.split)

lemma cmds_users:
  "registered_users (cmd_login fd rest s) = registered_users s" "registered_users (cmd_logout freed fd rest s) = registered_users s"
  "registered_users (cmd_exit freed fd rest s) = registered_users s" "registered_users (cmd_whoami fd rest s) = registered_users s"
  "registered_users (cmd_set_status fd rest s) = registered_users s" "registered_users (cmd_list_user fd rest s) = registered_users s"
  "registered_users (cmd_enter fd rest s) = registered_users s" "registered_users (cmd_list_room fd rest s) = registered_users s"
  "registered_users (cmd_close fd rest s) = registered_users s"
  by (simp_all add: cmd_login_def cmd_logout_def cmd_exit_def cmd_whoami_def cmd_set_status_def cmd_list_user_def
      cmd_enter_def cmd_list_room_def cmd_close_def send_message_def Let_def split: prod.split option.split)

lemma room_command_users: "room_command fd token rest s = Inr t \<Longrightarrow> registered_users t = registered_users s"
  by (auto simp: room_command_def room_pin_def room_delete_pin_def room_exit_def room_list_user_def room_message_def
      send_message_def Let_def split: if_splits option.splits)

lemma chat_step_adds: "chat_step freed s e = Inr t \<Longrightarrow> adds_user s t"
proof (cases e)
  case (Receive fd r)
  assume "chat_step freed s e = Inr t"
  with Receive register_adds [of s fd] room_command_users [of fd _ _ s t] show ?thesis
    by (auto simp: handle_client_def handle_command_def disconnect_def adds_user_def cmds_users send_message_def Let_def
        split: option.splits if_splits prod.splits)
qed (auto simp: adds_user_def)

lemma chat_run_keeps_password:
  "chat_run freed s es = Inr t \<Longrightarrow> map_of (registered_users s) u = Some p \<Longrightarrow> map_of (registered_users t) u = Some p"
proof (induction es arbitrary: s)
  case (Cons e es)
  from Cons.prems(1) obtain v where v: "chat_step freed s e = Inr v" "chat_run freed v es = Inr t" by (auto split: sum.splits)
  from chat_step_adds [OF v(1)] Cons.prems(2) have "map_of (registered_users v) u = Some p"
    by (auto simp: adds_user_def map_of_put)
  then show ?case using Cons.IH [OF v(2)] by blast
qed simp

text \<open>What a client reads on entering a room without a pinned message.\<close>

definition greeting :: "int \<Rightarrow> string \<Rightarrow> string list" where
  "greeting room owner = [''Welcome to the public chat room.'' @ nl, ''Room number: '', print_int room, nl,
     ''Owner: '', owner, nl]"

definition history_lines :: "string list \<Rightarrow> string list" where
  "history_lines h = concat (map (\<lambda>m. [m, nl]) (drop (length h - MAX_CHAT_HISTORY_SIZE) h))"

lemma enter_shows_history:
  assumes "logged_in s d" and "tok rest = (Some num, more')" and "atoi num = r" and "1 \<le> r" and "r \<le> 100"
    and "\<not> val_at False r (chat_room_pins s)"
  shows "\<exists>owner others. outbox (cmd_enter d rest s) = outbox s @ map (Pair d) (greeting r owner) @
      map (Pair d) (history_lines (val_at [] r (chat_rooms s))) @ others \<and> d \<notin> fst ` set others"
proof -
  let ?h = "val_at [] r (chat_rooms s)"
  have h: "map_of (ensure [] r (chat_rooms s)) r = Some ?h"
    by (auto simp: om.get_brackets val_at_def split: option.split)
  have p: "\<not> val_at False r (ensure False r (chat_room_pins s))" using assms(6) by (simp add: om.read_brackets)
  show ?thesis
    using assms h p
    by (simp add: cmd_enter_def Let_def notify_eq send_chat_history_def om.read_brackets greeting_def history_lines_def)
      (fastforce simp: history_lines_def)
qed

subsection \<open>Properties\<close>


definition demo_users :: "chat_event list" where
  "demo_users = [Connect 4, Receive 4 (Some (''register ann x'' @ nl)), Receive 4 (Some (''login ann x'' @ nl))]"

lemma demo_users_run:
  "\<exists>s. chat_run (\<lambda>u. u) chat_init demo_users = Inr s \<and> logged_in_clients s = [4] \<and> client_usernames s = [(4, ''ann'')] \<and>
     registered_users s = [(''ann'', ''x'')] \<and> client_chat_rooms s = []"
  by (simp add: demo_users_def chat_init_def handle_client_def BUFFER_SIZE_def nl_def handle_command_def tok_def
      strtok_def cmd_register_def cmd_login_def send_message_def logged_in_def set_insert_def Let_def)


text \<open>
  C36. The filter of the messages always terminates, with at most as many characters as the message;
  in the result no keyword is left, in upper or lower case; a message without keywords is not changed. It is not faithful
  to the rest of a message with a keyword: the text before it is dropped as well, as in the example.
\<close>

theorem filter_message_masks:
  "list_all (\<lambda>kw. \<not> strstr (map tolower (filter_message msg)) (map tolower kw)) filtered_keywords \<and>
   length (filter_message msg) \<le> length msg \<and>
   (filter_message msg = msg \<or> list_ex (\<lambda>kw. strstr (map tolower msg) (map tolower kw)) filtered_keywords) \<and>
   filter_message ''I say Hello'' = ''*****''"
proof -
  have m: "\<forall>kw \<in> set filtered_keywords. maskable kw"
    by (simp add: filtered_keywords_def maskable_def tolower_def)
  have "list_all (\<lambda>kw. \<not> strstr (map tolower (filter_message msg)) (map tolower kw)) filtered_keywords"
    using filter_loop_masks [OF m] by (simp add: list_all_iff filter_message_def)
  moreover have "length (filter_message msg) \<le> length msg"
    using filter_loop_length [of filtered_keywords msg 0] by (simp add: filter_message_def)
  moreover have "filter_message msg = msg \<or> list_ex (\<lambda>kw. strstr (map tolower msg) (map tolower kw)) filtered_keywords"
    using filter_loop_clean [of filtered_keywords msg 0] by (auto simp: filter_message_def list_ex_iff)
  moreover have "keyword_at filtered_keywords ''I say Hello'' 0 = Some (''hello'', 6)"
    by (simp add: filtered_keywords_def find_from_def tolower_def isalpha_def upt_rec Let_def char_of_def bit_0)
  then have "filter_message ''I say Hello'' = ''*****''"
    by (simp add: filter_message_def filter_loop.simps [of filtered_keywords "''I say Hello''" 0]
        filter_loop.simps [of filtered_keywords "''I say Hello''" 11] replicate_numeral_Cons)
  ultimately show ?thesis by blast
qed

definition command_words :: "string list" where
  "command_words = [''register'', ''login'', ''logout'', ''exit'', ''whoami'', ''set-status'', ''list-user'',
     ''enter-chat-room'', ''list-chat-room'', ''close-chat-room'']"

definition chat_line :: "chat \<Rightarrow> int \<Rightarrow> string \<Rightarrow> string \<Rightarrow> string" where
  "chat_line s fd w rest = ''['' @ name_of s fd @ '']: '' @
     filter_message (w @ (case fst (strtok nl rest) of None \<Rightarrow> [] | Some m \<Rightarrow> '' '' @ m))"

definition short_message :: "string \<Rightarrow> bool" where
  "short_message rest = (case fst (strtok nl rest) of None \<Rightarrow> True | Some m \<Rightarrow> length m \<le> 150)"

text \<open>
  C37. What a client in a room types, when it is no command, is delivered, filtered and with the name
  of its user in front, to exactly the clients logged in that are in the room, itself included, and
  to each once; it becomes the last message of the room's history and no other room changes; and a
  client that then enters the room reads the last ten messages, this one the last of them.
\<close>

theorem room_message_delivered:
  assumes "tok cmd = (Some w, rest)" and "w \<notin> set command_words" and "hd w \<noteq> CHR ''/''"
    and "map_of (client_chat_rooms s) fd = Some r" and "short_message rest"
  shows "\<exists>t. handle_command freed fd cmd s = Inr t \<and>
    outbox t = outbox s @ concat (map (\<lambda>c. [(c, chat_line s fd w rest), (c, nl)])
      (filter (\<lambda>c. val_at 0 c (client_chat_rooms s) = r) (logged_in_clients s))) \<and>
    val_at [] r (chat_rooms t) = val_at [] r (chat_rooms s) @ [chat_line s fd w rest] \<and>
    (\<forall>j. j \<noteq> r \<longrightarrow> map_of (chat_rooms t) j = map_of (chat_rooms s) j) \<and>
    (logged_in s d \<and> tok cmd' = (Some num, rest') \<and> atoi num = r \<and> 1 \<le> r \<and> r \<le> 100 \<and>
       \<not> val_at False r (chat_room_pins s) \<longrightarrow>
     (\<exists>owner others. outbox (cmd_enter d cmd' t) = outbox t @ map (Pair d) (greeting r owner) @
        map (Pair d) (history_lines (val_at [] r (chat_rooms s) @ [chat_line s fd w rest])) @ others \<and>
        d \<notin> fst ` set others))"
proof -
  let ?t = "room_message fd r w rest s"
  have h: "handle_command freed fd cmd s = Inr ?t"
    using assms(1-4) by (simp add: handle_command_def command_words_def room_command_def val_at_def)
  have f: "outbox ?t = outbox s @ concat (map (\<lambda>c. [(c, chat_line s fd w rest), (c, nl)])
      (filter (\<lambda>c. val_at 0 c (client_chat_rooms s) = r) (logged_in_clients s)))"
    "chat_rooms ?t = put r (val_at [] r (chat_rooms s) @ [chat_line s fd w rest]) (chat_rooms s)"
    "logged_in ?t d = logged_in s d" "chat_room_pins ?t = chat_room_pins s"
    using assms(5) by (simp_all add: room_message_def Let_def short_message_def notify_eq chat_line_def name_of_def
        om.read_brackets logged_in_def)
  have v: "val_at [] r (chat_rooms ?t) = val_at [] r (chat_rooms s) @ [chat_line s fd w rest]"
    by (simp add: f(2) val_at_def map_of_put)
  show ?thesis
    using h f(1) v enter_shows_history [of ?t d cmd' num rest' r] f(3,4)
    by (intro exI [of _ ?t]) (simp add: f(2) map_of_put)
qed

theorem room_message_delivered_witness:
  "\<exists>t. handle_command (\<lambda>u. u) 4 ''hi all'' (chat_init\<lparr>logged_in_clients := [4, 5, 6],
       client_usernames := [(4, ''ann''), (5, ''bob''), (6, ''cy'')], client_chat_rooms := [(4, 1), (5, 1)]\<rparr>) = Inr t \<and>
     outbox t = [(4, ''[ann]: hi all''), (4, nl), (5, ''[ann]: hi all''), (5, nl)]"
proof -
  let ?s = "chat_init\<lparr>logged_in_clients := [4, 5, 6],
       client_usernames := [(4, ''ann''), (5, ''bob''), (6, ''cy'')], client_chat_rooms := [(4, 1), (5, 1)]\<rparr>"
  have "filter_message ''hi all'' = ''hi all''"
    using filter_loop_clean [of filtered_keywords "''hi all''" 0]
    by (simp add: filter_message_def filtered_keywords_def tolower_def)
  then have l: "chat_line ?s 4 ''hi'' ''all'' = ''[ann]: hi all''"
    by (simp add: chat_line_def strtok_def nl_def name_of_def val_at_def Let_def)
  have t: "tok ''hi all'' = (Some ''hi'', ''all'')" "short_message ''all''"
    by (simp_all add: tok_def strtok_def nl_def short_message_def Let_def)
  have c: "''hi'' \<notin> set command_words" "hd ''hi'' \<noteq> CHR ''/''" "map_of (client_chat_rooms ?s) 4 = Some 1"
    by (simp_all add: command_words_def)
  from room_message_delivered [OF t(1) c t(2), of "\<lambda>u. u"] obtain t where
    "handle_command (\<lambda>u. u) 4 ''hi all'' ?s = Inr t"
    "outbox t = outbox ?s @ concat (map (\<lambda>c. [(c, chat_line ?s 4 ''hi'' ''all''), (c, nl)])
      (filter (\<lambda>c. val_at 0 c (client_chat_rooms ?s) = 1) (logged_in_clients ?s)))" by blast
  then show ?thesis unfolding l by (intro exI [of _ t]) (simp add: chat_init_def val_at_def)
qed

text \<open>
  What the operations leave behind: a message in a room puts every client that is logged in but in
  no room into the room 0, whose unknown commands are then broadcast there instead of being refused;
  \<open>logout\<close> leaves the client in its room; closing a room keeps its pinned message for the next room of that number;
  and \<open>/delete-pin\<close> leaves the mark that there is a pinned message.
\<close>

theorem chat_leftovers:
  assumes "logged_in s d" and "map_of (client_chat_rooms s) d = None" and "short_message rest"
  shows "map_of (client_chat_rooms (room_message fd r w rest s)) d = Some 0 \<and>
    client_chat_rooms (cmd_logout freed fd cmd s) = client_chat_rooms s \<and>
    room_pin_message (cmd_close fd cmd s) = room_pin_message s \<and> chat_room_pins (cmd_close fd cmd s) = chat_room_pins s \<and>
    (val_at False r (chat_room_pins s) \<longrightarrow> val_at False r (chat_room_pins (room_delete_pin fd r s)) \<and>
       val_at [] r (room_pin_message (room_delete_pin fd r s)) = [])"
proof -
  have "map_of (client_chat_rooms (room_message fd r w rest s)) d = Some 0"
    using assms by (simp add: room_message_def Let_def notify_eq fold_ensure_get logged_in_def short_message_def)
  moreover have "client_chat_rooms (cmd_logout freed fd cmd s) = client_chat_rooms s"
    by (simp add: cmd_logout_def send_message_def Let_def)
  moreover have "room_pin_message (expel room msgs cs u) = room_pin_message u"
      "chat_room_pins (expel room msgs cs u) = chat_room_pins u" for room msgs cs u
    using expel_eq [of room msgs cs u UNIV] by auto
  then have "room_pin_message (cmd_close fd cmd s) = room_pin_message s" "chat_room_pins (cmd_close fd cmd s) = chat_room_pins s"
    by (simp_all add: cmd_close_def send_message_def Let_def split: option.split)
  moreover have "val_at False r (chat_room_pins (room_delete_pin fd r s)) \<and>
       val_at [] r (room_pin_message (room_delete_pin fd r s)) = []" if "val_at False r (chat_room_pins s)"
    using that by (simp add: room_delete_pin_def Let_def om.read_brackets val_at_def [of "[]"] map_of_put)
  ultimately show ?thesis by blast
qed

theorem chat_leftovers_witness:
  "map_of (client_chat_rooms (room_message 4 1 ''hi'' [] (chat_init\<lparr>logged_in_clients := [4, 5],
     client_usernames := [(4, ''ann''), (5, ''bob'')], client_chat_rooms := [(4, 1)]\<rparr>))) 5 = Some 0"
  using chat_leftovers [of "chat_init\<lparr>logged_in_clients := [4, 5],
     client_usernames := [(4, ''ann''), (5, ''bob'')], client_chat_rooms := [(4, 1)]\<rparr>" 5 "[]" 4 1 "''hi''"]
  by (simp add: logged_in_def short_message_def strtok_def)

end
