(* ===== verification/Nonblock_Client.thy ===== *)
theory Nonblock_Client
  imports NP_Prelude
begin

text \<open>
  \<open>nonblock/strclinonb.c\<close>: \<open>str_cli\<close> with nonblocking descriptors copies standard input to the socket and
  the socket to standard output through two buffers.

  A buffer is the array with its two pointers as offsets. What the kernel does in one round of the loop is a
  record: which descriptors it finds ready, and what it answers to the calls; \<open>read\<close> gives at most what there
  is room for and \<open>write\<close> takes at most what it is given. The histories \<open>nb_taken\<close>, \<open>nb_sent\<close>, \<open>nb_got\<close> and
  \<open>nb_shown\<close> are all the bytes read from standard input, written to the socket, read from the
  socket and written to standard output; \<open>nb_fin\<close> counts the calls of \<open>Shutdown\<close>.
\<close>

record buf =
  b_mem :: "byte list"
  b_in :: nat
  b_out :: nat

record nbstate =
  nb_to :: buf
  nb_fr :: buf
  nb_stdineof :: bool
  nb_taken :: "byte list"
  nb_sent :: "byte list"
  nb_got :: "byte list"
  nb_shown :: "byte list"
  nb_fin :: nat

record nbio =
  io_stdin_ready :: bool
  io_sock_readable :: bool
  io_sock_writable :: bool
  io_stdout_ready :: bool
  io_read_stdin :: "errno + byte list"
  io_read_sock :: "errno + byte list"
  io_write_stdout :: "errno + nat"
  io_write_sock :: "errno + nat"

definition empty_buf :: buf where
  "empty_buf = \<lparr>b_mem = replicate MAXLINE 0, b_in = 0, b_out = 0\<rparr>"

definition nb_init :: nbstate where
  "nb_init = \<lparr>nb_to = empty_buf, nb_fr = empty_buf, nb_stdineof = False, nb_taken = [], nb_sent = [], nb_got = [],
     nb_shown = [], nb_fin = 0\<rparr>"

text \<open>\<open>read(fd, iptr, &buf[MAXLINE] - iptr)\<close> storing \<open>d\<close>, and the bytes between the pointers.\<close>

definition fill :: "byte list \<Rightarrow> buf \<Rightarrow> buf" where
  "fill d b = b\<lparr>b_mem := take (b_in b) (b_mem b) @ d @ drop (b_in b + length d) (b_mem b), b_in := b_in b + length d\<rparr>"

definition pending :: "buf \<Rightarrow> byte list" where
  "pending b = take (b_in b - b_out b) (drop (b_out b) (b_mem b))"

text \<open>The bytes written are behind the output pointer; the pointers go back when all is written.\<close>

definition drain :: "nat \<Rightarrow> buf \<Rightarrow> buf" where
  "drain n b = (if b_out b + n = b_in b then b\<lparr>b_in := 0, b_out := 0\<rparr> else b\<lparr>b_out := b_out b + n\<rparr>)"

text \<open>Standard input; the second component is the flag of the socket in \<open>wset\<close>.\<close>

definition read_stdin :: "nbio \<Rightarrow> bool \<Rightarrow> nbstate \<Rightarrow> (nbstate \<times> bool) outcome" where
  "read_stdin k ws s =
     (case io_read_stdin k of
        Inl e \<Rightarrow> if e \<noteq> EWOULDBLOCK then Inl (Err_sys ''read error on stdin'') else Inr (s, ws)
      | Inr avail \<Rightarrow>
          (let d = take (MAXLINE - b_in (nb_to s)) avail in
           if d = [] then
             Inr (s\<lparr>nb_stdineof := True,
                    nb_fin := (if b_out (nb_to s) = b_in (nb_to s) then Suc (nb_fin s) else nb_fin s)\<rparr>, ws)
           else Inr (s\<lparr>nb_to := fill d (nb_to s), nb_taken := nb_taken s @ d\<rparr>, True)))"

text \<open>The socket; \<open>None\<close> in the second component: \<open>str_cli\<close> returns.\<close>

definition read_sock :: "nbio \<Rightarrow> bool \<Rightarrow> nbstate \<Rightarrow> (nbstate \<times> bool option) outcome" where
  "read_sock k wo s =
     (case io_read_sock k of
        Inl e \<Rightarrow> if e \<noteq> EWOULDBLOCK then Inl (Err_sys ''read error on socket'') else Inr (s, Some wo)
      | Inr avail \<Rightarrow>
          (let d = take (MAXLINE - b_in (nb_fr s)) avail in
           if d = [] then
             (if nb_stdineof s then Inr (s, None)
              else Inl (Err_quit ''str_cli: server terminated prematurely''))
           else Inr (s\<lparr>nb_fr := fill d (nb_fr s), nb_got := nb_got s @ d\<rparr>, Some True)))"

definition write_stdout :: "nbio \<Rightarrow> nbstate \<Rightarrow> nbstate outcome" where
  "write_stdout k s =
     (case io_write_stdout k of
        Inl e \<Rightarrow> if e \<noteq> EWOULDBLOCK then Inl (Err_sys ''write error to stdout'') else Inr s
      | Inr m \<Rightarrow>
          (let n = min m (b_in (nb_fr s) - b_out (nb_fr s)) in
           Inr (s\<lparr>nb_shown := nb_shown s @ take n (pending (nb_fr s)), nb_fr := drain n (nb_fr s)\<rparr>)))"

definition write_sock :: "nbio \<Rightarrow> nbstate \<Rightarrow> nbstate outcome" where
  "write_sock k s =
     (case io_write_sock k of
        Inl e \<Rightarrow> if e \<noteq> EWOULDBLOCK then Inl (Err_sys ''write error to socket'') else Inr s
      | Inr m \<Rightarrow>
          (let n = min m (b_in (nb_to s) - b_out (nb_to s));
               done = (b_out (nb_to s) + n = b_in (nb_to s)) in
           Inr (s\<lparr>nb_sent := nb_sent s @ take n (pending (nb_to s)), nb_to := drain n (nb_to s),
                  nb_fin := (if done \<and> nb_stdineof s then Suc (nb_fin s) else nb_fin s)\<rparr>)))"

text \<open>One round of the loop; the Boolean tells that \<open>str_cli\<close> returned.\<close>

definition nb_round :: "nbio \<Rightarrow> nbstate \<Rightarrow> (bool \<times> nbstate) outcome" where
  "nb_round k s =
     (let ri = (\<not> nb_stdineof s \<and> b_in (nb_to s) < MAXLINE \<and> io_stdin_ready k);
          rs = (b_in (nb_fr s) < MAXLINE \<and> io_sock_readable k);
          ws = (b_out (nb_to s) \<noteq> b_in (nb_to s) \<and> io_sock_writable k);
          wo = (b_out (nb_fr s) \<noteq> b_in (nb_fr s) \<and> io_stdout_ready k) in
      case (if ri then read_stdin k ws s else Inr (s, ws)) of
        Inl e \<Rightarrow> Inl e
      | Inr (s, ws) \<Rightarrow>
          (case (if rs then read_sock k wo s else Inr (s, Some wo)) of
             Inl e \<Rightarrow> Inl e
           | Inr (s, None) \<Rightarrow> Inr (True, s)
           | Inr (s, Some wo) \<Rightarrow>
               (case (if wo \<and> 0 < b_in (nb_fr s) - b_out (nb_fr s) then write_stdout k s else Inr s) of
                  Inl e \<Rightarrow> Inl e
                | Inr s \<Rightarrow>
                    (case (if ws \<and> 0 < b_in (nb_to s) - b_out (nb_to s) then write_sock k s else Inr s) of
                       Inl e \<Rightarrow> Inl e
                     | Inr s \<Rightarrow> Inr (False, s)))))"

fun nb_run :: "nbio list \<Rightarrow> nbstate \<Rightarrow> (bool \<times> nbstate) outcome" where
  "nb_run [] s = Inr (False, s)"
| "nb_run (k # ks) s =
     (case nb_round k s of Inl e \<Rightarrow> Inl e | Inr (True, s) \<Rightarrow> Inr (True, s) | Inr (False, s) \<Rightarrow> nb_run ks s)"

subsection \<open>The buffers as queues\<close>

definition buf_ok :: "buf \<Rightarrow> bool" where
  "buf_ok b \<longleftrightarrow> length (b_mem b) = MAXLINE \<and> b_out b \<le> b_in b \<and> b_in b \<le> MAXLINE"

lemma fill_ok:
  assumes "buf_ok b" and "length d \<le> MAXLINE - b_in b"
  shows "buf_ok (fill d b) \<and> pending (fill d b) = pending b @ d"
proof -
  have l: "length (b_mem b) = MAXLINE" "b_out b \<le> b_in b" "b_in b + length d \<le> MAXLINE"
    using assms by (auto simp: buf_ok_def)
  have "drop (b_out b) (b_mem (fill d b)) = drop (b_out b) (take (b_in b) (b_mem b)) @ d @ drop (b_in b + length d) (b_mem b)"
    using l by (simp add: fill_def)
  then show ?thesis using l
    by (simp add: buf_ok_def pending_def fill_def drop_take)
qed

lemma drain_ok:
  assumes "buf_ok b" and "n \<le> b_in b - b_out b"
  shows "buf_ok (drain n b) \<and> take n (pending b) @ pending (drain n b) = pending b \<and>
    (b_out (drain n b) = b_in (drain n b) \<longleftrightarrow> b_out b + n = b_in b)"
proof (cases "b_out b + n = b_in b")
  case True
  then have n: "n = b_in b - b_out b" by simp
  show ?thesis using True assms(1) unfolding n by (auto simp: buf_ok_def pending_def drain_def)
next
  case False
  have "pending (drain n b) = drop n (pending b)"
    using False by (simp add: drain_def pending_def drop_take add.commute)
  with False assms show ?thesis by (auto simp: buf_ok_def drain_def)
qed

definition nb_inv :: "nbstate \<Rightarrow> bool" where
  "nb_inv s \<longleftrightarrow>
     buf_ok (nb_to s) \<and> buf_ok (nb_fr s) \<and>
     nb_taken s = nb_sent s @ pending (nb_to s) \<and> nb_got s = nb_shown s @ pending (nb_fr s) \<and>
     nb_fin s = (if nb_stdineof s \<and> b_out (nb_to s) = b_in (nb_to s) then 1 else 0)"

lemma read_stdin_inv:
  assumes "nb_inv s" and "\<not> nb_stdineof s" and "read_stdin k ws s = Inr (t, w)"
  shows "nb_inv t"
proof (cases "io_read_stdin k")
  case (Inr avail)
  let ?d = "take (MAXLINE - b_in (nb_to s)) avail"
  have "buf_ok (fill ?d (nb_to s))" "pending (fill ?d (nb_to s)) = pending (nb_to s) @ ?d"
    using fill_ok [of "nb_to s" ?d] assms(1) by (auto simp: nb_inv_def)
  then show ?thesis using assms Inr by (auto simp: read_stdin_def nb_inv_def Let_def split: if_splits)
qed (use assms in \<open>auto simp: read_stdin_def split: if_splits\<close>)

lemma read_sock_inv:
  assumes "nb_inv s" and "read_sock k wo s = Inr (t, w)"
  shows "nb_inv t \<and> (w = None \<longrightarrow> nb_stdineof t)"
proof (cases "io_read_sock k")
  case (Inr avail)
  let ?d = "take (MAXLINE - b_in (nb_fr s)) avail"
  have "buf_ok (fill ?d (nb_fr s))" "pending (fill ?d (nb_fr s)) = pending (nb_fr s) @ ?d"
    using fill_ok [of "nb_fr s" ?d] assms(1) by (auto simp: nb_inv_def)
  then show ?thesis using assms Inr by (auto simp: read_sock_def nb_inv_def Let_def split: if_splits)
qed (use assms in \<open>auto simp: read_sock_def split: if_splits\<close>)

lemma write_stdout_inv:
  assumes "nb_inv s" and "write_stdout k s = Inr t"
  shows "nb_inv t"
proof (cases "io_write_stdout k")
  case (Inr m)
  let ?n = "min m (b_in (nb_fr s) - b_out (nb_fr s))"
  have "buf_ok (drain ?n (nb_fr s))" "take ?n (pending (nb_fr s)) @ pending (drain ?n (nb_fr s)) = pending (nb_fr s)"
    using drain_ok [of "nb_fr s" ?n] assms(1) by (auto simp: nb_inv_def)
  then show ?thesis using assms Inr by (auto simp: write_stdout_def nb_inv_def Let_def)
qed (use assms in \<open>auto simp: write_stdout_def split: if_splits\<close>)

lemma write_sock_inv:
  assumes "nb_inv s" and "0 < b_in (nb_to s) - b_out (nb_to s)" and "write_sock k s = Inr t"
  shows "nb_inv t"
proof (cases "io_write_sock k")
  case (Inr m)
  let ?n = "min m (b_in (nb_to s) - b_out (nb_to s))"
  have inv: "buf_ok (nb_to s)" "buf_ok (nb_fr s)" "nb_taken s = nb_sent s @ pending (nb_to s)"
      "nb_got s = nb_shown s @ pending (nb_fr s)" "nb_fin s = 0"
    using assms(1,2) by (simp_all add: nb_inv_def)
  have d: "buf_ok (drain ?n (nb_to s))" "take ?n (pending (nb_to s)) @ pending (drain ?n (nb_to s)) = pending (nb_to s)"
      "b_out (drain ?n (nb_to s)) = b_in (drain ?n (nb_to s)) \<longleftrightarrow> b_out (nb_to s) + ?n = b_in (nb_to s)"
    using drain_ok [OF inv(1), of ?n] by simp_all
  have t: "t = s\<lparr>nb_sent := nb_sent s @ take ?n (pending (nb_to s)), nb_to := drain ?n (nb_to s),
      nb_fin := (if b_out (nb_to s) + ?n = b_in (nb_to s) \<and> nb_stdineof s then Suc (nb_fin s) else nb_fin s)\<rparr>"
    using assms(3) Inr by (simp add: write_sock_def Let_def)
  show ?thesis unfolding t nb_inv_def using d inv by simp
qed (use assms in \<open>auto simp: write_sock_def split: if_splits\<close>)

lemma nb_round_inv:
  assumes "nb_inv s" and "nb_round k s = Inr (ret, t)"
  shows "nb_inv t \<and> (ret \<longrightarrow> nb_stdineof t)"
proof -
  let ?ri = "\<not> nb_stdineof s \<and> b_in (nb_to s) < MAXLINE \<and> io_stdin_ready k"
  let ?rs = "b_in (nb_fr s) < MAXLINE \<and> io_sock_readable k"
  let ?ws = "b_out (nb_to s) \<noteq> b_in (nb_to s) \<and> io_sock_writable k"
  let ?wo = "b_out (nb_fr s) \<noteq> b_in (nb_fr s) \<and> io_stdout_ready k"
  obtain s1 ws where 1: "(if ?ri then read_stdin k ?ws s else Inr (s, ?ws)) = Inr (s1, ws)"
    using assms(2) by (auto simp: nb_round_def Let_def split: sum.splits)
  have i1: "nb_inv s1" using 1 assms(1) read_stdin_inv [of s k ?ws s1 ws] by (cases ?ri) auto
  obtain s2 wo where 2: "(if ?rs then read_sock k ?wo s1 else Inr (s1, Some ?wo)) = Inr (s2, wo)"
    using assms(2) unfolding nb_round_def Let_def 1 by (auto split: sum.splits)
  have i2: "nb_inv s2" "wo = None \<Longrightarrow> nb_stdineof s2" using 2 i1 read_sock_inv [of s1 k ?wo s2 wo] by (cases ?rs; auto)+
  show ?thesis
  proof (cases wo)
    case None
    then show ?thesis using assms(2) i2 unfolding nb_round_def Let_def 1 by (simp add: 2)
  next
    case (Some w)
    let ?c3 = "w \<and> 0 < b_in (nb_fr s2) - b_out (nb_fr s2)"
    obtain s3 where 3: "(if ?c3 then write_stdout k s2 else Inr s2) = Inr s3"
      using assms(2) Some unfolding nb_round_def Let_def 1 by (auto simp: 2 split: sum.splits)
    have i3: "nb_inv s3" using 3 i2(1) write_stdout_inv [of s2 k s3] by (cases ?c3) auto
    let ?c4 = "ws \<and> 0 < b_in (nb_to s3) - b_out (nb_to s3)"
    have "(if ?c4 then write_sock k s3 else Inr s3) = Inr t \<and> \<not> ret"
      using assms(2) Some 3 unfolding nb_round_def Let_def 1 by (auto simp: 2 split: sum.splits)
    then show ?thesis using i3 write_sock_inv [of s3 k t] by (cases ?c4) auto
  qed
qed

lemma nb_run_inv: "nb_inv s \<Longrightarrow> nb_run ks s = Inr (ret, t) \<Longrightarrow> nb_inv t \<and> (ret \<longrightarrow> nb_stdineof t)"
  by (induction ks arbitrary: s) (auto split: sum.splits prod.splits bool.splits dest: nb_round_inv)

lemma nb_init_inv: "nb_inv nb_init"
  by (simp add: nb_inv_def nb_init_def buf_ok_def empty_buf_def pending_def)

subsection \<open>Properties\<close>

text \<open>Nothing happens in a round but what is given.\<close>

definition quiet :: nbio where
  "quiet = \<lparr>io_stdin_ready = False, io_sock_readable = False, io_sock_writable = False, io_stdout_ready = False,
     io_read_stdin = Inl EWOULDBLOCK, io_read_sock = Inl EWOULDBLOCK, io_write_stdout = Inl EWOULDBLOCK,
     io_write_sock = Inl EWOULDBLOCK\<rparr>"

text \<open>
  C39. Whatever the kernel answers, after any number of rounds: what was written to the socket and what is
  in the buffer is exactly what was read from standard input, in order, and the same for the
  other direction; the pointers stay ordered and inside the arrays; the connection is half closed exactly
  once, when standard input has ended and all of it is written; and \<open>str_cli\<close> returns only after that end. But
  the bytes of the server that are still in the buffer when it returns are lost: there is a run in which some are.
\<close>

theorem nonblock_conserves:
  "(case nb_run ks nb_init of
      Inl e \<Rightarrow> True
    | Inr (ret, s) \<Rightarrow>
        nb_taken s = nb_sent s @ pending (nb_to s) \<and> nb_got s = nb_shown s @ pending (nb_fr s) \<and>
        buf_ok (nb_to s) \<and> buf_ok (nb_fr s) \<and>
        nb_fin s = (if nb_stdineof s \<and> b_out (nb_to s) = b_in (nb_to s) then 1 else 0) \<and>
        (if ret then nb_stdineof s else True)) \<and>
   (\<exists>ks s. nb_run ks nb_init = Inr (True, s) \<and> nb_got s = [7] \<and> nb_shown s = [])"
proof
  show "case nb_run ks nb_init of Inl e \<Rightarrow> True | Inr (ret, s) \<Rightarrow>
        nb_taken s = nb_sent s @ pending (nb_to s) \<and> nb_got s = nb_shown s @ pending (nb_fr s) \<and>
        buf_ok (nb_to s) \<and> buf_ok (nb_fr s) \<and>
        nb_fin s = (if nb_stdineof s \<and> b_out (nb_to s) = b_in (nb_to s) then 1 else 0) \<and>
        (if ret then nb_stdineof s else True)"
    using nb_run_inv [OF nb_init_inv, of ks] by (auto simp: nb_inv_def split: sum.split)
  have "\<exists>s. nb_run [quiet\<lparr>io_stdin_ready := True, io_read_stdin := Inr [], io_sock_readable := True, io_read_sock := Inr [7]\<rparr>,
      quiet\<lparr>io_sock_readable := True, io_read_sock := Inr []\<rparr>] nb_init = Inr (True, s) \<and> nb_got s = [7] \<and> nb_shown s = []"
    by (simp add: nb_round_def nb_init_def empty_buf_def quiet_def read_stdin_def read_sock_def write_stdout_def fill_def
        MAXLINE_def Let_def)
  then show "\<exists>ks s. nb_run ks nb_init = Inr (True, s) \<and> nb_got s = [7] \<and> nb_shown s = []" by (rule exI)
qed

end
