(* ===== verification/Text_Numbers.thy ===== *)
theory Text_Numbers
  imports NP_Prelude
begin

text \<open>
  Numbers in text: what \<open>strtol\<close> with base 10 reads, which \<open>atol\<close>, \<open>std::stoi\<close> and the extraction of an \<open>int\<close>
  from a stream have in common, and that it reads back what was printed.
\<close>

definition INT_MAX :: int where "INT_MAX = 2147483647"
definition INT_MIN :: int where "INT_MIN = -2147483648"

text \<open>White space, a sign, digits; \<open>None\<close> if there is no digit. The second component is the rest of the text.\<close>

definition scan_long :: "string \<Rightarrow> (int \<times> string) option" where
  "scan_long s =
     (let t = dropWhile isspace s;
          sign = (t \<noteq> [] \<and> (hd t = CHR ''-'' \<or> hd t = CHR ''+''));
          u = (if sign then tl t else t);
          ds = takeWhile isdigit u;
          n = int (num_of 10 (map (the \<circ> digit_val) ds))
      in if ds = [] then None else Some (if sign \<and> hd t = CHR ''-'' then - n else n, drop (length ds) u))"

subsection \<open>Reading back what was printed\<close>

lemma isspace_blank [simp]: "isspace CHR '' ''" and isdigit_blank [simp]: "\<not> isdigit CHR '' ''"
  by (simp_all add: isspace_def isdigit_def digit_val_def)

lemma dig_chars:
  "d < 10 \<Longrightarrow> isdigit (dig d)" "d < 10 \<Longrightarrow> \<not> isspace (dig d)" "d < 10 \<Longrightarrow> dig d \<notin> {CHR ''-'', CHR ''+'', CHR ''>'', CHR ''.'', CHR '' '', CHR 0x00}"
proof -
  assume d: "d < 10"
  then show "isdigit (dig d)" by (simp add: isdigit_def digit_simps)
  have k: "of_char (dig d) = 48 + d" using d by (simp add: of_char_dig)
  then show "dig d \<notin> {CHR ''-'', CHR ''+'', CHR ''>'', CHR ''.'', CHR '' '', CHR 0x00}" using d by auto
  then show "\<not> isspace (dig d)" using d k by (simp add: isspace_def)
qed

lemma print_dec_digits: "print_dec n = map dig (digits_of 10 n)" and digits10_bound: "d \<in> set (digits_of 10 n) \<Longrightarrow> d < 10"
  by (simp_all add: print_dec_def print_base_digits digits_of_bound)

lemma print_dec_chars:
  assumes "c \<in> set (print_dec n)"
  shows "isdigit c" and "\<not> isspace c" and "c \<notin> {CHR ''-'', CHR ''+'', CHR ''>'', CHR ''.'', CHR '' '', CHR 0x00}"
  using assms dig_chars digits10_bound by (auto simp: print_dec_digits)

lemma print_dec_nonempty [simp]: "print_dec n \<noteq> []"
  by (simp add: print_dec_digits)

lemma num_of_print_dec: "num_of 10 (map (the \<circ> digit_val) (print_dec n)) = n"
proof -
  have "map (the \<circ> digit_val) (print_dec n) = digits_of 10 n"
    by (simp add: print_dec_digits comp_def digit_val_dig digits10_bound cong: map_cong)
  then show ?thesis by (simp add: num_of_digits_of)
qed

lemma dropWhile_hd: "xs = [] \<or> \<not> P (hd xs) \<Longrightarrow> dropWhile P xs = xs"
  by (cases xs) auto

lemma hd_print_dec: "hd (print_dec n @ r) \<in> set (print_dec n)"
  using hd_in_set [OF print_dec_nonempty [of n]] by simp

lemma scan_long_blank: "scan_long (CHR '' '' # s) = scan_long s"
  by (simp add: scan_long_def)

text \<open>A printed number is read back, up to the next character that is not a digit.\<close>

lemma scan_long_print:
  assumes "r = [] \<or> \<not> isdigit (hd r)"
  shows "scan_long (print_dec n @ r) = Some (int n, r)"
proof -
  let ?t = "print_dec n @ r"
  have h: "\<not> isspace (hd ?t)" "hd ?t \<notin> {CHR ''-'', CHR ''+''}"
    using print_dec_chars [OF hd_print_dec [of n r]] by auto
  have d: "dropWhile isspace ?t = ?t" by (rule dropWhile_hd) (use h(1) in simp)
  have "takeWhile isdigit ?t = print_dec n"
    using assms print_dec_chars(1) by (cases r) (auto simp: takeWhile_append takeWhile_eq_all_conv)
  then show ?thesis using h by (simp add: scan_long_def d Let_def num_of_print_dec)
qed

end
