(* ===== verification/File_Transfer.thy ===== *)
theory File_Transfer
  imports Std_Map Ready_Loop Text_Numbers "HOL-Library.Product_Lexorder" "HOL-Library.Sublist"
begin

text \<open>
  The file transfer over UDP of \<open>np-lab6/client.cpp\<close> and \<open>np-lab6/server.cpp\<close>. The client cuts each file
  into fragments of at most 1000 bytes and sends each as \<open><seq num off size name >fragment\<close>; the server
  stores the fragments, acknowledges each five times as \<open>seq off ACK\<close>, and writes a file when it has all
  fragments. The client walks over its directory again and again, sending what is not acknowledged, until
  the server says \<open>-1 -1 terminate\<close>.

  Names: \<open>decompose\<close> is the function of the server, \<open>decompose_ack\<close> that of the client. Variables that the
  code reads before it stores anything in them have the values \<open>junk 0\<close>, \<open>junk 1\<close>, ... A store outside a
  vector is \<open>Undefined Buffer_overflow\<close>.
\<close>

subsection \<open>Reading from a string stream\<close>

text \<open>
  \<open>ss >> v\<close> for an \<open>int\<close> and for a \<open>string\<close>. The stream is what is left to read, \<open>None\<close> once a read failed.
  Nothing is stored when only white space is left; 0 is stored when there is no number, and the nearest
  \<open>int\<close> when it does not fit.
\<close>

definition in_int :: "int \<Rightarrow> string option \<Rightarrow> int \<times> string option" where
  "in_int v inp =
     (case inp of None \<Rightarrow> (v, None)
      | Some s \<Rightarrow>
          if dropWhile isspace s = [] then (v, None)
          else (case scan_long s of
                  None \<Rightarrow> (0, None)
                | Some (i, rest) \<Rightarrow>
                    if i > INT_MAX then (INT_MAX, None) else if i < INT_MIN then (INT_MIN, None) else (i, Some rest)))"

definition in_word :: "string \<Rightarrow> string option \<Rightarrow> string \<times> string option" where
  "in_word v inp =
     (case inp of None \<Rightarrow> (v, None)
      | Some s \<Rightarrow>
          (let t = dropWhile isspace s; w = takeWhile (\<lambda>c. \<not> isspace c) t
           in if t = [] then (v, None) else (w, Some (drop (length w) t))))"

subsection \<open>The server\<close>

record packet =
  seq_idx :: int
  num_off :: int
  offset :: int
  frag_size :: int
  f_name :: string

text \<open>
  The tables, all with one entry per file, the counter \<open>i\<close> of \<open>main\<close>, what was sent to the client, and the
  files written, in order. A \<open>set<int>\<close> is an ordered list.
\<close>

record srv =
  packet_list :: "int list"
  received_list :: "bool list"
  record_list :: "int list list"
  fcnt_list :: "string list list"
  f_stat :: "(int \<times> bool) list"
  f_count :: int
  i_done :: nat
  sent :: "string list"
  written :: "(string \<times> string) list"

definition srv_init :: "nat \<Rightarrow> srv" where
  "srv_init file_num =
     \<lparr>packet_list = replicate file_num 0, received_list = replicate file_num False,
      record_list = replicate file_num [], fcnt_list = replicate file_num [],
      f_stat = map (\<lambda>i. (int i, False)) [1..<Suc file_num], f_count = 0, i_done = 0, sent = [], written = []\<rparr>"

definition checkIsExist :: "srv \<Rightarrow> nat \<Rightarrow> int \<Rightarrow> bool" where
  "checkIsExist s f_idx p_idx = (p_idx \<in> set (record_list s ! f_idx))"

definition MergePackets :: "nat \<Rightarrow> srv \<Rightarrow> string \<times> srv" where
  "MergePackets idx s =
     (concat (fcnt_list s ! idx), s\<lparr>fcnt_list := (fcnt_list s)[idx := []], f_count := f_count s - 1\<rparr>)"

text \<open>The fields of a datagram, and what follows the first \<open>>\<close> (all of it if there is none).\<close>

definition packet_fields :: "(nat \<Rightarrow> int) \<Rightarrow> string \<Rightarrow> packet" where
  "packet_fields junk content =
     (let (seq_num, inp) = in_int 0 (Some content);
          (num_packet, inp) = in_int (junk 0) inp;
          (off, inp) = in_int (junk 1) inp;
          (size, inp) = in_int (junk 2) inp;
          (fileName, inp) = in_word [] inp
      in \<lparr>seq_idx = seq_num, num_off = num_packet, offset = off, frag_size = size, f_name = fileName\<rparr>)"

definition after_gt :: "string \<Rightarrow> string" where
  "after_gt content = (case strchr content CHR ''>'' of Some start \<Rightarrow> drop (Suc start) content | None \<Rightarrow> content)"

text \<open>The packet of the two early returns: only \<open>seq_idx\<close> is set.\<close>

definition bare_packet :: "(nat \<Rightarrow> int) \<Rightarrow> int \<Rightarrow> packet" where
  "bare_packet junk seq_num = \<lparr>seq_idx = seq_num, num_off = junk 3, offset = junk 4, frag_size = junk 5, f_name = []\<rparr>"

definition inside :: "int \<Rightarrow> 'a list \<Rightarrow> bool" where
  "inside i xs = (0 \<le> i \<and> nat i < length xs)"

text \<open>\<open>fcnt_list[f].resize(n)\<close> when the file is seen for the first time.\<close>

definition open_file :: "nat \<Rightarrow> int \<Rightarrow> srv \<Rightarrow> srv outcome" where
  "open_file f num_packet s =
     (if fcnt_list s ! f \<noteq> [] then Inr s
      else if num_packet < 0 then Inl (Abort ''vector::_M_default_append'')
      else Inr (s\<lparr>f_count := f_count s + 1, f_stat := put (int f) True (f_stat s),
                  fcnt_list := (fcnt_list s)[f := replicate (nat num_packet) []]\<rparr>))"

definition decompose :: "(nat \<Rightarrow> int) \<Rightarrow> string \<Rightarrow> srv \<Rightarrow> (packet \<times> srv) outcome" where
  "decompose junk datagram s =
     (let content = tl datagram; p = packet_fields junk content; fcnt = after_gt content; f = nat (seq_idx p)
      in if \<not> inside (seq_idx p) (packet_list s) then Inl (Undefined Buffer_overflow)
         else
           (let s = s\<lparr>packet_list := (packet_list s)[f := num_off p]\<rparr> in
            if received_list s ! f then Inr (bare_packet junk (seq_idx p), s)
            else
              (let s = s\<lparr>f_stat := ensure False (seq_idx p) (f_stat s)\<rparr> in
               if \<not> val_at False (seq_idx p) (f_stat s) \<and> f_count s > 300
               then Inr (bare_packet junk (seq_idx p), s)
               else
                 (case open_file f (num_off p) s of
                    Inl e \<Rightarrow> Inl e
                  | Inr s \<Rightarrow>
                      if checkIsExist s f (offset p) then Inr (p, s)
                      else if \<not> inside (offset p) (fcnt_list s ! f) then Inl (Undefined Buffer_overflow)
                      else Inr (p, s\<lparr>fcnt_list :=
                             (fcnt_list s)[f := (fcnt_list s ! f)[nat (offset p) := fcnt]]\<rparr>)))))"

text \<open>
  Writing a complete file: \<open>can_open\<close> tells which paths \<open>fopen\<close> can create. When it cannot, \<open>fclose\<close> is
  called with a null pointer.
\<close>

definition write_file :: "(string \<Rightarrow> bool) \<Rightarrow> string \<Rightarrow> nat \<Rightarrow> string \<Rightarrow> srv \<Rightarrow> srv outcome" where
  "write_file can_open store_path f name s =
     (let s = s\<lparr>i_done := Suc (i_done s), received_list := (received_list s)[f := True]\<rparr>;
          (cnt, s) = MergePackets f s;
          f_path = takeWhile (\<lambda>c. c \<noteq> CHR 0x00) (store_path @ ''/'' @ name)
      in if can_open f_path then Inr (s\<lparr>written := written s @ [(f_path, cnt)]\<rparr>)
         else Inl (Undefined Null_deref))"

definition ack_msg :: "int \<Rightarrow> int \<Rightarrow> string" where
  "ack_msg seq off = print_int seq @ '' '' @ print_int off @ '' ACK''"

text \<open>The body of the loop for one datagram that is not empty.\<close>

definition srv_datagram ::
  "(string \<Rightarrow> bool) \<Rightarrow> string \<Rightarrow> (nat \<Rightarrow> int) \<Rightarrow> string \<Rightarrow> srv \<Rightarrow> srv outcome" where
  "srv_datagram can_open store_path junk d s =
     (case decompose junk d s of
        Inl e \<Rightarrow> Inl e
      | Inr (p, s) \<Rightarrow>
          (let f = nat (seq_idx p) in
           if received_list s ! f then Inr s
           else
             (let s = s\<lparr>f_stat := ensure False (seq_idx p) (f_stat s)\<rparr> in
              if \<not> val_at False (seq_idx p) (f_stat s) then Inr s
              else if \<not> inside (offset p) (fcnt_list s ! f) then Inl (Undefined Buffer_overflow)
              else if int (length (fcnt_list s ! f ! nat (offset p))) \<noteq> frag_size p then Inr s
              else
                (let s = s\<lparr>sent := sent s @ replicate 5 (ack_msg (seq_idx p) (offset p))\<rparr>;
                     s = (if checkIsExist s f (offset p) then s
                          else s\<lparr>record_list := (record_list s)[f := set_insert (offset p) (record_list s ! f)]\<rparr>)
                 in if int (length (record_list s ! f)) = packet_list s ! f \<and> \<not> received_list s ! f
                    then write_file can_open store_path f (f_name p) s
                    else Inr s))))"

text \<open>
  The loop, over what \<open>recvfrom\<close> answers: \<open>None\<close> is a time-out or an error, and a datagram is cut at the
  size of \<open>fileBuf\<close>. Each call comes with the contents of its uninitialised variables.
\<close>

fun srv_loop ::
  "(string \<Rightarrow> bool) \<Rightarrow> string \<Rightarrow> nat \<Rightarrow> ((nat \<Rightarrow> int) \<times> string option) list \<Rightarrow> srv \<Rightarrow> srv outcome" where
  "srv_loop can_open store_path file_num [] s = Inr s"
| "srv_loop can_open store_path file_num ((junk, r) # rs) s =
     (if \<not> i_done s < file_num then Inr s
      else if r = None \<or> r = Some [] then srv_loop can_open store_path file_num rs s
      else (case srv_datagram can_open store_path junk (take 10000 (the r)) s of
              Inl e \<Rightarrow> Inl e
            | Inr s \<Rightarrow> srv_loop can_open store_path file_num rs s))"

definition term_msg :: string where "term_msg = ''-1 -1 terminate''"

text \<open>One turn of the endless loop after it.\<close>

definition srv_terminate :: "srv \<Rightarrow> srv" where
  "srv_terminate s = s\<lparr>sent := sent s @ [term_msg]\<rparr>"

subsection \<open>The client\<close>

record cli =
  ACKed :: "((int \<times> int) \<times> int) list"
  send_failed :: "((int \<times> int) \<times> string) list"
  term_flag :: bool
  c_sent :: "string list"

definition cli_init :: cli where
  "cli_init = \<lparr>ACKed = [], send_failed = [], term_flag = False, c_sent = []\<rparr>"

definition decompose_ack :: "(nat \<Rightarrow> int) \<Rightarrow> string \<Rightarrow> cli \<Rightarrow> ((int \<times> int) \<times> string) \<times> cli" where
  "decompose_ack junk content c =
     (let (seq, inp) = in_int (junk 0) (Some content);
          (off, inp) = in_int (junk 1) inp;
          (buf, inp) = in_word [] inp
      in (((seq, off), buf), if buf = ''terminate'' then c\<lparr>term_flag := True\<rparr> else c))"

text \<open>The fragments of a file of \<open>length c\<close> bytes.\<close>

definition split_file :: "string \<Rightarrow> string list" where
  "split_file c =
     (let file_size = length c; n = file_size div 1000
      in if file_size < 1000 then [c]
         else map (\<lambda>i. take 1000 (drop (1000 * i) c)) [0..<n] @
              (if file_size mod 1000 \<noteq> 0 then [take (file_size - 1000 * n) (drop (1000 * n) c)] else []))"

definition packet_msg :: "nat \<Rightarrow> nat \<Rightarrow> nat \<Rightarrow> string \<Rightarrow> string \<Rightarrow> string" where
  "packet_msg seq_num num off frag name =
     ''<'' @ print_dec seq_num @ '' '' @ print_dec num @ '' '' @ print_dec off @ '' '' @ print_dec (length frag) @
     '' '' @ name @ '' >'' @ frag"

text \<open>
  What the zeroed buffer of 1024 bytes holds after a \<open>recvfrom\<close> that does not wait, read as a C string; a
  full buffer without a NUL is read beyond its end.
\<close>

definition ack_text :: "string option \<Rightarrow> string outcome" where
  "ack_text r =
     (let b = take 1024 (case r of None \<Rightarrow> [] | Some d \<Rightarrow> d)
      in if length b = 1024 \<and> CHR 0x00 \<notin> set b then Inl (Undefined Buffer_overflow)
         else Inr (takeWhile (\<lambda>c. c \<noteq> CHR 0x00) b))"

text \<open>
  The body of the loop over the fragments. \<open>ACKed[{seq_num, offset}]\<close> in the first test enters the key into
  the map.
\<close>

definition cli_frag ::
  "(nat \<Rightarrow> int) \<Rightarrow> string option \<Rightarrow> nat \<Rightarrow> nat \<Rightarrow> nat \<Rightarrow> string \<Rightarrow> string \<Rightarrow> cli \<Rightarrow> cli outcome" where
  "cli_frag junk r seq_num num off frag name c =
     (let key = (int seq_num, int off); c = c\<lparr>ACKed := ensure 0 key (ACKed c)\<rparr>
      in if val_at 0 key (ACKed c) \<noteq> 0 then Inr c
         else
           (let msg = packet_msg seq_num num off frag name; c = c\<lparr>c_sent := c_sent c @ [msg]\<rparr> in
            case ack_text r of
              Inl e \<Rightarrow> Inl e
            | Inr txt \<Rightarrow>
                (let (packet, c) = decompose_ack junk txt c in
                 if term_flag c then Inl (Exit_code 0)
                 else
                   (let c = (if snd packet = ''ACK'' then c\<lparr>ACKed := put (fst packet) 1 (ACKed c)\<rparr> else c)
                    in if map_of (ACKed c) key = None
                       then Inr (c\<lparr>send_failed := put key msg (send_failed c)\<rparr>)
                       else Inr c))))"

text \<open>
  The loop over the fragments of one file and the loop over the directory. \<open>rs n\<close> is the answer to the \<open>n\<close>-th
  \<open>recvfrom\<close>, with the uninitialised variables at that moment; the number of calls is the number of datagrams
  sent. A file is its name and its contents, \<open>None\<close> if it cannot be opened.
\<close>

type_synonym answers = "nat \<Rightarrow> (nat \<Rightarrow> int) \<times> string option"

fun cli_frags :: "answers \<Rightarrow> nat \<Rightarrow> nat \<Rightarrow> nat \<Rightarrow> string list \<Rightarrow> string \<Rightarrow> cli \<Rightarrow> cli outcome" where
  "cli_frags rs seq_num num off [] name c = Inr c"
| "cli_frags rs seq_num num off (frag # frags) name c =
     (case rs (length (c_sent c)) of (junk, r) \<Rightarrow>
      case cli_frag junk r seq_num num off frag name c of
        Inl e \<Rightarrow> Inl e
      | Inr c \<Rightarrow> cli_frags rs seq_num num (Suc off) frags name c)"

fun cli_files :: "answers \<Rightarrow> nat \<Rightarrow> (string \<times> string option) list \<Rightarrow> cli \<Rightarrow> cli outcome" where
  "cli_files rs seq_num [] c = Inr c"
| "cli_files rs seq_num ((name, None) # fs) c = Inl (Exit_code 0)"
| "cli_files rs seq_num ((name, Some cnt) # fs) c =
     (let content = split_file cnt in
      case cli_frags rs seq_num (length content) 0 content name c of
        Inl e \<Rightarrow> Inl e
      | Inr c \<Rightarrow> cli_files rs (Suc seq_num) fs c)"

text \<open>The entries of the directory that are sent.\<close>

definition dir_files :: "nat \<Rightarrow> (string \<times> 'a) list \<Rightarrow> (string \<times> 'a) list" where
  "dir_files num_file entries = take num_file (filter (\<lambda>(name, _). name = [] \<or> hd name \<noteq> CHR ''.'') entries)"

text \<open>
  The loop over \<open>send_failed\<close>: an acknowledged entry is erased while the loop stands on it, and the next
  step of the iterator is undefined.
\<close>

fun resend_pass :: "answers \<Rightarrow> ((int \<times> int) \<times> string) list \<Rightarrow> cli \<Rightarrow> cli outcome" where
  "resend_pass rs [] c = Inr c"
| "resend_pass rs ((key, msg) # fs) c =
     (case rs (length (c_sent c)) of (junk, r) \<Rightarrow>
      case ack_text r of
        Inl e \<Rightarrow> Inl e
      | Inr txt \<Rightarrow>
          (let (packet, c) = decompose_ack junk txt (c\<lparr>c_sent := c_sent c @ [msg]\<rparr>) in
           if snd packet = ''ACK'' then Inl (Undefined Dangling)
           else if term_flag c then Inl (Exit_code 0)
           else resend_pass rs fs c))"

partial_function (option) resend :: "answers \<Rightarrow> cli \<Rightarrow> cli outcome option" where
  "resend rs c =
     (if send_failed c = [] then Some (Inr c)
      else case resend_pass rs (send_failed c) c of
             Inl e \<Rightarrow> Some (Inl e)
           | Inr c \<Rightarrow> resend rs c)"

text \<open>One round of \<open>while (!term_flag)\<close>.\<close>

definition cli_round :: "answers \<Rightarrow> nat \<Rightarrow> (string \<times> string option) list \<Rightarrow> cli \<Rightarrow> cli outcome option" where
  "cli_round rs num_file entries c =
     (case cli_files rs 0 (dir_files num_file entries) c of
        Inl e \<Rightarrow> Some (Inl e)
      | Inr c \<Rightarrow> resend rs c)"

subsection \<open>Reading back what was printed\<close>

text \<open>A printed number is read back, up to the next character that is not a digit.\<close>

lemma in_int_print:
  assumes "int n \<le> INT_MAX" and "r = [] \<or> \<not> isdigit (hd r)"
  shows "in_int v (Some (print_dec n @ r)) = (int n, Some r)" and "in_int v (Some (CHR '' '' # print_dec n @ r)) = (int n, Some r)"
proof -
  have "\<not> isspace (hd (print_dec n @ r))" using print_dec_chars(2) [OF hd_print_dec] .
  then have "dropWhile isspace (print_dec n @ r) \<noteq> []" by (subst dropWhile_hd) simp_all
  then show "in_int v (Some (print_dec n @ r)) = (int n, Some r)" "in_int v (Some (CHR '' '' # print_dec n @ r)) = (int n, Some r)"
    using assms scan_long_print [of r n] by (simp_all add: in_int_def scan_long_blank INT_MIN_def)
qed

lemma in_word_name:
  assumes "name \<noteq> []" and "\<forall>c \<in> set name. \<not> isspace c" and "isspace x"
  shows "in_word v (Some (CHR '' '' # name @ x # r)) = (name, Some (x # r))"
proof -
  have "dropWhile isspace (CHR '' '' # name @ x # r) = name @ x # r"
    using assms(1,2) by (cases name) simp_all
  moreover have "takeWhile (\<lambda>c. \<not> isspace c) (name @ x # r) = name"
    using assms(2,3) by (simp add: takeWhile_tail)
  ultimately show ?thesis using assms(1) by (simp add: in_word_def Let_def)
qed

text \<open>The file names the format can carry.\<close>

definition plain_name :: "string \<Rightarrow> bool" where
  "plain_name name = (name \<noteq> [] \<and> (\<forall>c \<in> set name. \<not> isspace c \<and> c \<noteq> CHR ''>'' \<and> c \<noteq> CHR 0x00))"

lemma packet_fields_packet:
  assumes "plain_name name" and "int seq_num \<le> INT_MAX" and "int num \<le> INT_MAX" and "int off \<le> INT_MAX" and "int (length frag) \<le> INT_MAX"
  shows "packet_fields junk (tl (packet_msg seq_num num off frag name)) =
    \<lparr>seq_idx = int seq_num, num_off = int num, offset = int off, frag_size = int (length frag), f_name = name\<rparr>"
proof -
  have "\<forall>c \<in> set name. \<not> isspace c" "name \<noteq> []" using assms(1) by (auto simp: plain_name_def)
  then show ?thesis
    using assms(2-) by (simp add: packet_fields_def packet_msg_def in_int_print in_word_name)
qed

lemma after_gt_packet:
  assumes "plain_name name"
  shows "after_gt (tl (packet_msg seq_num num off frag name)) = frag"
proof -
  let ?h = "print_dec seq_num @ '' '' @ print_dec num @ '' '' @ print_dec off @ '' '' @ print_dec (length frag) @ '' '' @ name @ '' ''"
  have "CHR ''>'' \<notin> set ?h"
    using assms print_dec_chars(3) by (auto simp: plain_name_def)
  moreover have "tl (packet_msg seq_num num off frag name) = ?h @ CHR ''>'' # frag" by (simp add: packet_msg_def)
  moreover have "after_gt (h @ CHR ''>'' # frag) = frag" if "CHR ''>'' \<notin> set h" for h
    by (simp add: after_gt_def strchr_append [OF that])
  ultimately show ?thesis by (simp only: )
qed

subsection \<open>Fragments\<close>

lemma concat_chunks: "concat (map (\<lambda>i. take k (drop (k * i) c)) [0..<n]) = take (k * n) c"
proof (induction n)
  case (Suc n)
  have "take (k * n) c @ take k (drop (k * n) c) = take (k * Suc n) c"
    by (simp add: add.commute [of k "k * n"] take_add)
  with Suc show ?case by simp
qed simp

lemma concat_split_file: "concat (split_file c) = c"
proof -
  have "length c - 1000 * (length c div 1000) = length c mod 1000" by (simp add: minus_mult_div_eq_mod)
  then show ?thesis by (auto simp: split_file_def Let_def concat_chunks)
qed

lemma split_file_pieces: "frag \<in> set (split_file c) \<Longrightarrow> length frag \<le> 1000"
  by (auto simp: split_file_def Let_def minus_mult_div_eq_mod split: if_splits)
lemma split_file_nonempty [simp]: "split_file c \<noteq> []"
  by (auto simp: split_file_def Let_def)


subsection \<open>The files in transfer\<close>

definition frags :: "(string \<times> string) list \<Rightarrow> nat \<Rightarrow> string list" where
  "frags files f = split_file (snd (files ! f))"

definition pkt :: "(string \<times> string) list \<Rightarrow> nat \<Rightarrow> nat \<Rightarrow> string" where
  "pkt files f off = packet_msg f (length (frags files f)) off (frags files f ! off) (fst (files ! f))"

definition dest :: "string \<Rightarrow> (string \<times> string) list \<Rightarrow> nat \<Rightarrow> string" where
  "dest store files f = store @ ''/'' @ fst (files ! f)"

text \<open>Different plain names, and as many files and fragments as an \<open>int\<close> can count.\<close>

definition sendable :: "(string \<times> string) list \<Rightarrow> bool" where
  "sendable files =
     (distinct (map fst files) \<and> int (length files) \<le> INT_MAX \<and>
      (\<forall>(name, cnt) \<in> set files. plain_name name \<and> length name \<le> 255 \<and> int (length (split_file cnt)) \<le> INT_MAX))"

lemma sendableD:
  assumes "sendable files" and "f < length files"
  shows "plain_name (fst (files ! f))" and "length (fst (files ! f)) \<le> 255" and "int (length (frags files f)) \<le> INT_MAX"
    and "int f \<le> INT_MAX"
proof -
  have "plain_name (fst x) \<and> length (fst x) \<le> 255 \<and> int (length (split_file (snd x))) \<le> INT_MAX" if "x \<in> set files" for x
    using assms(1) that by (cases x) (simp add: sendable_def, blast)
  from this [OF nth_mem [OF assms(2)]] show "plain_name (fst (files ! f))" "length (fst (files ! f)) \<le> 255"
      "int (length (frags files f)) \<le> INT_MAX"
    by (simp_all add: frags_def)
  show "int f \<le> INT_MAX" using assms by (simp add: sendable_def)
qed

lemma length_print_dec: "int n \<le> INT_MAX \<Longrightarrow> length (print_dec n) \<le> 10"
  using length_digits_of [of 10 n 10] by (simp add: print_dec_digits INT_MAX_def)

lemma frag_length:
  assumes "off < length (frags files f)"
  shows "length (frags files f ! off) \<le> 1000"
  using split_file_pieces nth_mem [OF assms] by (simp add: frags_def)

lemma pkt_fits:
  assumes "sendable files" and "f < length files" and "off < length (frags files f)"
  shows "take 10000 (pkt files f off) = pkt files f off" and "pkt files f off \<noteq> []"
proof -
  have "int off \<le> INT_MAX" "int (length (frags files f ! off)) \<le> INT_MAX"
    using sendableD(3) [OF assms(1,2)] assms(3) frag_length [OF assms(3)] by (simp_all add: INT_MAX_def)
  then have "length (pkt files f off) \<le> 10000"
    using sendableD [OF assms(1,2)] frag_length [OF assms(3)]
      length_print_dec [of f] length_print_dec [of "length (frags files f)"] length_print_dec [of off]
      length_print_dec [of "length (frags files f ! off)"]
    by (simp add: pkt_def packet_msg_def)
  then show "take 10000 (pkt files f off) = pkt files f off" by simp
  show "pkt files f off \<noteq> []" by (simp add: pkt_def packet_msg_def)
qed

lemma pkt_fields:
  assumes "sendable files" and "f < length files" and "off < length (frags files f)"
  shows "packet_fields junk (tl (pkt files f off)) =
      \<lparr>seq_idx = int f, num_off = int (length (frags files f)), offset = int off,
       frag_size = int (length (frags files f ! off)), f_name = fst (files ! f)\<rparr>"
    and "after_gt (tl (pkt files f off)) = frags files f ! off"
proof -
  have "int off \<le> INT_MAX" "int (length (frags files f ! off)) \<le> INT_MAX"
    using sendableD(3) [OF assms(1,2)] assms(3) frag_length [OF assms(3)] by (simp_all add: INT_MAX_def)
  then show "packet_fields junk (tl (pkt files f off)) =
      \<lparr>seq_idx = int f, num_off = int (length (frags files f)), offset = int off,
       frag_size = int (length (frags files f ! off)), f_name = fst (files ! f)\<rparr>"
    using sendableD [OF assms(1,2)] by (simp add: pkt_def packet_fields_packet)
  show "after_gt (tl (pkt files f off)) = frags files f ! off"
    using sendableD(1) [OF assms(1,2)] by (simp add: pkt_def after_gt_packet)
qed

subsection \<open>The invariant of the server\<close>

text \<open>One file: written; not begun; or in progress, with the recorded fragments in place.\<close>

definition file_inv :: "(string \<times> string) list \<Rightarrow> srv \<Rightarrow> nat \<Rightarrow> bool" where
  "file_inv files s f =
     (if received_list s ! f then fcnt_list s ! f = []
      else if fcnt_list s ! f = [] then record_list s ! f = [] \<and> \<not> val_at False (int f) (f_stat s)
      else val_at False (int f) (f_stat s) \<and> length (fcnt_list s ! f) = length (frags files f) \<and>
        distinct (record_list s ! f) \<and> length (record_list s ! f) < length (frags files f) \<and>
        (\<forall>off \<in> set (record_list s ! f).
           inside off (frags files f) \<and> fcnt_list s ! f ! nat off = frags files f ! nat off))"

definition srv_inv :: "string \<Rightarrow> (string \<times> string) list \<Rightarrow> srv \<Rightarrow> bool" where
  "srv_inv store files s =
     (length (packet_list s) = length files \<and> length (received_list s) = length files \<and>
      length (record_list s) = length files \<and> length (fcnt_list s) = length files \<and>
      (\<forall>f < length files. file_inv files s f) \<and>
      f_count s = int (length (filter (\<lambda>l. l \<noteq> []) (fcnt_list s))) \<and>
      i_done s = length (filter id (received_list s)) \<and>
      length (written s) = i_done s \<and>
      set (written s) = {(dest store files f, snd (files ! f)) | f. f < length files \<and> received_list s ! f})"

definition has_frag :: "srv \<Rightarrow> nat \<Rightarrow> nat \<Rightarrow> bool" where
  "has_frag s f off = (received_list s ! f \<or> int off \<in> set (record_list s ! f))"

lemma srv_init_inv: "srv_inv store files (srv_init (length files))"
proof -
  have "\<not> val_at False k (map (\<lambda>i. (int i, False)) xs)" for k xs
    by (induction xs) (auto simp: val_at_def split: option.splits)
  then show ?thesis by (auto simp: srv_inv_def srv_init_def file_inv_def simp del: upt_Suc)
qed

lemma decompose_received:
  assumes "sendable files" and "f < length files" and "off < length (frags files f)" and "srv_inv store files s"
    and "received_list s ! f"
  shows "decompose junk (pkt files f off) s =
    Inr (bare_packet junk (int f), s\<lparr>packet_list := (packet_list s)[f := int (length (frags files f))]\<rparr>)"
  using assms by (simp add: decompose_def pkt_fields [OF assms(1-3)] srv_inv_def inside_def Let_def)

lemma decompose_refused:
  assumes "sendable files" and "f < length files" and "off < length (frags files f)" and "srv_inv store files s"
    and "\<not> received_list s ! f" and "fcnt_list s ! f = []" and "f_count s > 300"
  shows "decompose junk (pkt files f off) s =
    Inr (bare_packet junk (int f), s\<lparr>packet_list := (packet_list s)[f := int (length (frags files f))],
      f_stat := ensure False (int f) (f_stat s)\<rparr>)"
  using assms by (simp add: decompose_def pkt_fields [OF assms(1-3)] srv_inv_def file_inv_def inside_def Let_def om.read_brackets)

lemma frags_nonempty [simp]: "frags files f \<noteq> []"
  by (simp add: frags_def)

text \<open>The list of fragments of file \<open>f\<close> after an accepted packet.\<close>

definition stored :: "(string \<times> string) list \<Rightarrow> srv \<Rightarrow> nat \<Rightarrow> nat \<Rightarrow> string list" where
  "stored files s f off =
     (let L = (if fcnt_list s ! f = [] then replicate (length (frags files f)) [] else fcnt_list s ! f)
      in if int off \<in> set (record_list s ! f) then L else L[off := frags files f ! off])"

lemma stored_props:
  assumes "srv_inv store files s" and "f < length files" and "off < length (frags files f)" and "\<not> received_list s ! f"
  shows "length (stored files s f off) = length (frags files f)" and "stored files s f off ! off = frags files f ! off"
    and "\<And>j. j \<in> set (record_list s ! f) \<Longrightarrow> inside j (frags files f) \<and> stored files s f off ! nat j = frags files f ! nat j"
    and "stored files s f off \<noteq> []"
proof -
  have inv: "file_inv files s f" using assms by (simp add: srv_inv_def)
  show l: "length (stored files s f off) = length (frags files f)"
    using inv assms(4) by (simp add: stored_def file_inv_def Let_def)
  show "stored files s f off ! off = frags files f ! off"
    using inv assms(3,4) by (auto simp: stored_def file_inv_def Let_def split: if_splits)
  show "stored files s f off \<noteq> []" using l by auto
  fix j assume "j \<in> set (record_list s ! f)"
  then show "inside j (frags files f) \<and> stored files s f off ! nat j = frags files f ! nat j"
    using inv assms(3,4) by (auto simp: stored_def file_inv_def Let_def inside_def nth_list_update split: if_splits)
qed

lemma decompose_accepted:
  assumes "sendable files" and "f < length files" and "off < length (frags files f)" and "srv_inv store files s"
    and "\<not> received_list s ! f" and "fcnt_list s ! f \<noteq> [] \<or> f_count s \<le> 300"
  obtains m where "decompose junk (pkt files f off) s =
      Inr (\<lparr>seq_idx = int f, num_off = int (length (frags files f)), offset = int off,
            frag_size = int (length (frags files f ! off)), f_name = fst (files ! f)\<rparr>,
        s\<lparr>packet_list := (packet_list s)[f := int (length (frags files f))], f_stat := m,
          f_count := f_count s + (if fcnt_list s ! f = [] then 1 else 0),
          fcnt_list := (fcnt_list s)[f := stored files s f off]\<rparr>)"
    and "\<And>g. val_at False (int g) m = (val_at False (int g) (f_stat s) \<or> g = f)"
proof -
  let ?n = "int (length (frags files f))" and ?m = "ensure False (int f) (f_stat s)"
  let ?m' = "if fcnt_list s ! f = [] then put (int f) True ?m else ?m"
  have inv: "file_inv files s f" and len: "length (packet_list s) = length files" "length (fcnt_list s) = length files"
    using assms(2,4) by (simp_all add: srv_inv_def)
  have stat: "val_at False (int f) (f_stat s) = (fcnt_list s ! f \<noteq> [])"
    using inv assms(5) by (auto simp: file_inv_def split: if_splits)
  have rec: "fcnt_list s ! f = [] \<Longrightarrow> record_list s ! f = []" "fcnt_list s ! f \<noteq> [] \<Longrightarrow> length (fcnt_list s ! f) = length (frags files f)"
    using inv assms(5) by (auto simp: file_inv_def split: if_splits)
  have "decompose junk (pkt files f off) s =
      Inr (\<lparr>seq_idx = int f, num_off = ?n, offset = int off,
            frag_size = int (length (frags files f ! off)), f_name = fst (files ! f)\<rparr>,
        s\<lparr>packet_list := (packet_list s)[f := ?n], f_stat := ?m',
          f_count := f_count s + (if fcnt_list s ! f = [] then 1 else 0),
          fcnt_list := (fcnt_list s)[f := stored files s f off]\<rparr>)"
    using assms rec len
    by (auto simp: decompose_def pkt_fields [OF assms(1-3)] open_file_def inside_def Let_def om.read_brackets
        stat checkIsExist_def stored_def)
  moreover have "val_at False (int g) ?m' = (val_at False (int g) (f_stat s) \<or> g = f)" for g
    using stat by (auto simp: val_at_def map_of_put om.get_brackets split: option.splits if_splits)
  ultimately show ?thesis by (rule that)
qed

lemma file_inv_cong:
  assumes "received_list t ! g = received_list s ! g" and "fcnt_list t ! g = fcnt_list s ! g"
    and "record_list t ! g = record_list s ! g" and "val_at False (int g) (f_stat t) = val_at False (int g) (f_stat s)"
  shows "file_inv files t g = file_inv files s g"
  using assms by (simp add: file_inv_def)

text \<open>A packet of a file that is written already, or that is refused for now, changes nothing of note.\<close>

lemma srv_ignores:
  assumes "sendable files" and "f < length files" and "off < length (frags files f)" and "srv_inv store files s"
    and "received_list s ! f \<or> fcnt_list s ! f = [] \<and> f_count s > 300"
  obtains p m where "srv_datagram can_open store junk (pkt files f off) s = Inr (s\<lparr>packet_list := p, f_stat := m\<rparr>)"
    and "srv_inv store files (s\<lparr>packet_list := p, f_stat := m\<rparr>)"
proof -
  let ?p = "(packet_list s)[f := int (length (frags files f))]"
  let ?m = "if received_list s ! f then f_stat s else ensure False (int f) (ensure False (int f) (f_stat s))"
  have inv: "file_inv files s f" using assms(2,4) by (simp add: srv_inv_def)
  have "srv_datagram can_open store junk (pkt files f off) s = Inr (s\<lparr>packet_list := ?p, f_stat := ?m\<rparr>)"
  proof (cases "received_list s ! f")
    case True
    with decompose_received [OF assms(1-4)] show ?thesis
      by (simp add: srv_datagram_def bare_packet_def Let_def)
  next
    case False
    with assms(5) inv have "\<not> val_at False (int f) (f_stat s)" by (simp add: file_inv_def)
    with False decompose_refused [OF assms(1-4) False] assms(5) show ?thesis
      by (simp add: srv_datagram_def bare_packet_def Let_def om.read_brackets)
  qed
  moreover have "srv_inv store files (s\<lparr>packet_list := ?p, f_stat := ?m\<rparr>)"
    using assms(4) by (simp add: srv_inv_def file_inv_def om.read_brackets)
  ultimately show ?thesis by (rule that)
qed

text \<open>The state after an accepted packet, before a complete file is written.\<close>

definition noted :: "(string \<times> string) list \<Rightarrow> srv \<Rightarrow> nat \<Rightarrow> nat \<Rightarrow> (int \<times> bool) list \<Rightarrow> srv" where
  "noted files s f off m =
     s\<lparr>packet_list := (packet_list s)[f := int (length (frags files f))],
       f_count := f_count s + (if fcnt_list s ! f = [] then 1 else 0),
       fcnt_list := (fcnt_list s)[f := stored files s f off], f_stat := m,
       sent := sent s @ replicate 5 (ack_msg (int f) (int off)),
       record_list := (record_list s)[f := set_insert (int off) (record_list s ! f)]\<rparr>"

lemma srv_accepts:
  assumes "sendable files" and "f < length files" and "off < length (frags files f)" and "srv_inv store files s"
    and "\<not> received_list s ! f" and "fcnt_list s ! f \<noteq> [] \<or> f_count s \<le> 300"
  obtains m where "srv_datagram can_open store junk (pkt files f off) s =
      (if length (set_insert (int off) (record_list s ! f)) = length (frags files f)
       then write_file can_open store f (fst (files ! f)) (noted files s f off m)
       else Inr (noted files s f off m))"
    and "\<And>g. val_at False (int g) m = (val_at False (int g) (f_stat s) \<or> g = f)"
proof -
  from decompose_accepted [OF assms] obtain m where
    d: "decompose junk (pkt files f off) s =
      Inr (\<lparr>seq_idx = int f, num_off = int (length (frags files f)), offset = int off,
            frag_size = int (length (frags files f ! off)), f_name = fst (files ! f)\<rparr>,
        s\<lparr>packet_list := (packet_list s)[f := int (length (frags files f))], f_stat := m,
          f_count := f_count s + (if fcnt_list s ! f = [] then 1 else 0),
          fcnt_list := (fcnt_list s)[f := stored files s f off]\<rparr>)"
    and m: "\<And>g. val_at False (int g) m = (val_at False (int g) (f_stat s) \<or> g = f)" by blast
  have e: "ensure False (int f) m = m"
    using m [of f] by (intro om.brackets_present) (auto simp: val_at_def split: option.splits)
  have len: "f < length (packet_list s)" "f < length (record_list s)" "f < length (fcnt_list s)"
    using assms(2,4) by (simp_all add: srv_inv_def)
  have r: "(if int off \<in> set (record_list s ! f) then record_list s
      else (record_list s)[f := set_insert (int off) (record_list s ! f)]) =
      (record_list s)[f := set_insert (int off) (record_list s ! f)]"
    by (simp add: set_insert_def)
  have "srv_datagram can_open store junk (pkt files f off) s =
      (if length (set_insert (int off) (record_list s ! f)) = length (frags files f)
       then write_file can_open store f (fst (files ! f)) (noted files s f off m)
       else Inr (noted files s f off m))"
    using assms(3,5) stored_props(1,2) [OF assms(4,2,3,5)] len
    by (simp add: srv_datagram_def d e Let_def m inside_def checkIsExist_def noted_def set_insert_def)
  then show ?thesis using m by (rule that)
qed

lemma length_set_insert: "distinct xs \<Longrightarrow> length (set_insert x xs) = length xs + (if x \<in> set xs then 0 else 1)"
  and distinct_set_insert: "distinct xs \<Longrightarrow> distinct (set_insert x xs)"
  by (simp_all add: set_insert_def distinct_insort)

lemma noted_inv:
  assumes "f < length files" and "off < length (frags files f)" and "srv_inv store files s"
    and "\<not> received_list s ! f" and "\<And>g. val_at False (int g) m = (val_at False (int g) (f_stat s) \<or> g = f)"
    and "length (set_insert (int off) (record_list s ! f)) < length (frags files f)"
  shows "srv_inv store files (noted files s f off m)"
proof -
  have st: "stored files s f off \<noteq> []" by (rule stored_props(4) [OF assms(3,1,2,4)])
  have inv: "file_inv files s f" and len: "length (fcnt_list s) = length files" "length (record_list s) = length files"
    using assms(1,3) by (simp_all add: srv_inv_def)
  then have d: "distinct (record_list s ! f)" using assms(4) by (auto simp: file_inv_def split: if_splits)
  have "file_inv files (noted files s f off m) f"
    using assms(1,2,4-) st d stored_props [OF assms(3,1,2,4)] len
    by (auto simp: file_inv_def noted_def distinct_set_insert inside_def)
  moreover have "file_inv files (noted files s f off m) g" if "g < length files" "g \<noteq> f" for g
    using assms(3) that file_inv_cong [of "noted files s f off m" g s] assms(5) by (simp add: noted_def srv_inv_def)
  ultimately have "\<forall>g < length files. file_inv files (noted files s f off m) g" by blast
  moreover have "f_count (noted files s f off m) = int (length (filter (\<lambda>l. l \<noteq> []) (fcnt_list (noted files s f off m))))"
    using filter_update_count [of f "fcnt_list s" "\<lambda>l. l \<noteq> []" "stored files s f off"] assms(1,3) st
    by (simp add: noted_def srv_inv_def split: if_splits)
  ultimately show ?thesis using assms(3) by (simp add: srv_inv_def noted_def)
qed

lemma complete_is_file:
  assumes "f < length files" and "off < length (frags files f)" and "srv_inv store files s"
    and "\<not> received_list s ! f" and "length (set_insert (int off) (record_list s ! f)) = length (frags files f)"
  shows "concat (stored files s f off) = snd (files ! f)"
proof -
  let ?R = "set_insert (int off) (record_list s ! f)" and ?n = "length (frags files f)"
  note st = stored_props [OF assms(3,1,2,4)]
  have "file_inv files s f" using assms(1,3) by (simp add: srv_inv_def)
  then have "distinct ?R" using assms(4) by (auto simp: file_inv_def distinct_set_insert split: if_splits)
  moreover have "set ?R \<subseteq> int ` {..<?n}"
    using st(3) assms(2) by (force simp: inside_def image_iff)
  moreover have "card (int ` {..<?n}) = ?n" by (simp add: card_image)
  ultimately have R: "set ?R = int ` {..<?n}"
    using assms(5) by (metis card_subset_eq distinct_card finite_imageI finite_lessThan)
  have "stored files s f off = frags files f"
  proof (rule nth_equalityI)
    fix i assume "i < length (stored files s f off)"
    with st(1) have "int i \<in> set ?R" unfolding R by simp
    then show "stored files s f off ! i = frags files f ! i" using st(2) st(3) [of "int i"] by auto
  qed (fact st(1))
  then show ?thesis by (simp add: frags_def concat_split_file)
qed

text \<open>The state after the last fragment of a file.\<close>

definition finished :: "string \<Rightarrow> (string \<times> string) list \<Rightarrow> srv \<Rightarrow> nat \<Rightarrow> srv" where
  "finished store files t f =
     t\<lparr>i_done := Suc (i_done t), received_list := (received_list t)[f := True], fcnt_list := (fcnt_list t)[f := []],
       f_count := f_count t - 1, written := written t @ [(dest store files f, snd (files ! f))]\<rparr>"

lemma write_file_finishes:
  assumes "sendable files" and "f < length files" and "CHR 0x00 \<notin> set store" and "can_open (dest store files f)"
    and "concat (fcnt_list t ! f) = snd (files ! f)"
  shows "write_file can_open store f (fst (files ! f)) t = Inr (finished store files t f)"
proof -
  have "takeWhile (\<lambda>c. c \<noteq> CHR 0x00) (store @ ''/'' @ fst (files ! f)) = dest store files f"
    using sendableD(1) [OF assms(1,2)] assms(3) by (auto simp: takeWhile_eq_all_conv dest_def plain_name_def)
  then show ?thesis
    using assms(4,5) by (simp add: write_file_def MergePackets_def Let_def finished_def)
qed

lemma finished_inv:
  assumes "f < length files" and "off < length (frags files f)" and "srv_inv store files s"
    and "\<not> received_list s ! f" and "\<And>g. val_at False (int g) m = (val_at False (int g) (f_stat s) \<or> g = f)"
  shows "srv_inv store files (finished store files (noted files s f off m) f)"
proof -
  let ?t = "finished store files (noted files s f off m) f"
  have len: "length (fcnt_list s) = length files" "length (received_list s) = length files"
    using assms(3) by (simp_all add: srv_inv_def)
  have "file_inv files ?t f" using assms(1) len by (simp add: file_inv_def finished_def noted_def)
  moreover have "file_inv files ?t g" if "g < length files" "g \<noteq> f" for g
    using assms(3) that file_inv_cong [of ?t g s] assms(5) by (simp add: finished_def noted_def srv_inv_def)
  ultimately have "\<forall>g < length files. file_inv files ?t g" by blast
  moreover have "f_count ?t = int (length (filter (\<lambda>l. l \<noteq> []) (fcnt_list ?t)))"
    using filter_update_count [of f "fcnt_list s" "\<lambda>l. l \<noteq> []" "[]"] assms(1,3) 
    by (simp add: finished_def noted_def srv_inv_def split: if_splits)
  moreover have "i_done ?t = length (filter id (received_list ?t))"
    using filter_update_count [of f "received_list s" id True] assms(1,3,4)
    by (simp add: finished_def noted_def srv_inv_def)
  moreover have "set (written ?t) = {(dest store files g, snd (files ! g)) | g. g < length files \<and> received_list ?t ! g}"
    using assms(1,3) by (auto simp: finished_def noted_def srv_inv_def nth_list_update)
  ultimately show ?thesis using assms(3) by (simp add: srv_inv_def finished_def noted_def)
qed

text \<open>
  One packet of the client: the server goes on, keeps what it has, acknowledges only what it has, and takes
  the fragment unless more than 300 other files are in progress.
\<close>

lemma srv_packet:
  assumes "sendable files" and "f < length files" and "off < length (frags files f)" and "srv_inv store files s"
    and "CHR 0x00 \<notin> set store" and "\<forall>f < length files. can_open (dest store files f)"
  obtains t where "srv_datagram can_open store junk (pkt files f off) s = Inr t" and "srv_inv store files t"
    and "\<And>g j. g < length files \<Longrightarrow> has_frag s g j \<Longrightarrow> has_frag t g j"
    and "length files \<le> 301 \<Longrightarrow> has_frag t f off"
    and "set (sent t) \<subseteq> set (sent s) \<union> {ack_msg (int f) (int off)}"
    and "has_frag t f off \<or> sent t = sent s"
    and "\<And>g. g < length files \<Longrightarrow> received_list s ! g \<Longrightarrow> received_list t ! g"
proof (cases "received_list s ! f \<or> fcnt_list s ! f = [] \<and> f_count s > 300")
  case True
  from srv_ignores [OF assms(1-4) True] obtain p m where
    t: "srv_datagram can_open store junk (pkt files f off) s = Inr (s\<lparr>packet_list := p, f_stat := m\<rparr>)"
      "srv_inv store files (s\<lparr>packet_list := p, f_stat := m\<rparr>)" by blast
  have "received_list s ! f" if "length files \<le> 301"
  proof (rule ccontr)
    assume "\<not> received_list s ! f"
    with True have c: "fcnt_list s ! f = []" "f_count s > 300" by auto
    have "[] \<in> set (fcnt_list s)" using c(1) nth_mem [of f "fcnt_list s"] assms(2,4) by (simp add: srv_inv_def)
    then have "length (filter (\<lambda>l. l \<noteq> []) (fcnt_list s)) < length (fcnt_list s)"
      by (rule length_filter_less) simp
    with c(2) that assms(4) show False by (simp add: srv_inv_def)
  qed
  then show ?thesis using t by (intro that [OF t]) (auto simp: has_frag_def)
next
  case False
  then have nr: "\<not> received_list s ! f" "fcnt_list s ! f \<noteq> [] \<or> f_count s \<le> 300" by auto
  from srv_accepts [OF assms(1-4) nr] obtain m where
    d: "srv_datagram can_open store junk (pkt files f off) s =
      (if length (set_insert (int off) (record_list s ! f)) = length (frags files f)
       then write_file can_open store f (fst (files ! f)) (noted files s f off m)
       else Inr (noted files s f off m))"
    and m: "\<And>g. val_at False (int g) m = (val_at False (int g) (f_stat s) \<or> g = f)" by blast
  have len: "f < length (fcnt_list s)" "f < length (record_list s)" "f < length (received_list s)"
    using assms(2,4) by (simp_all add: srv_inv_def)
  show ?thesis
  proof (cases "length (set_insert (int off) (record_list s ! f)) = length (frags files f)")
    case True
    have "concat (fcnt_list (noted files s f off m) ! f) = snd (files ! f)"
      using complete_is_file [OF assms(2-4) nr(1) True] len by (simp add: noted_def)
    with d True write_file_finishes [of files f store can_open, OF assms(1,2,5) assms(6) [rule_format, OF assms(2)]]
    have "srv_datagram can_open store junk (pkt files f off) s = Inr (finished store files (noted files s f off m) f)" by simp
    then show ?thesis
      by (rule that [OF _ finished_inv [OF assms(2-4) nr(1) m]])
         (use len in \<open>auto simp: has_frag_def finished_def noted_def nth_list_update\<close>)
  next
    case False
    have "file_inv files s f" using assms(2,4) by (simp add: srv_inv_def)
    then have "length (set_insert (int off) (record_list s ! f)) \<le> length (frags files f)"
      using nr(1) by (cases "fcnt_list s ! f = []") (auto simp: file_inv_def length_set_insert Suc_le_eq)
    with False have "srv_inv store files (noted files s f off m)"
      by (intro noted_inv [OF assms(2-4) nr(1) m]) auto
    moreover have "srv_datagram can_open store junk (pkt files f off) s = Inr (noted files s f off m)"
      using d False by simp
    ultimately show ?thesis
      by (intro that [of "noted files s f off m"]) (use len in \<open>auto simp: has_frag_def noted_def nth_list_update\<close>)
  qed
qed

definition all_packets :: "(string \<times> string) list \<Rightarrow> string list" where
  "all_packets files = concat (map (\<lambda>f. map (pkt files f) [0..<length (frags files f)]) [0..<length files])"

lemma in_all_packets: "d \<in> set (all_packets files) \<longleftrightarrow> (\<exists>f off. f < length files \<and> off < length (frags files f) \<and> d = pkt files f off)"
  by (fastforce simp: all_packets_def image_iff)

lemma pkt_in: "f < length files \<Longrightarrow> off < length (frags files f) \<Longrightarrow> pkt files f off \<in> set (all_packets files)"
  unfolding in_all_packets by blast

lemma all_received:
  assumes "srv_inv store files s" and "\<not> i_done s < length files" and "f < length files"
  shows "received_list s ! f"
proof (rule ccontr)
  assume "\<not> received_list s ! f"
  then have "False \<in> set (received_list s)"
    using nth_mem [of f "received_list s"] assms(1,3) by (simp add: srv_inv_def)
  then have "length (filter id (received_list s)) < length (received_list s)" by (rule length_filter_less) simp
  with assms(1,2) show False by (simp add: srv_inv_def)
qed

lemma all_frags_received:
  assumes "srv_inv store files s" and "f < length files" and "\<And>off. off < length (frags files f) \<Longrightarrow> has_frag s f off"
  shows "received_list s ! f"
proof (rule ccontr)
  assume nr: "\<not> received_list s ! f"
  have inv: "file_inv files s f" using assms(1,2) by (simp add: srv_inv_def)
  have "int ` {..<length (frags files f)} \<subseteq> set (record_list s ! f)" using assms(3) nr by (auto simp: has_frag_def)
  then have "card (int ` {..<length (frags files f)}) \<le> card (set (record_list s ! f))" by (intro card_mono) auto
  also have "\<dots> \<le> length (record_list s ! f)" by (rule card_length)
  finally have "length (frags files f) \<le> length (record_list s ! f)" by (simp add: card_image)
  with inv nr show False by (auto simp: file_inv_def split: if_splits)
qed

lemma written_set:
  assumes "srv_inv store files s"
  shows "set (written s) = (\<lambda>f. (dest store files f, snd (files ! f))) ` {f. f < length files \<and> received_list s ! f}"
proof -
  have "set (written s) = {(dest store files f, snd (files ! f)) | f. f < length files \<and> received_list s ! f}"
    using assms by (simp add: srv_inv_def)
  then show ?thesis by blast
qed

lemma all_files_set:
  "set (map (\<lambda>(name, cnt). (store @ ''/'' @ name, cnt)) files) = (\<lambda>f. (dest store files f, snd (files ! f))) ` {..<length files}"
proof -
  have "map (\<lambda>(name, cnt). (store @ ''/'' @ name, cnt)) files = map (\<lambda>f. (dest store files f, snd (files ! f))) [0..<length files]"
    by (rule nth_equalityI) (simp_all add: dest_def split_beta)
  then show ?thesis by (simp only: set_map set_upt atLeast0LessThan)
qed

lemma written_distinct:
  assumes "srv_inv store files s" and "sendable files"
  shows "distinct (map fst (written s))"
proof -
  let ?F = "{f. f < length files \<and> received_list s ! f}"
  have "inj_on (dest store files) ?F"
    using assms(2) by (auto simp: inj_on_def dest_def sendable_def distinct_conv_nth)
  moreover have "set (map fst (written s)) = dest store files ` ?F"
    by (simp add: written_set [OF assms(1)] image_image)
  ultimately have "card (set (map fst (written s))) = card ?F" by (simp add: card_image)
  also have "\<dots> = length (map fst (written s))"
    using assms(1) by (simp add: srv_inv_def length_filter_conv_card)
  finally show ?thesis by (simp add: card_distinct)
qed

lemma srv_loop_packets:
  assumes "sendable files" and "CHR 0x00 \<notin> set store" and "\<forall>f < length files. can_open (dest store files f)"
    and "srv_inv store files s" and "snd ` set rs \<subseteq> {None, Some []} \<union> Some ` set (all_packets files)"
  shows "\<exists>t. srv_loop can_open store (length files) rs s = Inr t \<and> srv_inv store files t \<and>
    (\<forall>f off. f < length files \<longrightarrow> off < length (frags files f) \<longrightarrow>
       (has_frag s f off \<or> length files \<le> 301 \<and> Some (pkt files f off) \<in> snd ` set rs) \<longrightarrow> has_frag t f off)"
  using assms(4,5)
proof (induction rs arbitrary: s)
  case Nil
  then show ?case by auto
next
  case (Cons x rs)
  obtain junk r where x: "x = (junk, r)" by (cases x)
  show ?case
  proof (cases "i_done s < length files")
    case False
    then show ?thesis using Cons.prems(1) all_received [OF Cons.prems(1) False] by (auto simp: x has_frag_def)
  next
    case i: True
    show ?thesis
    proof (cases "r = None \<or> r = Some []")
      case True
      then have "Some (pkt files f off) \<noteq> r" for f off by (auto simp: pkt_def packet_msg_def)
      with True i Cons.IH [OF Cons.prems(1)] Cons.prems(2) show ?thesis by (auto simp: x)
    next
      case False
      with Cons.prems(2) have "r \<in> Some ` set (all_packets files)" by (auto simp: x)
      then obtain d where "d \<in> set (all_packets files)" "r = Some d" by blast
      then obtain f off where d: "f < length files" "off < length (frags files f)" "r = Some (pkt files f off)"
        unfolding in_all_packets by blast
      obtain t where t: "srv_datagram can_open store junk (pkt files f off) s = Inr t" "srv_inv store files t"
          "\<And>g j. g < length files \<Longrightarrow> has_frag s g j \<Longrightarrow> has_frag t g j"
        by (rule srv_packet [where junk = junk, OF assms(1) d(1,2) Cons.prems(1) assms(2,3)]) (rule that)
      have new: "has_frag t g j" if gj: "length files \<le> 301" "g < length files" "j < length (frags files g)" "pkt files g j = pkt files f off" for g j
      proof -
        obtain t' where "srv_datagram can_open store junk (pkt files g j) s = Inr t'" "length files \<le> 301 \<Longrightarrow> has_frag t' g j"
          by (rule srv_packet [where junk = junk, OF assms(1) gj(2,3) Cons.prems(1) assms(2,3)]) blast
        with gj(1,4) t(1) show ?thesis by simp
      qed
      from Cons.IH [OF t(2)] Cons.prems(2) obtain u where
        u: "srv_loop can_open store (length files) rs t = Inr u" "srv_inv store files u"
          "\<forall>f off. f < length files \<longrightarrow> off < length (frags files f) \<longrightarrow>
             (has_frag t f off \<or> length files \<le> 301 \<and> Some (pkt files f off) \<in> snd ` set rs) \<longrightarrow> has_frag u f off" by auto
      have "srv_loop can_open store (length files) (x # rs) s = Inr u"
        using i False t(1) u(1) d pkt_fits [OF assms(1) d(1,2)] by (simp add: x)
      moreover have "has_frag u g j" if gj: "g < length files" "j < length (frags files g)"
          "has_frag s g j \<or> length files \<le> 301 \<and> Some (pkt files g j) \<in> snd ` set (x # rs)" for g j
      proof -
        from gj(3) consider "has_frag t g j" | "length files \<le> 301" "Some (pkt files g j) \<in> snd ` set rs"
          using t(3) [OF gj(1)] new [OF _ gj(1,2)] d(3) by (auto simp: x)
        then show ?thesis using u(3) gj(1,2) by blast
      qed
      ultimately show ?thesis using u(2) by blast
    qed
  qed
qed

text \<open>
  C4. The server over any network: whatever packets of the client's files arrive, lost, repeated and in any
  order, with time-outs and empty datagrams in between, it never fails, writes no file twice, and writes only
  files of the client, each with its exact contents. When there are at most 301 files (the bound of 300 open files
  is tested before a new one is opened) and every packet arrives at least once, all files are written.
\<close>

theorem transfer_delivers:
  assumes "sendable files" and "CHR 0x00 \<notin> set store" and "\<forall>name \<in> fst ` set files. can_open (store @ ''/'' @ name)"
    and "snd ` set rs \<subseteq> {None, Some []} \<union> Some ` set (all_packets files)"
  shows "\<exists>t. srv_loop can_open store (length files) rs (srv_init (length files)) = Inr t \<and>
    distinct (map fst (written t)) \<and>
    set (written t) \<subseteq> set (map (\<lambda>(name, cnt). (store @ ''/'' @ name, cnt)) files) \<and>
    (length files \<le> 301 \<and> Some ` set (all_packets files) \<subseteq> snd ` set rs \<longrightarrow>
       set (written t) = set (map (\<lambda>(name, cnt). (store @ ''/'' @ name, cnt)) files))"
proof -
  have "\<forall>f < length files. can_open (dest store files f)" using assms(3) by (simp add: dest_def)
  from srv_loop_packets [OF assms(1,2) this srv_init_inv assms(4)] obtain t where
    t: "srv_loop can_open store (length files) rs (srv_init (length files)) = Inr t" "srv_inv store files t"
      and frags: "\<And>f off. f < length files \<Longrightarrow> off < length (frags files f) \<Longrightarrow> length files \<le> 301 \<Longrightarrow>
        Some (pkt files f off) \<in> snd ` set rs \<Longrightarrow> has_frag t f off" by blast
  have "received_list t ! f" if "f < length files" "length files \<le> 301" "Some ` set (all_packets files) \<subseteq> snd ` set rs" for f
    using that by (intro all_frags_received [OF t(2)] frags subsetD [OF that(3)] imageI pkt_in)
  with t(1) written_distinct [OF t(2) assms(1)] written_set [OF t(2)] show ?thesis
    unfolding all_files_set by (intro exI [of _ t]) auto
qed

theorem transfer_delivers_witness:
  "\<exists>t. srv_loop (\<lambda>_. True) ''out'' 2
      [(\<lambda>_. 7, None), (\<lambda>_. 7, Some (packet_msg 1 1 0 ''hi'' ''b'')), (\<lambda>_. 8, Some []),
       (\<lambda>_. 9, Some (packet_msg 1 1 0 ''hi'' ''b'')), (\<lambda>_. 7, Some (packet_msg 0 1 0 [] ''a''))] (srv_init 2) = Inr t \<and>
     set (written t) = {(''out/a'', []), (''out/b'', ''hi'')}"
proof -
  have fr: "frags [(''a'', []), (''b'', ''hi'')] 0 = [[]]" "frags [(''a'', []), (''b'', ''hi'')] (Suc 0) = [''hi'']"
    by (simp_all add: frags_def split_file_def)
  have p: "all_packets [(''a'', []), (''b'', ''hi'')] = [packet_msg 0 1 0 [] ''a'', packet_msg 1 1 0 ''hi'' ''b'']"
    by (simp add: all_packets_def upt_rec pkt_def fr)
  have ok: "sendable [(''a'', []), (''b'', ''hi'')]" "CHR 0x00 \<notin> set ''out''"
    by (simp_all add: sendable_def plain_name_def isspace_def INT_MAX_def split_file_def)
  show ?thesis
    using transfer_delivers [OF ok, of "\<lambda>_. True"
      "[(\<lambda>_. 7, None), (\<lambda>_. 7, Some (packet_msg 1 1 0 ''hi'' ''b'')), (\<lambda>_. 8, Some []),
        (\<lambda>_. 9, Some (packet_msg 1 1 0 ''hi'' ''b'')), (\<lambda>_. 7, Some (packet_msg 0 1 0 [] ''a''))]"]
    unfolding p by (simp add: numeral_2_eq_2 del: srv_loop.simps) blast
qed

subsection \<open>The client\<close>

lemma in_int_None [simp]: "in_int v None = (v, None)" and in_word_None [simp]: "in_word w None = (w, None)"
  by (simp_all add: in_int_def in_word_def)

lemma decompose_ack_empty: "\<exists>k. decompose_ack junk [] c = ((k, []), c)"
  by (simp add: decompose_ack_def in_int_def)

lemma decompose_ack_msg:
  assumes "int f \<le> INT_MAX" and "int off \<le> INT_MAX"
  shows "decompose_ack junk (ack_msg (int f) (int off)) c = (((int f, int off), ''ACK''), c)"
proof -
  have w: "in_word v (Some '' ACK'') = (''ACK'', Some [])" for v by (simp add: in_word_def isspace_def)
  show ?thesis
    using assms by (simp add: decompose_ack_def ack_msg_def print_int_def in_int_print w)
qed

lemma decompose_ack_term: "decompose_ack junk term_msg c = (((-1, -1), ''terminate''), c\<lparr>term_flag := True\<rparr>)"
  by (simp add: decompose_ack_def term_msg_def in_int_def in_word_def scan_long_def isspace_def isdigit_def digit_val_def
      INT_MAX_def INT_MIN_def num_of_def)

lemma ack_text_short: "length d < 1024 \<Longrightarrow> CHR 0x00 \<notin> set d \<Longrightarrow> ack_text (Some d) = Inr d"
  by (auto simp: ack_text_def Let_def takeWhile_eq_all_conv)

lemma ack_text_ack:
  assumes "int f \<le> INT_MAX" and "int off \<le> INT_MAX"
  shows "ack_text (Some (ack_msg (int f) (int off))) = Inr (ack_msg (int f) (int off))"
  using length_print_dec [OF assms(1)] length_print_dec [OF assms(2)] print_dec_chars(3) [where c = "CHR 0x00"]
  by (intro ack_text_short) (auto simp: ack_msg_def print_int_def)

lemma ack_text_term: "ack_text (Some term_msg) = Inr term_msg"
  by (intro ack_text_short) (simp_all add: term_msg_def)

lemma ack_text_none: "ack_text None = Inr []"
  by (simp add: ack_text_def)

text \<open>
  The key of a fragment is always in \<open>ACKed\<close> when the code looks for it, so that nothing ever enters
  \<open>send_failed\<close>.
\<close>

lemma cli_frag_eq:
  "cli_frag junk r seq_num num off frag name c =
     (let key = (int seq_num, int off); msg = packet_msg seq_num num off frag name in
      if val_at 0 key (ACKed c) \<noteq> 0 then Inr c
      else case ack_text r of
        Inl e \<Rightarrow> Inl e
      | Inr txt \<Rightarrow>
          (case decompose_ack junk txt c of ((k, buf), c') \<Rightarrow>
             if term_flag c' then Inl (Exit_code 0)
             else Inr (c\<lparr>ACKed := (if buf = ''ACK'' then put k 1 (ensure 0 key (ACKed c)) else ensure 0 key (ACKed c)),
                         c_sent := c_sent c @ [msg]\<rparr>)))"
proof -
  have "val_at 0 key m \<noteq> 0 \<Longrightarrow> ensure 0 key m = m" for key and m :: "((int \<times> int) \<times> int) list"
    by (rule om.brackets_present) (auto simp: val_at_def split: option.splits)
  then show ?thesis
    by (auto simp: cli_frag_def decompose_ack_def Let_def om.read_brackets om.get_brackets map_of_put
        split: sum.splits prod.splits if_splits)
qed

lemma cli_frag_queue:
  "cli_frag junk r seq_num num off frag name c = Inr c' \<Longrightarrow> send_failed c' = send_failed c"
  by (auto simp: cli_frag_eq decompose_ack_def Let_def split: sum.splits prod.splits if_splits)

lemma cli_frag_sent:
  "cli_frag junk r seq_num num off frag name c = Inr c' \<Longrightarrow>
     c_sent c' = c_sent c @ (if val_at 0 (int seq_num, int off) (ACKed c) \<noteq> 0 then [] else [packet_msg seq_num num off frag name])"
  by (auto simp: cli_frag_eq decompose_ack_def Let_def split: sum.splits prod.splits if_splits)

lemma cli_frag_acked:
  "cli_frag junk r seq_num num off frag name c = Inr c' \<Longrightarrow> val_at 0 k (ACKed c) \<noteq> 0 \<Longrightarrow> val_at 0 k (ACKed c') \<noteq> 0"
  by (auto simp: cli_frag_eq decompose_ack_def Let_def val_at_def om.get_brackets map_of_put
      split: sum.splits prod.splits if_splits option.splits)

text \<open>What a stretch of the client's work on a list of keys and packets does.\<close>

definition progress :: "cli \<Rightarrow> cli \<Rightarrow> ((int \<times> int) \<times> string) list \<Rightarrow> bool" where
  "progress c c' jobs =
     ((\<exists>new. c_sent c' = c_sent c @ new \<and> subseq new (map snd jobs) \<and>
        (\<forall>(k, msg) \<in> set jobs. msg \<in> set new \<or> val_at 0 k (ACKed c') \<noteq> 0)) \<and>
      send_failed c' = send_failed c \<and> (\<forall>k. val_at 0 k (ACKed c) \<noteq> 0 \<longrightarrow> val_at 0 k (ACKed c') \<noteq> 0))"

lemma progress_Nil: "progress c c []"
  by (simp add: progress_def)

lemma progress_append:
  assumes "progress c c' js" and "progress c' c'' js'"
  shows "progress c c'' (js @ js')"
proof -
  from assms obtain new new' where n: "c_sent c' = c_sent c @ new" "subseq new (map snd js)"
      "\<forall>(k, msg) \<in> set js. msg \<in> set new \<or> val_at 0 k (ACKed c') \<noteq> 0"
      "c_sent c'' = c_sent c' @ new'" "subseq new' (map snd js')"
      "\<forall>(k, msg) \<in> set js'. msg \<in> set new' \<or> val_at 0 k (ACKed c'') \<noteq> 0"
    and a: "\<And>k. val_at 0 k (ACKed c') \<noteq> 0 \<Longrightarrow> val_at 0 k (ACKed c'') \<noteq> 0"
    unfolding progress_def by blast
  have "c_sent c'' = c_sent c @ new @ new'" "subseq (new @ new') (map snd (js @ js'))"
    using n by (simp_all add: list_emb_append_mono)
  moreover have "\<forall>(k, msg) \<in> set (js @ js'). msg \<in> set (new @ new') \<or> val_at 0 k (ACKed c'') \<noteq> 0"
    using n(3,6) a by fastforce
  ultimately show ?thesis using assms unfolding progress_def by auto
qed

lemma progress_frag:
  assumes "cli_frag junk r seq_num num off frag name c = Inr c'"
  shows "progress c c' [((int seq_num, int off), packet_msg seq_num num off frag name)]"
  using cli_frag_sent [OF assms] cli_frag_queue [OF assms] cli_frag_acked [OF assms]
  unfolding progress_def by (auto split: if_splits)

fun frag_jobs :: "nat \<Rightarrow> nat \<Rightarrow> nat \<Rightarrow> string list \<Rightarrow> string \<Rightarrow> ((int \<times> int) \<times> string) list" where
  "frag_jobs seq_num num off [] name = []"
| "frag_jobs seq_num num off (frag # frs) name =
     ((int seq_num, int off), packet_msg seq_num num off frag name) # frag_jobs seq_num num (Suc off) frs name"

fun file_jobs :: "nat \<Rightarrow> (string \<times> string) list \<Rightarrow> ((int \<times> int) \<times> string) list" where
  "file_jobs seq_num [] = []"
| "file_jobs seq_num ((name, cnt) # fs) =
     frag_jobs seq_num (length (split_file cnt)) 0 (split_file cnt) name @ file_jobs (Suc seq_num) fs"

lemma cli_frags_progress:
  "cli_frags rs seq_num num off frs name c = Inr c' \<Longrightarrow> progress c c' (frag_jobs seq_num num off frs name)"
proof (induction frs arbitrary: off c)
  case (Cons frag frs)
  then obtain junk r c1 where "cli_frag junk r seq_num num off frag name c = Inr c1"
      "cli_frags rs seq_num num (Suc off) frs name c1 = Inr c'"
    by (auto split: prod.splits sum.splits)
  with progress_append [OF progress_frag] Cons.IH show ?case by fastforce
qed (simp add: progress_Nil)

lemma cli_files_progress:
  "cli_files rs seq_num (map (\<lambda>(name, cnt). (name, Some cnt)) fs) c = Inr c' \<Longrightarrow> progress c c' (file_jobs seq_num fs)"
proof (induction fs arbitrary: seq_num c)
  case (Cons x fs)
  obtain name cnt where x: "x = (name, cnt)" by (cases x)
  with Cons.prems obtain c1 where
      "cli_frags rs seq_num (length (split_file cnt)) 0 (split_file cnt) name c = Inr c1"
      "cli_files rs (Suc seq_num) (map (\<lambda>(name, cnt). (name, Some cnt)) fs) c1 = Inr c'"
    by (auto simp: Let_def split: sum.splits)
  with progress_append [OF cli_frags_progress] Cons.IH show ?case by (fastforce simp: x)
qed (simp add: progress_Nil)

lemma cli_frag_ends:
  "cli_frag junk r seq_num num off frag name c = Inl e \<Longrightarrow> e \<in> {Undefined Buffer_overflow, Exit_code 0}"
  by (auto simp: cli_frag_eq ack_text_def Let_def split: sum.splits prod.splits if_splits)

lemma cli_frags_ends:
  "cli_frags rs seq_num num off frs name c = Inl e \<Longrightarrow> e \<in> {Undefined Buffer_overflow, Exit_code 0}"
  by (induction frs arbitrary: off c) (auto split: prod.splits sum.splits dest: cli_frag_ends)

lemma cli_files_ends:
  "cli_files rs seq_num fs c = Inl e \<Longrightarrow> e \<in> {Undefined Buffer_overflow, Exit_code 0}"
  by (induction rs seq_num fs c rule: cli_files.induct)
     (auto simp: Let_def split: sum.splits dest: cli_frags_ends)

lemma frag_jobs_eq:
  "frag_jobs f num off fr name = map (\<lambda>i. ((int f, int (off + i)), packet_msg f num (off + i) (fr ! i) name)) [0..<length fr]"
  by (induction fr arbitrary: off) (simp_all add: map_upt_Suc del: upt_Suc)

lemma file_jobs_eq:
  "file_jobs k (drop k files) = concat (map (\<lambda>f. map (\<lambda>off. ((int f, int off), pkt files f off)) [0..<length (frags files f)]) [k..<length files])"
proof (induction "length files - k" arbitrary: k)
  case 0
  then show ?case by simp
next
  case (Suc n)
  then have k: "k < length files" by simp
  obtain name cnt where x: "files ! k = (name, cnt)" by (cases "files ! k")
  have d: "drop k files = (name, cnt) # drop (Suc k) files" using Cons_nth_drop_Suc [OF k] x by simp
  have "[k..<length files] = k # [Suc k..<length files]" using k by (rule upt_conv_Cons)
  with d Suc.hyps(1) [of "Suc k"] Suc.hyps(2) show ?case
    by (simp add: frag_jobs_eq pkt_def frags_def x)
qed



subsection \<open>Client, server and network together\<close>

text \<open>
  The network may lose, repeat and reorder: a receiver gets any datagram that was ever sent to it, or
  nothing. The client works on any fragment; this includes the order of its loops.
\<close>

inductive xfer :: "(string \<Rightarrow> bool) \<Rightarrow> string \<Rightarrow> (string \<times> string) list \<Rightarrow> cli \<Rightarrow> srv \<Rightarrow> bool"
  for can_open store files where
  start: "xfer can_open store files cli_init (srv_init (length files))"
| client: "xfer can_open store files c s \<Longrightarrow> f < length files \<Longrightarrow> off < length (frags files f) \<Longrightarrow>
    r \<in> insert None (Some ` set (sent s)) \<Longrightarrow>
    cli_frag junk r f (length (frags files f)) off (frags files f ! off) (fst (files ! f)) c = Inr c' \<Longrightarrow>
    xfer can_open store files c' s"
| server: "xfer can_open store files c s \<Longrightarrow> i_done s < length files \<Longrightarrow> d \<in> set (c_sent c) \<Longrightarrow>
    srv_datagram can_open store junk (take 10000 d) s = Inr s' \<Longrightarrow> xfer can_open store files c s'"
| finish: "xfer can_open store files c s \<Longrightarrow> \<not> i_done s < length files \<Longrightarrow> xfer can_open store files c (srv_terminate s)"

definition answer_ok :: "(string \<times> string) list \<Rightarrow> srv \<Rightarrow> string \<Rightarrow> bool" where
  "answer_ok files s a =
     ((\<exists>f off. f < length files \<and> off < length (frags files f) \<and> has_frag s f off \<and> a = ack_msg (int f) (int off)) \<or>
      a = term_msg \<and> (\<forall>f < length files. received_list s ! f))"

definition xfer_inv :: "string \<Rightarrow> (string \<times> string) list \<Rightarrow> cli \<Rightarrow> srv \<Rightarrow> bool" where
  "xfer_inv store files c s =
     (srv_inv store files s \<and> set (c_sent c) \<subseteq> set (all_packets files) \<and> send_failed c = [] \<and> \<not> term_flag c \<and>
      (\<forall>f off. val_at 0 (int f, int off) (ACKed c) \<noteq> 0 \<longrightarrow> f < length files \<and> off < length (frags files f) \<and> has_frag s f off) \<and>
      (\<forall>a \<in> set (sent s). answer_ok files s a))"

lemma answer_ok_mono:
  assumes "answer_ok files s a" and "\<And>g j. g < length files \<Longrightarrow> has_frag s g j \<Longrightarrow> has_frag t g j"
    and "\<And>g. g < length files \<Longrightarrow> received_list s ! g \<Longrightarrow> received_list t ! g"
  shows "answer_ok files t a"
  using assms unfolding answer_ok_def by blast

lemma ack_not_term: "ack_msg (int f) (int off) \<noteq> term_msg"
proof
  assume "ack_msg (int f) (int off) = term_msg"
  then have "hd (print_dec f @ '' '' @ print_int (int off) @ '' ACK'') = CHR ''-''"
    by (simp add: ack_msg_def print_int_def term_msg_def)
  with print_dec_chars(3) [OF hd_print_dec] show False by auto
qed

text \<open>One step of the client on an answer of the server.\<close>

lemma cli_frag_answer:
  assumes "sendable files" and "xfer_inv store files c s" and "f < length files" and "off < length (frags files f)"
    and "r \<in> insert None (Some ` set (sent s))"
  shows "(\<exists>c'. cli_frag junk r f (length (frags files f)) off (frags files f ! off) (fst (files ! f)) c = Inr c' \<and> xfer_inv store files c' s) \<or>
    cli_frag junk r f (length (frags files f)) off (frags files f ! off) (fst (files ! f)) c = Inl (Exit_code 0) \<and>
      r = Some term_msg \<and> (\<forall>f < length files. received_list s ! f)"
proof -
  note inv = assms(2) [unfolded xfer_inv_def]
  have nt: "\<not> term_flag c" using inv by simp
  let ?m = "ensure 0 (int f, int off) (ACKed c)"
  have upd: "xfer_inv store files (c\<lparr>ACKed := m, c_sent := c_sent c @ [pkt files f off]\<rparr>) s"
    if "\<And>g j. val_at 0 (int g, int j) m \<noteq> 0 \<Longrightarrow> g < length files \<and> j < length (frags files g) \<and> has_frag s g j" for m
    using inv that pkt_in [OF assms(3,4)] by (auto simp: xfer_inv_def)
  have old: "g < length files \<and> j < length (frags files g) \<and> has_frag s g j" if "val_at 0 (int g, int j) ?m \<noteq> 0" for g j
    using inv that by (simp add: om.read_brackets)
  consider "val_at 0 (int f, int off) (ACKed c) \<noteq> 0"
    | "val_at 0 (int f, int off) (ACKed c) = 0" "r = None"
    | a where "val_at 0 (int f, int off) (ACKed c) = 0" "r = Some a" "answer_ok files s a"
    using assms(5) inv by blast
  then show ?thesis
  proof cases
    case 1
    then show ?thesis using assms(2) by (simp add: cli_frag_eq)
  next
    case 2
    obtain k where "decompose_ack junk [] c = ((k, []), c)" using decompose_ack_empty by blast
    with 2 nt upd [OF old] show ?thesis by (simp add: cli_frag_eq ack_text_none flip: pkt_def)
  next
    case 3
    show ?thesis
    proof (cases "a = term_msg")
      case True
      with 3 have "\<forall>f < length files. received_list s ! f"
        using not_sym [OF ack_not_term] by (auto simp: answer_ok_def)
      with 3 True show ?thesis by (simp add: cli_frag_eq ack_text_term decompose_ack_term)
    next
      case False
      with 3(3) obtain g j where a: "g < length files" "j < length (frags files g)" "has_frag s g j" "a = ack_msg (int g) (int j)"
        by (auto simp: answer_ok_def)
      have b: "int g \<le> INT_MAX" "int j \<le> INT_MAX" using sendableD(3,4) [OF assms(1) a(1)] a(2) by simp_all
      have "g' < length files \<and> j' < length (frags files g') \<and> has_frag s g' j'" if "val_at 0 (int g', int j') (put (int g, int j) 1 ?m) \<noteq> 0" for g' j'
        using that a old [of g' j'] by (auto simp: val_at_def map_of_put split: if_splits)
      from upd [OF this] 3 nt show ?thesis
        by (simp add: cli_frag_eq a(4) ack_text_ack [OF b] decompose_ack_msg [OF b] flip: pkt_def)
    qed
  qed
qed

lemma xfer_invariant:
  assumes "xfer can_open store files c s" and "sendable files" and "CHR 0x00 \<notin> set store"
    and "\<forall>f < length files. can_open (dest store files f)"
  shows "xfer_inv store files c s"
  using assms(1)
proof induction
  case start
  show ?case using srv_init_inv [of store files] by (simp add: xfer_inv_def cli_init_def srv_init_def val_at_def)
next
  case (client c s f off r junk c')
  from cli_frag_answer [OF assms(2) client.IH client.hyps(2-4), of junk] client.hyps(5) show ?case by auto
next
  case (server c s d junk s')
  from server.IH server.hyps(3) have "d \<in> set (all_packets files)" by (auto simp: xfer_inv_def)
  then obtain f off where d: "f < length files" "off < length (frags files f)" "d = pkt files f off"
    unfolding in_all_packets by blast
  have inv: "srv_inv store files s" using server.IH by (simp add: xfer_inv_def)
  obtain t where t: "srv_datagram can_open store junk (pkt files f off) s = Inr t" "srv_inv store files t"
      "\<And>g j. g < length files \<Longrightarrow> has_frag s g j \<Longrightarrow> has_frag t g j"
      "set (sent t) \<subseteq> set (sent s) \<union> {ack_msg (int f) (int off)}" "has_frag t f off \<or> sent t = sent s"
      "\<And>g. g < length files \<Longrightarrow> received_list s ! g \<Longrightarrow> received_list t ! g"
    by (rule srv_packet [where junk = junk, OF assms(2) d(1,2) inv assms(3,4)]) (rule that)
  then have [simp]: "s' = t" using server.hyps(4) pkt_fits(1) [OF assms(2) d(1,2)] d(3) by simp
  have "answer_ok files t a" if "a \<in> set (sent t)" for a
  proof (cases "a \<in> set (sent s)")
    case True
    with server.IH have "answer_ok files s a" by (simp add: xfer_inv_def)
    then show ?thesis by (rule answer_ok_mono [OF _ t(3,6)])
  next
    case False
    with that t(4,5) have "a = ack_msg (int f) (int off)" "has_frag t f off" by auto
    with d(1,2) show ?thesis unfolding answer_ok_def by blast
  qed
  then show ?case using server.IH t(2,3) unfolding xfer_inv_def by auto
next
  case (finish c s)
  then have "answer_ok files s term_msg"
    using all_received by (auto simp: answer_ok_def xfer_inv_def)
  with finish.IH show ?case
    by (auto simp: xfer_inv_def srv_terminate_def srv_inv_def file_inv_def answer_ok_def has_frag_def)
qed

text \<open>
  C25. Client and server together, over a network that loses, repeats and reorders: in every reachable state a fragment
  that the client takes for acknowledged is with the server, no datagram of the client makes the server fail, and
  the client goes on after every answer unless it is told to terminate, and then every file is written, once
  and with its exact contents.
\<close>

theorem transfer_sound:
  assumes "xfer can_open store files c s" and "sendable files" and "CHR 0x00 \<notin> set store"
    and "\<forall>name \<in> fst ` set files. can_open (store @ ''/'' @ name)"
  shows "send_failed c = [] \<and>
    (\<forall>f off. val_at 0 (int f, int off) (ACKed c) \<noteq> 0 \<longrightarrow> has_frag s f off) \<and>
    (\<forall>d \<in> set (c_sent c). \<exists>s'. srv_datagram can_open store junk (take 10000 d) s = Inr s') \<and>
    (\<forall>f < length files. \<forall>off < length (frags files f). \<forall>r \<in> insert None (Some ` set (sent s)). \<forall>e.
       cli_frag junk r f (length (frags files f)) off (frags files f ! off) (fst (files ! f)) c = Inl e \<longrightarrow>
       e = Exit_code 0 \<and> distinct (map fst (written s)) \<and>
       set (written s) = set (map (\<lambda>(name, cnt). (store @ ''/'' @ name, cnt)) files))"
proof -
  have can: "\<forall>f < length files. can_open (dest store files f)" using assms(4) by (simp add: dest_def)
  note inv = xfer_invariant [OF assms(1-3) can]
  then have s: "srv_inv store files s" by (simp add: xfer_inv_def)
  have "\<exists>s'. srv_datagram can_open store junk (take 10000 d) s = Inr s'" if d: "d \<in> set (c_sent c)" for d
  proof -
    from d inv have "d \<in> set (all_packets files)" by (auto simp: xfer_inv_def)
    then obtain f off where p: "f < length files" "off < length (frags files f)" "d = pkt files f off"
      unfolding in_all_packets by blast
    obtain t where "srv_datagram can_open store junk (pkt files f off) s = Inr t"
      by (rule srv_packet [where junk = junk, OF assms(2) p(1,2) s assms(3) can]) (rule that)
    then show ?thesis using pkt_fits(1) [OF assms(2) p(1,2)] p(3) by simp
  qed
  moreover have "set (written s) = set (map (\<lambda>(name, cnt). (store @ ''/'' @ name, cnt)) files)"
    if "\<forall>f < length files. received_list s ! f"
    using that unfolding all_files_set written_set [OF s] by auto
  moreover have "e = Exit_code 0 \<and> (\<forall>f < length files. received_list s ! f)"
    if "f < length files" "off < length (frags files f)" "r \<in> insert None (Some ` set (sent s))"
      "cli_frag junk r f (length (frags files f)) off (frags files f ! off) (fst (files ! f)) c = Inl e" for f off r e
    using cli_frag_answer [OF assms(2) inv that(1-3), of junk] that(4) by auto
  ultimately show ?thesis using inv written_distinct [OF s assms(2)] unfolding xfer_inv_def by auto
qed

theorem transfer_sound_witness:
  "\<exists>c s. xfer (\<lambda>_. True) ''out'' [(''b'', ''hi'')] c s \<and> set (written s) = {(''out/b'', ''hi'')}"
proof -
  let ?files = "[(''b'', ''hi'')]" and ?j = "\<lambda>_::nat. 0::int"
  let ?p = "packet_msg 0 1 0 ''hi'' ''b''"
  have fr: "frags ?files 0 = [''hi'']" by (simp add: frags_def split_file_def)
  have ok: "sendable ?files" "CHR 0x00 \<notin> set ''out''"
    by (simp_all add: sendable_def plain_name_def isspace_def INT_MAX_def split_file_def)
  have c: "cli_frag ?j None 0 1 0 ''hi'' ''b'' cli_init = Inr (cli_init\<lparr>ACKed := [((0, 0), 0)], c_sent := [?p]\<rparr>)"
    by (simp add: cli_frag_eq cli_init_def val_at_def ack_text_none decompose_ack_def in_int_def ensure_def)
  have 1: "xfer (\<lambda>_. True) ''out'' ?files (cli_init\<lparr>ACKed := [((0, 0), 0)], c_sent := [?p]\<rparr>) (srv_init 1)"
    using xfer.client [OF xfer.start, of 0 ?files 0 None ?j] c by (simp add: fr)
  obtain s where s: "srv_datagram (\<lambda>_. True) ''out'' ?j (take 10000 ?p) (srv_init 1) = Inr s" "i_done s = 1"
  proof -
    obtain t where t: "srv_datagram (\<lambda>_. True) ''out'' ?j (pkt ?files 0 0) (srv_init (length ?files)) = Inr t"
        "srv_inv ''out'' ?files t" "length ?files \<le> 301 \<Longrightarrow> has_frag t 0 0"
      by (rule srv_packet [where junk = ?j and can_open = "\<lambda>_. True", OF ok(1) _ _ srv_init_inv ok(2), of 0 0]) (simp_all add: fr)
    then have "received_list t ! 0" by (intro all_frags_received [OF t(2)]) (simp_all add: fr)
    moreover have "length (received_list t) = 1" "i_done t = length (filter id (received_list t))"
      using t(2) by (simp_all add: srv_inv_def)
    ultimately have "i_done t = 1" by (cases "received_list t") auto
    then show ?thesis using t(1) pkt_fits(1) [OF ok(1), of 0 0] that by (simp add: fr pkt_def)
  qed
  have 2: "xfer (\<lambda>_. True) ''out'' ?files (cli_init\<lparr>ACKed := [((0, 0), 0)], c_sent := [?p]\<rparr>) s"
    by (rule xfer.server [OF 1 _ _ s(1)]) (simp_all add: srv_init_def)
  have 3: "xfer (\<lambda>_. True) ''out'' ?files (cli_init\<lparr>ACKed := [((0, 0), 0)], c_sent := [?p]\<rparr>) (srv_terminate s)"
    by (rule xfer.finish [OF 2]) (simp add: s(2))
  have e: "cli_frag ?j (Some term_msg) 0 1 0 ''hi'' ''b'' (cli_init\<lparr>ACKed := [((0, 0), 0)], c_sent := [?p]\<rparr>) = Inl (Exit_code 0)"
    by (simp add: cli_frag_eq ack_text_term decompose_ack_term val_at_def)
  have "set (written (srv_terminate s)) = {(''out/b'', ''hi'')}"
    using transfer_sound [OF 3 ok, of ?j] e by (simp add: fr srv_terminate_def)
  with 3 show ?thesis by blast
qed

end
