(* ===== verification/Prefork_Server.thy ===== *)
theory Prefork_Server
  imports Ready_Loop Text_Numbers "HOL-Library.Multiset"
begin

text \<open>
  The preforked server that passes descriptors, \<open>server/serv05.c\<close> with \<open>server/child05.c\<close>,
  \<open>server/child.h\<close> and \<open>server/web_child.c\<close>. The parent accepts connections and passes each to a child that is
  free; a child writes one byte to its stream pipe when it is free again. The parent keeps its own record
  of who is free (\<open>child_status\<close>, \<open>navail\<close>) and stops listening when nobody is.

  The state holds the variables of the parent and, for each child, what is in its stream pipe in both
  directions and what it does. \<open>select\<close> and \<open>accept\<close> are the parameter \<open>k\<close> of the parent's round.
\<close>

subsection \<open>web_child\<close>

definition MAXN :: int where "MAXN = 16384"

text \<open>
  \<open>ntowrite = atol(line)\<close>: white space, a sign, digits; the value saturates at 64 bits and keeps its low
  32 bits in an \<open>int\<close>.
\<close>

definition atol :: "string \<Rightarrow> int" where
  "atol s = (case scan_long s of None \<Rightarrow> 0 | Some (n, _) \<Rightarrow> max (- (2 ^ 63)) (min (2 ^ 63 - 1) n))"

definition int_of_long :: "int \<Rightarrow> int" where
  "int_of_long v = signed_take_bit 31 v"

text \<open>
  The lines the client sends until it closes; the result is the number of bytes written for each. (The
  bytes are those of the uninitialised array \<open>result\<close>.)
\<close>

fun web_child :: "string list \<Rightarrow> int list outcome" where
  "web_child [] = Inr []"
| "web_child (line # lines) =
     (let ntowrite = int_of_long (atol line) in
      if ntowrite \<le> 0 \<or> ntowrite > MAXN
      then Inl (Err_quit (''client request for '' @ print_int ntowrite @ '' bytes''))
      else case web_child lines of Inl e \<Rightarrow> Inl e | Inr ns \<Rightarrow> Inr (ntowrite # ns))"

subsection \<open>The state\<close>

record child_t =
  child_pid :: int
  child_pipefd :: int
  child_status :: int
  child_count :: int

text \<open>What a child does: waiting in \<open>Read_fd\<close>, in \<open>web_child\<close> with a connection, or ended by \<open>err_quit\<close>.\<close>

datatype cproc = Waiting | Busy nat | Ended nat

record prefork =
  cptr :: "child_t list"
  navail :: int
  listenfd :: int
  masterset :: "int list"
  maxfd :: int
  to_child :: "nat list list"
  to_parent :: "nat list"
  procs :: "cproc list"
  accepted :: "nat list"
  served :: "(nat \<times> nat) list"

subsection \<open>The parent\<close>

text \<open>\<open>child_make\<close> in the parent: \<open>fork\<close> gave \<open>pid\<close> and the parent's end of the socket pair is \<open>pipefd\<close>.\<close>

definition child_make :: "int \<times> int \<Rightarrow> prefork \<Rightarrow> prefork" where
  "child_make kid s =
     s\<lparr>cptr := cptr s @ [\<lparr>child_pid = fst kid, child_pipefd = snd kid, child_status = 0, child_count = 0\<rparr>],
       masterset := masterset s @ [snd kid], maxfd := max (maxfd s) (snd kid),
       to_child := to_child s @ [[]], to_parent := to_parent s @ [0], procs := procs s @ [Waiting]\<rparr>"

definition pf_start :: "int \<Rightarrow> (int \<times> int) list \<Rightarrow> prefork" where
  "pf_start lfd kids =
     fold child_make kids
       \<lparr>cptr = [], navail = int (length kids), listenfd = lfd, masterset = [lfd], maxfd = lfd,
        to_child = [], to_parent = [], procs = [], accepted = [], served = []\<rparr>"

text \<open>
  What \<open>select\<close> reports (the ready descriptors and their number) and the connection \<open>accept\<close> returns;
  connections are numbered by the kernel.
\<close>

record pfready =
  pr_set :: "int list"
  pr_nsel :: int
  pr_accept :: "nat option"

definition pf_rset :: "prefork \<Rightarrow> int list" where
  "pf_rset s = (if navail s \<le> 0 then removeAll (listenfd s) (masterset s) else masterset s)"

definition pf_accept :: "pfready \<Rightarrow> prefork \<Rightarrow> prefork outcome" where
  "pf_accept k s =
     (case pr_accept k of
        None \<Rightarrow> Inl (Err_sys ''accept error'')
      | Some conn \<Rightarrow>
          (let i = find_slot (\<lambda>c. child_status c = 0) (cptr s) in
           if i = length (cptr s) then Inl (Err_quit ''no available children'')
           else Inr (s\<lparr>cptr := (cptr s)[i := (cptr s ! i)\<lparr>child_status := 1, child_count := child_count (cptr s ! i) + 1\<rparr>],
                       navail := navail s - 1, to_child := (to_child s)[i := to_child s ! i @ [conn]],
                       accepted := accepted s @ [conn]\<rparr>)))"

definition pf_ready :: "pfready \<Rightarrow> prefork \<Rightarrow> nat \<Rightarrow> bool outcome" where
  "pf_ready k s i = Inr (child_pipefd (cptr s ! i) \<in> set (pr_set k))"

text \<open>\<open>Read\<close> of one byte from a ready pipe: 0 when the child has ended and nothing is left.\<close>

definition pf_read :: "prefork \<Rightarrow> nat \<Rightarrow> prefork outcome" where
  "pf_read s i =
     (if to_parent s ! i = 0 then Inl (Err_quit (''child '' @ print_int (int i) @ '' terminated unexpectedly''))
      else Inr (s\<lparr>cptr := (cptr s)[i := (cptr s ! i)\<lparr>child_status := 0\<rparr>], navail := navail s + 1,
                  to_parent := (to_parent s)[i := to_parent s ! i - 1]\<rparr>))"

definition pf_pass :: "pfready \<Rightarrow> int \<Rightarrow> prefork \<Rightarrow> prefork outcome" where
  "pf_pass k nsel s = scan (pf_ready k) pf_read (\<lambda>n. n = 0) [0..<length (cptr s)] nsel s"

definition pf_round :: "pfready \<Rightarrow> prefork \<Rightarrow> prefork outcome" where
  "pf_round k s =
     (if pr_nsel k < 0 then Inl (Err_sys ''select error'')
      else if listenfd s \<in> set (pr_set k)
      then (case pf_accept k s of
              Inl e \<Rightarrow> Inl e
            | Inr s \<Rightarrow> if pr_nsel k - 1 = 0 then Inr s else pf_pass k (pr_nsel k - 1) s)
      else pf_pass k (pr_nsel k) s)"

subsection \<open>The children\<close>

text \<open>
  \<open>child_main\<close>: \<open>Read_fd\<close> takes the next descriptor, \<open>web_child\<close> serves it, and one byte goes to the parent;
  an \<open>err_quit\<close> in \<open>web_child\<close> ends the child.
\<close>

definition child_take :: "nat \<Rightarrow> prefork \<Rightarrow> prefork" where
  "child_take i s =
     s\<lparr>procs := (procs s)[i := Busy (hd (to_child s ! i))], to_child := (to_child s)[i := tl (to_child s ! i)]\<rparr>"

definition child_serve :: "nat \<Rightarrow> nat \<Rightarrow> string list \<Rightarrow> prefork \<Rightarrow> prefork" where
  "child_serve i conn lines s =
     (case web_child lines of
        Inl e \<Rightarrow> s\<lparr>procs := (procs s)[i := Ended conn]\<rparr>
      | Inr ns \<Rightarrow> s\<lparr>procs := (procs s)[i := Waiting], to_parent := (to_parent s)[i := Suc (to_parent s ! i)],
                   served := served s @ [(i, conn)]\<rparr>)"

text \<open>
  The kernel: what \<open>select\<close> reports was asked for and can be read without waiting, and a connection is
  accepted once.
\<close>

definition kernel_ok :: "pfready \<Rightarrow> prefork \<Rightarrow> bool" where
  "kernel_ok k s =
     (distinct (pr_set k) \<and> pr_nsel k = int (length (pr_set k)) \<and> pr_set k \<noteq> [] \<and> set (pr_set k) \<subseteq> set (pf_rset s) \<and>
      (\<forall>i < length (cptr s). child_pipefd (cptr s ! i) \<in> set (pr_set k) \<longrightarrow> 0 < to_parent s ! i \<or> procs s ! i \<in> range Ended) \<and>
      (case pr_accept k of None \<Rightarrow> False | Some conn \<Rightarrow> conn \<notin> set (accepted s)))"

inductive pf_reach :: "int \<Rightarrow> (int \<times> int) list \<Rightarrow> prefork \<Rightarrow> bool" for lfd kids where
  start: "pf_reach lfd kids (pf_start lfd kids)"
| parent: "pf_reach lfd kids s \<Longrightarrow> kernel_ok k s \<Longrightarrow> pf_round k s = Inr s' \<Longrightarrow> pf_reach lfd kids s'"
| pick_up: "pf_reach lfd kids s \<Longrightarrow> i < length (cptr s) \<Longrightarrow> procs s ! i = Waiting \<Longrightarrow> to_child s ! i \<noteq> [] \<Longrightarrow>
    pf_reach lfd kids (child_take i s)"
| serve: "pf_reach lfd kids s \<Longrightarrow> i < length (cptr s) \<Longrightarrow> procs s ! i = Busy conn \<Longrightarrow>
    pf_reach lfd kids (child_serve i conn lines s)"

subsection \<open>The invariant\<close>

fun doing :: "cproc \<Rightarrow> nat list" where
  "doing Waiting = []"
| "doing (Busy conn) = [conn]"
| "doing (Ended conn) = [conn]"

text \<open>The connections child \<open>i\<close> was given and has not served.\<close>

definition in_hand :: "prefork \<Rightarrow> nat \<Rightarrow> nat list" where
  "in_hand s i = to_child s ! i @ doing (procs s ! i)"

definition child_inv :: "prefork \<Rightarrow> nat \<Rightarrow> bool" where
  "child_inv s i =
     (child_status (cptr s ! i) = int (length (in_hand s i) + to_parent s ! i) \<and> length (in_hand s i) + to_parent s ! i \<le> 1 \<and>
      child_count (cptr s ! i) = int (length (filter (\<lambda>(j, _). j = i) (served s)) + length (in_hand s i)))"

definition conn_inv :: "prefork \<Rightarrow> bool" where
  "conn_inv s =
     (distinct (accepted s) \<and>
      mset (accepted s) = mset (map snd (served s)) + mset (concat (to_child s)) + mset (concat (map doing (procs s))))"

definition table_inv :: "prefork \<Rightarrow> bool" where
  "table_inv s =
     (length (to_child s) = length (cptr s) \<and> length (to_parent s) = length (cptr s) \<and> length (procs s) = length (cptr s) \<and>
      navail s = int (length (filter (\<lambda>c. child_status c = 0) (cptr s))) \<and>
      masterset s = listenfd s # map child_pipefd (cptr s) \<and> distinct (listenfd s # map child_pipefd (cptr s)) \<and>
      (\<forall>fd \<in> set (listenfd s # map child_pipefd (cptr s)). fd \<le> maxfd s))"

definition pf_inv :: "prefork \<Rightarrow> bool" where
  "pf_inv s = (table_inv s \<and> (\<forall>i < length (cptr s). child_inv s i) \<and> conn_inv s)"

lemma pf_invD:
  assumes "pf_inv s"
  shows "table_inv s" "i < length (cptr s) \<Longrightarrow> child_inv s i" "conn_inv s"
    "length (to_child s) = length (cptr s)" "length (to_parent s) = length (cptr s)" "length (procs s) = length (cptr s)"
  using assms by (simp_all add: pf_inv_def table_inv_def)

lemma child_inv_cong:
  assumes "child_inv s j" and "cptr t ! j = cptr s ! j" and "to_child t ! j = to_child s ! j" and "procs t ! j = procs s ! j"
    and "to_parent t ! j = to_parent s ! j" and "filter (\<lambda>(i, _). i = j) (served t) = filter (\<lambda>(i, _). i = j) (served s)"
  shows "child_inv t j"
  using assms by (simp add: child_inv_def in_hand_def)

text \<open>A step of child \<open>i\<close> or with child \<open>i\<close> keeps the invariant if it does so for \<open>i\<close> and the tables.\<close>

lemma pf_invI:
  assumes "pf_inv s" and "table_inv t" and "length (cptr t) = length (cptr s)" and "child_inv t i" and "conn_inv t"
    and "\<And>j. j \<noteq> i \<Longrightarrow> cptr t ! j = cptr s ! j \<and> to_child t ! j = to_child s ! j \<and> procs t ! j = procs s ! j \<and>
      to_parent t ! j = to_parent s ! j \<and> filter (\<lambda>(k, _). k = j) (served t) = filter (\<lambda>(k, _). k = j) (served s)"
  shows "pf_inv t"
proof -
  have "child_inv t j" if "j < length (cptr s)" for j
    using assms(1,4) assms(6) [of j] child_inv_cong [of s j t] that by (cases "j = i") (simp_all add: pf_inv_def)
  with assms show ?thesis by (simp add: pf_inv_def)
qed

lemma mset_concat_update:
  assumes "i < length xs"
  shows "mset (concat (xs[i := v])) + mset (xs ! i) = mset (concat xs) + mset v"
proof -
  have "mset (concat xs) = mset (concat (take i xs)) + mset (xs ! i) + mset (concat (drop (Suc i) xs))"
    by (subst id_take_nth_drop [OF assms]) simp
  moreover have "mset (concat (xs[i := v])) = mset (concat (take i xs)) + mset v + mset (concat (drop (Suc i) xs))"
    by (subst upd_conv_take_nth_drop [OF assms]) simp
  ultimately show ?thesis by simp
qed

lemma masterset_update:
  "i < length cs \<Longrightarrow> child_pipefd c = child_pipefd (cs ! i) \<Longrightarrow> map child_pipefd (cs[i := c]) = map child_pipefd cs"
  by (simp add: map_update list_update_same_conv)

lemma fold_child_make:
  "fold child_make kids s =
     s\<lparr>cptr := cptr s @ map (\<lambda>k. \<lparr>child_pid = fst k, child_pipefd = snd k, child_status = 0, child_count = 0\<rparr>) kids,
       masterset := masterset s @ map snd kids, maxfd := fold (\<lambda>k m. max m (snd k)) kids (maxfd s),
       to_child := to_child s @ map (\<lambda>_. []) kids, to_parent := to_parent s @ map (\<lambda>_. 0) kids,
       procs := procs s @ map (\<lambda>_. Waiting) kids\<rparr>"
  by (induction kids arbitrary: s) (simp_all add: child_make_def)

lemma fold_max_ge: "(m :: int) \<le> fold (\<lambda>k m. max m (snd k)) kids m" "k \<in> set kids \<Longrightarrow> snd k \<le> fold (\<lambda>k m. max m (snd k)) kids (m :: int)"
proof -
  show le: "m \<le> fold (\<lambda>k m. max m (snd k)) kids m" for m :: int and kids :: "('a \<times> int) list"
  proof (induction kids arbitrary: m)
    case (Cons k kids)
    show ?case using Cons [of "max m (snd k)"] by simp
  qed simp
  show "snd k \<le> fold (\<lambda>k m. max m (snd k)) kids m" if "k \<in> set kids"
    using that
  proof (induction kids arbitrary: m)
    case (Cons k' kids)
    then show ?case using le [of "max m (snd k')" kids] by auto
  qed simp
qed

lemma pf_start_inv:
  assumes "distinct (lfd # map snd kids)"
  shows "pf_inv (pf_start lfd kids)"
proof -
  have "filter (\<lambda>c. child_status c = 0)
      (map (\<lambda>k. \<lparr>child_pid = fst k, child_pipefd = snd k, child_status = 0, child_count = 0\<rparr>) kids) =
      map (\<lambda>k. \<lparr>child_pid = fst k, child_pipefd = snd k, child_status = 0, child_count = 0\<rparr>) kids"
    by (simp add: filter_id_conv)
  then have "table_inv (pf_start lfd kids)"
    using assms fold_max_ge by (auto simp: table_inv_def pf_start_def fold_child_make comp_def)
  moreover have "conn_inv (pf_start lfd kids)"
    by (simp add: conn_inv_def pf_start_def fold_child_make comp_def)
  ultimately show ?thesis
    by (simp add: pf_inv_def child_inv_def in_hand_def pf_start_def fold_child_make)
qed

lemma child_idle:
  assumes "child_inv s i" and "child_status (cptr s ! i) = 0"
  shows "to_child s ! i = []" and "procs s ! i = Waiting" and "to_parent s ! i = 0"
proof -
  have "length (in_hand s i) = 0" and u: "to_parent s ! i = 0" using assms unfolding child_inv_def by linarith+
  then have "to_child s ! i = []" "doing (procs s ! i) = []" by (simp_all add: in_hand_def)
  then show "to_child s ! i = []" "procs s ! i = Waiting" "to_parent s ! i = 0" using u by (cases "procs s ! i"; simp)+
qed

lemma accept_inv:
  assumes "pf_inv s" and "pf_accept k s = Inr s'" and "case pr_accept k of None \<Rightarrow> False | Some conn \<Rightarrow> conn \<notin> set (accepted s)"
  shows "pf_inv s'"
proof -
  let ?i = "find_slot (\<lambda>c. child_status c = 0) (cptr s)"
  obtain conn where k: "pr_accept k = Some conn" "conn \<notin> set (accepted s)" using assms(3) by (auto split: option.splits)
  have lt: "?i < length (cptr s)" and
    s': "s' = s\<lparr>cptr := (cptr s)[?i := (cptr s ! ?i)\<lparr>child_status := 1, child_count := child_count (cptr s ! ?i) + 1\<rparr>],
             navail := navail s - 1, to_child := (to_child s)[?i := to_child s ! ?i @ [conn]], accepted := accepted s @ [conn]\<rparr>"
    using assms(2) find_slot_le [of "\<lambda>c. child_status c = 0" "cptr s"] by (auto simp: pf_accept_def k Let_def split: if_splits)
  have free: "child_status (cptr s ! ?i) = 0" using find_slot_free [OF lt] .
  have c: "child_inv s ?i" using pf_invD(2) [OF assms(1) lt] .
  have i: "?i < length (to_child s)" using lt pf_invD(4) [OF assms(1)] by simp
  note z = child_idle [OF c free]
  show ?thesis
  proof (rule pf_invI [OF assms(1)])
    show "child_inv s' ?i" using c i lt z free by (simp add: child_inv_def in_hand_def s')
    show "table_inv s'"
      using filter_update_count [OF lt, of "\<lambda>c. child_status c = 0"
          "(cptr s ! ?i)\<lparr>child_status := 1, child_count := child_count (cptr s ! ?i) + 1\<rparr>"] pf_invD(1) [OF assms(1)] free lt
      by (simp add: table_inv_def s' masterset_update)
    show "conn_inv s'"
      using mset_concat_update [OF i, of "[conn]"] k(2) z pf_invD(3) [OF assms(1)] by (simp add: conn_inv_def s')
  qed (simp_all add: s')
qed

lemma read_inv:
  assumes "pf_inv s" and "i < length (cptr s)" and "pf_read s i = Inr s'"
  shows "pf_inv s'"
proof -
  have c: "child_inv s i" by (rule pf_invD(2) [OF assms(1,2)])
  have i: "i < length (to_parent s)" using assms(2) pf_invD(5) [OF assms(1)] by simp
  have "to_parent s ! i \<noteq> 0" using assms(3) by (simp add: pf_read_def split: if_splits)
  with c have l: "length (in_hand s i) = 0" and up: "to_parent s ! i = 1" "child_status (cptr s ! i) = 1"
    unfolding child_inv_def by linarith+
  from l have p: "in_hand s i = []" by simp
  have s': "s' = s\<lparr>cptr := (cptr s)[i := (cptr s ! i)\<lparr>child_status := 0\<rparr>], navail := navail s + 1, to_parent := (to_parent s)[i := 0]\<rparr>"
    using assms(3) up by (simp add: pf_read_def)
  show ?thesis
  proof (rule pf_invI [OF assms(1)])
    show "child_inv s' i" using c i p assms(2) by (simp add: child_inv_def in_hand_def s')
    show "table_inv s'"
      using filter_update_count [OF assms(2), of "\<lambda>c. child_status c = 0" "(cptr s ! i)\<lparr>child_status := 0\<rparr>"]
        pf_invD(1) [OF assms(1)] up assms(2) by (simp add: table_inv_def s' masterset_update)
    show "conn_inv s'" using pf_invD(3) [OF assms(1)] by (simp add: conn_inv_def s')
  qed (simp_all add: s')
qed

lemma take_inv:
  assumes "pf_inv s" and "i < length (cptr s)" and "procs s ! i = Waiting" and "to_child s ! i \<noteq> []"
  shows "pf_inv (child_take i s)"
proof -
  have c: "child_inv s i" by (rule pf_invD(2) [OF assms(1,2)])
  have len: "i < length (to_child s)" "i < length (procs s)" using assms(2) pf_invD(4,6) [OF assms(1)] by simp_all
  obtain conn where tc: "to_child s ! i = [conn]"
    using c assms(4) by (cases "to_child s ! i") (auto simp: child_inv_def in_hand_def)
  have t: "child_take i s = s\<lparr>procs := (procs s)[i := Busy conn], to_child := (to_child s)[i := []]\<rparr>"
    by (simp add: child_take_def tc)
  show ?thesis unfolding t
  proof (rule pf_invI [OF assms(1)])
    show "child_inv (s\<lparr>procs := (procs s)[i := Busy conn], to_child := (to_child s)[i := []]\<rparr>) i"
      using c len assms(3) tc by (simp add: child_inv_def in_hand_def)
    show "conn_inv (s\<lparr>procs := (procs s)[i := Busy conn], to_child := (to_child s)[i := []]\<rparr>)"
      using mset_concat_update [OF len(1), of "[]"] mset_concat_update [of i "map doing (procs s)" "[conn]"] len tc assms(3)
        pf_invD(3) [OF assms(1)] by (simp add: conn_inv_def map_update)
    show "table_inv (s\<lparr>procs := (procs s)[i := Busy conn], to_child := (to_child s)[i := []]\<rparr>)"
      using pf_invD(1) [OF assms(1)] by (simp add: table_inv_def)
  qed simp_all
qed

lemma serve_inv:
  assumes "pf_inv s" and "i < length (cptr s)" and "procs s ! i = Busy conn"
  shows "pf_inv (child_serve i conn lines s)"
proof -
  have c: "child_inv s i" by (rule pf_invD(2) [OF assms(1,2)])
  have len: "i < length (procs s)" "i < length (to_parent s)" using assms(2) pf_invD(5,6) [OF assms(1)] by simp_all
  have z: "to_child s ! i = []" "to_parent s ! i = 0" using c assms(3) by (simp_all add: child_inv_def in_hand_def)
  show ?thesis
  proof (rule pf_invI [OF assms(1)])
    show "child_inv (child_serve i conn lines s) i"
      using c len z assms(3) by (simp add: child_inv_def in_hand_def child_serve_def split: sum.split)
    show "conn_inv (child_serve i conn lines s)"
      using mset_concat_update [of i "map doing (procs s)" "[]"] mset_concat_update [of i "map doing (procs s)" "[conn]"] len assms(3)
        pf_invD(3) [OF assms(1)] by (simp add: conn_inv_def child_serve_def map_update split: sum.split)
    show "table_inv (child_serve i conn lines s)"
      using pf_invD(1) [OF assms(1)] by (simp add: table_inv_def child_serve_def split: sum.split)
  qed (simp_all add: child_serve_def split: sum.split)
qed

subsection \<open>The parent's pass\<close>

interpretation pf: ready_loop "pf_ready k" pf_read for k
  by unfold_locales (auto simp: pf_ready_def pf_read_def nth_list_update split: if_splits)

lemma pf_pass_inv:
  assumes "pf_inv s" and "pf_pass k nsel s = Inr s'"
  shows "pf_inv s'"
proof -
  have "pf_inv s' \<and> length (cptr s') = length (cptr s)"
    using assms(2) unfolding pf_pass_def
    by (rule scan_inv) (use assms(1) read_inv in \<open>auto simp: pf_read_def split: if_splits\<close>)
  then show ?thesis ..
qed

lemma pf_pass_error:
  assumes "pf_pass k nsel s = Inl e" 
    and "\<forall>i < length (cptr s). child_pipefd (cptr s ! i) \<in> set (pr_set k) \<longrightarrow> 0 < to_parent s ! i \<or> procs s ! i \<in> range Ended"
  shows "\<exists>i < length (cptr s). procs s ! i \<in> range Ended \<and> e = Err_quit (''child '' @ print_int (int i) @ '' terminated unexpectedly'')"
proof -
  have "\<exists>t i. i \<in> set [0..<length (cptr s)] \<and> (0 < to_parent t ! i \<or> procs s ! i \<in> range Ended) \<and> pf_read t i = Inl e"
    using assms(1) unfolding pf_pass_def
    by (rule pf.scan_error [where Q = "\<lambda>t i. 0 < to_parent t ! i \<or> procs s ! i \<in> range Ended"])
       (use assms(2) in \<open>auto simp: pf_ready_def pf_read_def split: if_splits\<close>)
  then show ?thesis by (auto simp: pf_read_def split: if_splits)
qed

lemma listen_free:
  assumes "pf_inv s" and "listenfd s \<in> set (pf_rset s)"
  shows "find_slot (\<lambda>c. child_status c = 0) (cptr s) < length (cptr s)"
proof -
  have "navail s > 0" using assms(2) by (auto simp: pf_rset_def split: if_splits)
  then have "filter (\<lambda>c. child_status c = 0) (cptr s) \<noteq> []" using pf_invD(1) [OF assms(1)] by (auto simp: table_inv_def)
  then have "find_slot (\<lambda>c. child_status c = 0) (cptr s) \<noteq> length (cptr s)" unfolding find_slot_none by (auto simp: filter_empty_conv)
  then show ?thesis using find_slot_le [of "\<lambda>c. child_status c = 0" "cptr s"] by simp
qed

lemma pf_round_inv:
  assumes "pf_inv s" and "kernel_ok k s" and "pf_round k s = Inr s'"
  shows "pf_inv s'"
proof -
  have k: "case pr_accept k of None \<Rightarrow> False | Some conn \<Rightarrow> conn \<notin> set (accepted s)" and "\<not> pr_nsel k < 0"
    using assms(2) by (simp_all add: kernel_ok_def)
  with assms(3) consider "pf_pass k (pr_nsel k) s = Inr s'" | "pf_accept k s = Inr s'"
    | t where "pf_accept k s = Inr t" "pf_pass k (pr_nsel k - 1) t = Inr s'"
    by (auto simp: pf_round_def split: if_splits sum.splits)
  then show ?thesis using accept_inv [OF assms(1) _ k] pf_pass_inv assms(1) by cases blast+
qed

lemma pf_round_error:
  assumes "pf_inv s" and "kernel_ok k s" and "pf_round k s = Inl e"
  shows "\<exists>i < length (cptr s). procs s ! i \<in> range Ended \<and> e = Err_quit (''child '' @ print_int (int i) @ '' terminated unexpectedly'')"
proof (cases "listenfd s \<in> set (pr_set k)")
  case False
  with assms(2,3) show ?thesis by (intro pf_pass_error) (auto simp: pf_round_def kernel_ok_def)
next
  case True
  with assms(2) have lt: "find_slot (\<lambda>c. child_status c = 0) (cptr s) < length (cptr s)"
    by (intro listen_free [OF assms(1)]) (auto simp: kernel_ok_def)
  obtain conn where k: "pr_accept k = Some conn" using assms(2) by (auto simp: kernel_ok_def split: option.splits)
  let ?i = "find_slot (\<lambda>c. child_status c = 0) (cptr s)"
  obtain t where t: "pf_accept k s = Inr t" "to_parent t = to_parent s" "procs t = procs s" "length (cptr t) = length (cptr s)"
      "\<And>j. child_pipefd (cptr t ! j) = child_pipefd (cptr s ! j)"
    using lt k by (auto simp: pf_accept_def nth_list_update Let_def)
  have "pf_pass k (pr_nsel k - 1) t = Inl e"
    using assms(2,3) True t(1) by (simp add: pf_round_def kernel_ok_def split: if_splits)
  from pf_pass_error [OF this] show ?thesis using assms(2) t(2-5) by (simp add: kernel_ok_def)
qed

lemma pf_reach_inv: "pf_reach lfd kids s \<Longrightarrow> distinct (lfd # map snd kids) \<Longrightarrow> pf_inv s"
proof (induction rule: pf_reach.induct)
  case start
  then show ?case by (rule pf_start_inv)
next
  case (parent s k s')
  then show ?case using pf_round_inv by blast
next
  case (pick_up s i)
  then show ?case using take_inv by blast
next
  case (serve s i conn lines)
  then show ?case using serve_inv by blast
qed

lemma mset_concat_zip:
  "length a = length b \<Longrightarrow> mset (concat (map (\<lambda>i. a ! i @ b ! i) [0..<length a])) = mset (concat a) + mset (concat b)"
  by (induction a b rule: list_induct2) (simp_all add: map_upt_Suc del: upt_Suc)

lemma accepted_in_hand:
  assumes "pf_inv s"
  shows "mset (accepted s) = mset (map snd (served s)) + mset (concat (map (in_hand s) [0..<length (cptr s)]))"
proof -
  have "concat (map (in_hand s) [0..<length (cptr s)]) = concat (map (\<lambda>i. to_child s ! i @ map doing (procs s) ! i) [0..<length (to_child s)])"
    using pf_invD(4,6) [OF assms] by (intro arg_cong [where f = concat]) (simp add: in_hand_def)
  then have "mset (concat (map (in_hand s) [0..<length (cptr s)])) = mset (concat (to_child s)) + mset (concat (map doing (procs s)))"
    using mset_concat_zip [of "to_child s" "map doing (procs s)"] pf_invD(4,6) [OF assms] by (simp only: length_map)
  then show ?thesis using pf_invD(3) [OF assms] by (simp add: conn_inv_def)
qed

subsection \<open>Properties\<close>

text \<open>
  The bytes a child writes for a request are within the array, whatever the line; but the request is cut to
  32 bits first.
\<close>

lemma web_child_bounds: "web_child lines = Inr ns \<Longrightarrow> length ns = length lines \<and> (\<forall>n \<in> set ns. 0 < n \<and> n \<le> MAXN)"
  by (induction lines arbitrary: ns) (auto simp: Let_def split: if_splits sum.splits)

lemma web_child_wraps: "web_child [''4294967297''] = Inr [1]"
  by (simp add: atol_def scan_long_def int_of_long_def isspace_def isdigit_def digit_val_def num_of_def MAXN_def Let_def signed_take_bit_eq_if_positive take_bit_eq_mod)

text \<open>A child that ended in the middle of a request takes the whole server with it.\<close>

lemma ended_child_ends_server:
  assumes "pf_inv s" and "i < length (cptr s)" and "procs s ! i \<in> range Ended"
    and "pr_set k = [child_pipefd (cptr s ! i)]" and "pr_nsel k = 1"
  shows "pf_round k s = Inl (Err_quit (''child '' @ print_int (int i) @ '' terminated unexpectedly''))"
proof -
  have z: "to_parent s ! i = 0" using pf_invD(2) [OF assms(1,2)] assms(3) by (auto simp: child_inv_def in_hand_def)
  have d: "distinct (listenfd s # map child_pipefd (cptr s))" using pf_invD(1) [OF assms(1)] by (simp add: table_inv_def)
  then have l: "listenfd s \<noteq> child_pipefd (cptr s ! i)" using assms(2) by auto
  have r: "\<forall>j \<in> set [0..<length (cptr s)]. pf_ready k s j = Inr (j = i)"
    using nth_eq_iff_index_eq [of "map child_pipefd (cptr s)" _ i] d assms(2,4) by (auto simp: pf_ready_def)
  have "filter (\<lambda>j. j = i) [0..<n] = (if i < n then [i] else [])" for n by (induction n) auto
  then have f: "filter (\<lambda>j. j = i) [0..<length (cptr s)] = [i]" using assms(2) by simp
  have "pf_pass k 1 s = serve_each pf_read [i] s"
    using pf.scan_exact [OF distinct_upt r, of 1 "\<lambda>n. n = 0" "[]"] f by (simp add: pf_pass_def)
  then show ?thesis using assms(4,5) l z by (simp add: pf_round_def pf_read_def)
qed


end
