(* ===== verification/Queens.thy ===== *)
theory Queens
  imports Ready_Loop
begin

text \<open>
  The client of the queens puzzle, \<open>np-lab7/solve.cpp\<close>: it reads the board the server sends, completes it to 30 queens
  by backtracking, and marks the solution. \<open>init_board\<close> holds for each column the row of its queen, counted from 1, or
  0; all its values fit a \<open>uint8_t\<close> while the board has less than 128 columns (\<open>idx\<close> is an \<open>int8_t\<close>).
\<close>

definition BOARD_SIZE :: nat where "BOARD_SIZE = 30"

subsection \<open>solve\<close>

text \<open>The entries of \<open>queen_mapping\<close>; it is only searched and iterated for a conflict, so its order does not matter.\<close>

definition queen_mapping :: "nat list \<Rightarrow> (nat \<times> nat) list" where
  "queen_mapping b = filter (\<lambda>(c, q). q \<noteq> 0) (zip [0..<length b] b)"

text \<open>The squares pushed onto \<open>target\<close>, row by row.\<close>

definition target_of :: "nat list \<Rightarrow> (nat \<times> nat) list" where
  "target_of b = concat (map (\<lambda>x. map (Pair x) (filter (\<lambda>y. b ! y = x + 1) [0..<length b])) [0..<length b])"

text \<open>\<open>oen\<close> and \<open>tow\<close> are \<open>uint8_t\<close>.\<close>

definition conflict :: "nat list \<Rightarrow> nat \<Rightarrow> nat \<Rightarrow> bool" where
  "conflict b sz num =
     (\<exists>(c, q) \<in> set (queen_mapping b).
        num = q \<or> nat \<bar>int c - int sz\<bar> mod 256 = nat \<bar>int q - int num\<bar> mod 256)"

text \<open>The first column without a queen.\<close>

definition first_free :: "nat list \<Rightarrow> nat" where
  "first_free b = find_slot (\<lambda>q. q = 0) b"

lemma count_update:
  assumes "sz < length b" and "b ! sz = 0"
  shows "length (filter (\<lambda>q. q = 0) (b[sz := Suc k])) < length (filter (\<lambda>q. q = (0::nat)) b)"
proof -
  have "filter (\<lambda>q. q = 0) b = filter (\<lambda>q. q = 0) (take sz b) @ 0 # filter (\<lambda>q. q = 0) (drop (Suc sz) b)"
    by (subst id_take_nth_drop [OF assms(1)]) (simp add: assms)
  moreover have "filter (\<lambda>q. q = 0) (b[sz := Suc k]) = filter (\<lambda>q. q = 0) (take sz b) @ filter (\<lambda>q. q = 0) (drop (Suc sz) b)"
    by (subst upd_conv_take_nth_drop [OF assms(1)]) simp
  ultimately show ?thesis by simp
qed

text \<open>
  The function and its loop over the rows of the first free column; \<open>None\<close> is \<open>false\<close>, and with \<open>true\<close>
  comes the value of \<open>target\<close>. The call \<open>solve(init_board, sz, num)\<close> starts with \<open>init_board.at(sz) = num\<close>.
\<close>

function (sequential) solve :: "nat list \<Rightarrow> (nat \<times> nat) list option"
  and try_rows :: "nat list \<Rightarrow> nat \<Rightarrow> nat \<Rightarrow> (nat \<times> nat) list option" where
  "solve b = (if 0 \<notin> set b then Some (target_of b) else try_rows b (first_free b) 0)"
| "try_rows b sz k =
     (if sz < length b \<and> b ! sz = 0 \<and> k < length b
      then (let num = Suc k in
            if conflict b sz num then try_rows b sz (Suc k)
            else (case solve (b[sz := num]) of Some t \<Rightarrow> Some t | None \<Rightarrow> try_rows b sz (Suc k)))
      else None)"
  by pat_completeness auto

termination
  by (relation "inv_image (less_than <*lex*> less_than <*lex*> less_than)
        (\<lambda>x. case x of Inl b \<Rightarrow> (length (filter (\<lambda>q. q = 0) b), 1, 0)
                     | Inr (b, sz, k) \<Rightarrow> (length (filter (\<lambda>q. q = 0) b), 0, length b - k))")
     (auto simp: count_update)

declare solve.simps [simp del] try_rows.simps [simp del]

subsection \<open>main\<close>

text \<open>
  The board is in the answer from its fifth byte on. (Squares that are neither \<open>Q\<close> nor \<open>.\<close> keep the 0 of the global
  array; bytes that did not come are 0.)
\<close>

definition square :: "string \<Rightarrow> nat \<Rightarrow> nat \<Rightarrow> bool" where
  "square buffer i j = (let index = 4 + i * BOARD_SIZE + j in index < length buffer \<and> buffer ! index = CHR ''Q'')"

definition init_board :: "string \<Rightarrow> nat list" where
  "init_board buffer =
     map (\<lambda>col. case List.find (\<lambda>row. square buffer row col) [0..<BOARD_SIZE] of Some row \<Rightarrow> row + 1 | None \<Rightarrow> 0)
       [0..<BOARD_SIZE]"

text \<open>
  What is sent when no call fails (a failed \<open>send\<close> or \<open>recv\<close> ends the program): the request for the board, the marks, the
  check. The array has room for 1023 bytes and a NUL; \<open>recv\<close> may fill all of it.
\<close>

definition session :: "string \<Rightarrow> string list outcome" where
  "session answer =
     (if 1024 \<le> length answer then Inl (Undefined Buffer_overflow)
      else Inr (''s'' #
        (case solve (init_board answer) of
           None \<Rightarrow> []
         | Some target \<Rightarrow> map (\<lambda>(x, y). ''M '' @ print_dec x @ '' '' @ print_dec y) target) @ [''c'']))"

subsection \<open>What a solution is\<close>

definition attack :: "nat list \<Rightarrow> nat \<Rightarrow> nat \<Rightarrow> bool" where
  "attack b i j = (b ! i = b ! j \<or> \<bar>int i - int j\<bar> = \<bar>int (b ! i) - int (b ! j)\<bar>)"

text \<open>
  \<open>b'\<close> completes \<open>b\<close>: it keeps the queens of \<open>b\<close> and puts one queen into each other column, such that no new
  queen attacks any queen.
\<close>

definition completes :: "nat list \<Rightarrow> nat list \<Rightarrow> bool" where
  "completes b b' =
     (length b' = length b \<and>
      (\<forall>i < length b. if b ! i \<noteq> 0 then b' ! i = b ! i else 1 \<le> b' ! i \<and> b' ! i \<le> length b) \<and>
      (\<forall>i < length b. \<forall>j < length b. b ! i = 0 \<longrightarrow> i \<noteq> j \<longrightarrow> \<not> attack b' i j))"

lemma attack_sym: "attack b i j = attack b j i"
  by (auto simp: attack_def abs_minus_commute)

lemma in_queen_mapping: "(c, q) \<in> set (queen_mapping b) \<longleftrightarrow> c < length b \<and> b ! c = q \<and> q \<noteq> 0"
  by (auto simp: queen_mapping_def set_zip intro!: exI [of _ c])

lemma conflict_attack:
  assumes "\<forall>q \<in> set b. q \<le> length b" and "length b < 128" and "sz < length b" and "num \<le> length b"
    and "b ! sz = 0" and "b' ! sz = num" and "\<forall>i < length b. b ! i \<noteq> 0 \<longrightarrow> b' ! i = b ! i"
  shows "conflict b sz num \<longleftrightarrow> (\<exists>c < length b. b ! c \<noteq> 0 \<and> attack b' sz c)"
proof -
  have "conflict b sz num \<longleftrightarrow>
      (\<exists>c < length b. b ! c \<noteq> 0 \<and> (num = b ! c \<or> nat \<bar>int c - int sz\<bar> mod 256 = nat \<bar>int (b ! c) - int num\<bar> mod 256))"
  proof -
    have "(\<exists>p \<in> set (queen_mapping b). P (fst p) (snd p)) \<longleftrightarrow> (\<exists>c < length b. b ! c \<noteq> 0 \<and> P c (b ! c))" for P
      by (metis in_queen_mapping fst_conv snd_conv prod.collapse)
    from this [of "\<lambda>c q. num = q \<or> nat \<bar>int c - int sz\<bar> mod 256 = nat \<bar>int q - int num\<bar> mod 256"] show ?thesis
      by (simp add: conflict_def split_beta)
  qed
  moreover have "nat \<bar>int c - int sz\<bar> mod 256 = nat \<bar>int (b ! c) - int num\<bar> mod 256 \<longleftrightarrow> \<bar>int sz - int c\<bar> = \<bar>int num - int (b ! c)\<bar>"
    if "c < length b" for c
  proof -
    have "b ! c \<le> length b" using assms(1) that by simp
    then have "nat \<bar>int c - int sz\<bar> < 256" "nat \<bar>int (b ! c) - int num\<bar> < 256" using that assms(2-4) by linarith+
    then show ?thesis by (simp add: abs_minus_commute) linarith
  qed
  moreover have "attack b' sz c \<longleftrightarrow> num = b ! c \<or> \<bar>int sz - int c\<bar> = \<bar>int num - int (b ! c)\<bar>" if "c < length b" "b ! c \<noteq> 0" for c
    using assms(6,7) that by (simp add: attack_def)
  ultimately show ?thesis by blast
qed


definition board_ok :: "nat list \<Rightarrow> bool" where
  "board_ok b = (length b < 128 \<and> (\<forall>q \<in> set b. q \<le> length b))"

lemma board_ok_update: "board_ok b \<Longrightarrow> num \<le> length b \<Longrightarrow> board_ok (b[sz := num])"
  using set_update_subset_insert [of b sz num] by (auto simp: board_ok_def)

lemma completes_update:
  assumes "board_ok b" and "sz < length b" and "b ! sz = 0" and "1 \<le> num" and "num \<le> length b"
  shows "completes b b' \<and> b' ! sz = num \<longleftrightarrow> completes (b[sz := num]) b' \<and> \<not> conflict b sz num"
proof -
  have conf: "conflict b sz num \<longleftrightarrow> (\<exists>c < length b. b ! c \<noteq> 0 \<and> attack b' sz c)"
    if "b' ! sz = num" "\<forall>i < length b. b ! i \<noteq> 0 \<longrightarrow> b' ! i = b ! i"
    using conflict_attack [of b sz num b'] assms that by (simp add: board_ok_def)
  show ?thesis
  proof (intro iffI conjI)
    assume c: "completes b b' \<and> b' ! sz = num"
    then have k: "\<forall>i < length b. b ! i \<noteq> 0 \<longrightarrow> b' ! i = b ! i" by (auto simp: completes_def split: if_splits)
    have "\<not> attack b' sz j" if "j < length b" "b ! j \<noteq> 0" for j
      using c assms(2,3) that unfolding completes_def by metis
    then show "\<not> conflict b sz num" using conf [OF _ k] c by blast
    show "completes (b[sz := num]) b'" using c assms(2-5) by (auto simp: completes_def nth_list_update)
  next
    assume c: "completes (b[sz := num]) b' \<and> \<not> conflict b sz num"
    then have u: "length b' = length b" "\<And>i. i < length b \<Longrightarrow> if b[sz := num] ! i \<noteq> 0 then b' ! i = b[sz := num] ! i else 1 \<le> b' ! i \<and> b' ! i \<le> length b"
      "\<And>i j. i < length b \<Longrightarrow> j < length b \<Longrightarrow> b[sz := num] ! i = 0 \<Longrightarrow> i \<noteq> j \<Longrightarrow> \<not> attack b' i j"
      by (auto simp: completes_def)
    show n: "b' ! sz = num" using u(2) [of sz] assms(2,4) by simp
    have k: "if b ! i \<noteq> 0 then b' ! i = b ! i else 1 \<le> b' ! i \<and> b' ! i \<le> length b" if "i < length b" for i
      using u(2) [OF that] assms that n by (cases "i = sz") (auto split: if_splits)
    have "\<not> attack b' i j" if "i < length b" "j < length b" "b ! i = 0" "i \<noteq> j" for i j
    proof (cases "i = sz")
      case False
      then show ?thesis using u(3) [OF that(1,2) _ that(4)] that(3) by simp
    next
      case True
      show ?thesis
      proof (cases "b ! j = 0")
        case False
        then show ?thesis using conf [OF n] k c that True by (auto split: if_splits)
      next
        case z: True
        then show ?thesis using u(3) [OF that(2,1)] that True by (auto simp: attack_sym)
      qed
    qed
    then show "completes b b'" using u(1) k unfolding completes_def by blast
  qed
qed

lemma first_free_ok: "0 \<in> set b \<Longrightarrow> first_free b < length b \<and> b ! first_free b = 0"
  using find_slot_free [of "\<lambda>q. q = 0" b] find_slot_le [of "\<lambda>q. q = 0" b] find_slot_none [of "\<lambda>q. q = 0" b]
  unfolding first_free_def by (metis le_neq_implies_less)

lemma solve_spec:
  "board_ok b \<Longrightarrow>
     (case solve b of Some t \<Rightarrow> \<exists>b'. completes b b' \<and> t = target_of b' | None \<Rightarrow> \<nexists>b'. completes b b')"
  "board_ok c \<Longrightarrow> sz < length c \<Longrightarrow> c ! sz = 0 \<Longrightarrow>
     (case try_rows c sz k of Some t \<Rightarrow> \<exists>b'. completes c b' \<and> t = target_of b'
      | None \<Rightarrow> \<nexists>b'. completes c b' \<and> k < b' ! sz)"
proof (induction b and c sz k rule: solve_try_rows.induct)
  case (1 b)
  show ?case
  proof (cases "0 \<in> set b")
    case False
    then have "completes b b" by (auto simp: completes_def in_set_conv_nth)
    then show ?thesis using False by (auto simp: solve.simps)
  next
    case True
    then have f: "first_free b < length b" "b ! first_free b = 0" using first_free_ok by blast+
    have "0 < b' ! first_free b" if "completes b b'" for b'
      using that f unfolding completes_def by (metis One_nat_def Suc_le_lessD)
    with 1(1) True f 1(2) show ?thesis by (auto simp: solve.simps split: option.splits)
  qed
next
  case (2 c sz k)
  show ?case
  proof (cases "k < length c")
    case False
    have "\<not> k < b' ! sz" if "completes c b'" for b'
      using that False 2 by (auto simp: completes_def)
    then show ?thesis using False by (auto simp: try_rows.simps)
  next
    case True
    note step = completes_update [OF 2(4-6), of "Suc k"]
    have later: "\<And>b'. completes c b' \<Longrightarrow> k < b' ! sz \<Longrightarrow> b' ! sz \<noteq> Suc k \<Longrightarrow> Suc k < b' ! sz" by simp
    show ?thesis
    proof (cases "conflict c sz (Suc k)")
      case conf: True
      have "try_rows c sz k = try_rows c sz (Suc k)" using True conf 2(5,6) by (subst try_rows.simps) simp
      then show ?thesis using 2(1) [OF _ refl conf] 2(4-6) True step conf later by (auto split: option.splits)
    next
      case conf: False
      have e: "try_rows c sz k = (case solve (c[sz := Suc k]) of Some t \<Rightarrow> Some t | None \<Rightarrow> try_rows c sz (Suc k))"
        using True conf 2(5,6) by (subst try_rows.simps) simp
      show ?thesis
      proof (cases "solve (c[sz := Suc k])")
        case (Some t)
        then show ?thesis using 2(2) [OF _ refl conf] 2(4-6) True step conf e board_ok_update [OF 2(4), of "Suc k"] by auto
      next
        case None
        then show ?thesis using 2(2) [OF _ refl conf] 2(3) [OF _ refl conf] 2(4-6) True step conf e board_ok_update [OF 2(4), of "Suc k"] later
          by (auto split: option.splits)
      qed
    qed
  qed
qed

lemma completes_no_attack:
  assumes "completes b b'" and "\<forall>i < length b. \<forall>j < length b. b ! i \<noteq> 0 \<longrightarrow> b ! j \<noteq> 0 \<longrightarrow> i \<noteq> j \<longrightarrow> \<not> attack b i j"
    and "i < length b" and "j < length b" and "i \<noteq> j"
  shows "\<not> attack b' i j"
proof (cases "b ! i = 0 \<or> b ! j = 0")
  case True
  then show ?thesis using assms(1,3-5) attack_sym [of b' i j] unfolding completes_def by metis
next
  case False
  then have "b' ! i = b ! i" "b' ! j = b ! j" using assms(1,3,4) by (auto simp: completes_def split: if_splits)
  then show ?thesis using assms(2-5) False by (simp add: attack_def)
qed

lemma set_target_of: "set (target_of b) = {(x, y). x < length b \<and> y < length b \<and> b ! y = x + 1}"
  by (auto simp: target_of_def)

lemma distinct_target_of: "distinct (target_of b)"
proof -
  have "distinct (concat (map (\<lambda>x. map (Pair x) (filter (\<lambda>y. b ! y = x + 1) ys)) xs))" if "distinct xs" "distinct ys" for xs ys
    using that by (induction xs) (auto simp: distinct_map inj_on_def)
  then show ?thesis by (simp add: target_of_def)
qed

lemma init_board_ok: "board_ok (init_board buffer)"
  by (auto simp: board_ok_def init_board_def BOARD_SIZE_def find_Some_iff split: option.splits)

text \<open>The client marks a completed board, or only asks for the check.\<close>

lemma session_marks:
  assumes "length answer < 1024"
  shows "(\<exists>b'. completes (init_board answer) b' \<and>
      session answer = Inr (''s'' # map (\<lambda>(x, y). ''M '' @ print_dec x @ '' '' @ print_dec y) (target_of b') @ [''c''])) \<or>
    (\<nexists>b'. completes (init_board answer) b') \<and> session answer = Inr [''s'', ''c'']"
  using solve_spec(1) [OF init_board_ok, of answer] assms by (auto simp: session_def split: option.splits)

text \<open>
  C38. The backtracking search is complete and correct, on every board of less than 128 columns: it ends, it fails only if
  the queens on the board cannot be completed, and otherwise its target is a board that keeps them, has one queen
  in every column, each square listed once, and no queen attacks another if none did at the start.
\<close>

theorem queens_solver:
  assumes "board_ok b"
  shows "case solve b of
      None \<Rightarrow> (\<nexists>b'. completes b b')
    | Some t \<Rightarrow> (\<exists>b'. completes b b' \<and> distinct t \<and> set t = {(b' ! y - 1, y) | y. y < length b} \<and>
        ((\<forall>i < length b. \<forall>j < length b. b ! i \<noteq> 0 \<longrightarrow> b ! j \<noteq> 0 \<longrightarrow> i \<noteq> j \<longrightarrow> \<not> attack b i j) \<longrightarrow>
         (\<forall>i < length b. \<forall>j < length b. i \<noteq> j \<longrightarrow> \<not> attack b' i j)))"
proof (cases "solve b")
  case None
  then show ?thesis using solve_spec(1) [OF assms] by simp
next
  case (Some t)
  with solve_spec(1) [OF assms] obtain b' where b: "completes b b'" "t = target_of b'" by auto
  have r: "length b' = length b" "\<And>y. y < length b \<Longrightarrow> 1 \<le> b' ! y \<and> b' ! y \<le> length b"
    using b(1) assms by (auto simp: completes_def board_ok_def split: if_splits)
  have "set t = {(b' ! y - 1, y) | y. y < length b}"
  proof -
    have "x < length b \<and> y < length b \<and> b' ! y = x + 1 \<longleftrightarrow> y < length b \<and> x = b' ! y - 1" for x y
      using r(2) [of y] by auto
    then show ?thesis unfolding b(2) set_target_of r(1) by auto
  qed
  then show ?thesis using Some b completes_no_attack [OF b(1)] distinct_target_of [of b'] by auto
qed

theorem queens_solver_witness: "\<exists>t. solve [2, 0, 0, 0] = Some t \<and> distinct t \<and> length t = 4"
proof -
  have ok: "board_ok [2, 0, 0, 0]" by (simp add: board_ok_def)
  have "completes [2, 0, 0, 0] [2, 4, 1, 3]"
    by (simp add: completes_def attack_def nth_Cons split: nat.splits)
  with queens_solver [OF ok] obtain t where t: "solve [2, 0, 0, 0] = Some t" by (cases "solve [2, 0, 0, 0]") auto
  from queens_solver [OF ok] obtain b' where d: "distinct t" "set t = {(b' ! y - 1, y) | y. y < length [2, 0, 0, 0 :: nat]}"
    unfolding t option.case by blast
  have "set t = (\<lambda>y. (b' ! y - 1, y)) ` {..<4}" unfolding d(2) by auto
  then have "card (set t) = 4" by (simp add: card_image inj_on_def)
  then show ?thesis using t d(1) distinct_card [OF d(1)] by auto
qed

end
