(* ===== verification/Tun_Vpn.thy ===== *)
theory Tun_Vpn
  imports Conn_Setup Text_Numbers
begin

text \<open>
  The tunnel of \<open>np-lab8/lab_tun/dist/tunvpn.cpp\<close>: a server with a tun device and two clients. The clients take the
  address \<open>10.0.0.(10 + n)\<close> where \<open>n\<close> is the last number of their Ethernet address; the server forwards by the
  last number of the destination. Packets are what one \<open>read\<close> returns.

  The set-up of the device is in \<open>Tun_Setup\<close>. A C++ exception is an \<open>Abort\<close>: nobody
  catches it.
\<close>

subsection \<open>The last number of an address\<close>

definition substr :: "string \<Rightarrow> nat \<Rightarrow> string outcome" where
  "substr s pos = (if pos > length s then Inl (Abort ''basic_string::substr'') else Inr (drop pos s))"

definition stoi :: "string \<Rightarrow> int outcome" where
  "stoi s = (case scan_long s of
     None \<Rightarrow> Inl (Abort ''stoi: invalid_argument'')
   | Some (i, _) \<Rightarrow> if i < INT_MIN \<or> i > INT_MAX then Inl (Abort ''stoi: out_of_range'') else Inr i)"

text \<open>\<open>s.find_last_of(".") + 1\<close>; without a dot, \<open>npos + 1\<close> is 0.\<close>

definition dot_after :: "string \<Rightarrow> nat" where
  "dot_after s = (case strrchr s CHR ''.'' of Some i \<Rightarrow> Suc i | None \<Rightarrow> 0)"

definition inet_ntoa :: "byte list \<Rightarrow> string" where
  "inet_ntoa a = dotted a"

subsection \<open>The server\<close>

datatype vport = Tun | Client1 | Client2

text \<open>What \<open>read\<close> answers: the bytes (none at the end of the file), or an error.\<close>

datatype vread = Bytes "byte list" | Read_error

record vpn =
  client_addr1 :: "byte list"
  client_addr2 :: "byte list"
  vbuf :: "byte list"
  vout :: "(vport \<times> byte list) list"

definition vpn_start :: "byte list \<Rightarrow> byte list \<Rightarrow> byte list \<Rightarrow> vpn" where
  "vpn_start a1 a2 garbage = \<lparr>client_addr1 = a1, client_addr2 = a2, vbuf = garbage, vout = []\<rparr>"

definition read_into :: "vread \<Rightarrow> byte list \<Rightarrow> int \<times> byte list" where
  "read_into r buf =
     (case r of Bytes bs \<Rightarrow> (int (length (take 1400 bs)), take 1400 bs @ drop (length (take 1400 bs)) buf)
              | Read_error \<Rightarrow> (-1, buf))"

text \<open>\<open>len >= sizeof(struct iphdr)\<close> compares as unsigned numbers, and \<open>len\<close> is converted for \<open>write\<close>.
  A \<open>write\<close> of more bytes than the buffer has, as after a failed \<open>read\<close>, is outside what the standard defines.\<close>

definition size_t_of :: "int \<Rightarrow> nat" where
  "size_t_of len = unat (word_of_int len :: 64 word)"

definition is_packet :: "int \<Rightarrow> bool" where
  "is_packet len = (20 \<le> size_t_of len)"

definition vwrite :: "vport \<Rightarrow> byte list \<Rightarrow> int \<Rightarrow> vpn \<Rightarrow> vpn outcome" where
  "vwrite p buf len s =
     (if size_t_of len > length buf then Inl (Undefined Buffer_overflow)
      else Inr (s\<lparr>vout := vout s @ [(p, take (size_t_of len) buf)]\<rparr>))"

definition daddr :: "byte list \<Rightarrow> byte list" where
  "daddr buf = take 4 (drop 16 buf)"

text \<open>
  A packet from the tun device. The position in the second client's address is taken from the first client's.
\<close>

definition from_tun :: "vread \<Rightarrow> vpn \<Rightarrow> vpn outcome" where
  "from_tun r s =
     (case read_into r (vbuf s) of (len, buf) \<Rightarrow>
      let s = s\<lparr>vbuf := buf\<rparr> in
      if \<not> is_packet len then Inr s
      else
        (let dest = inet_ntoa (daddr buf); addr1 = inet_ntoa (client_addr1 s); addr2 = inet_ntoa (client_addr2 s);
             lastDotPos2 = dot_after addr1
         in case (substr dest (dot_after dest), substr addr1 (dot_after addr1), substr addr2 lastDotPos2) of
              (Inr lastdest, Inr lastone, Inr lasttwo) \<Rightarrow>
                (case (stoi lastdest, stoi lastone, stoi lasttwo) of
                   (Inr d, Inr n1, Inr n2) \<Rightarrow>
                     if n1 = d - 10 then vwrite Client1 buf len s
                     else if n2 = d - 10 then vwrite Client2 buf len s
                     else Inr s
                 | (Inl e, _, _) \<Rightarrow> Inl e | (_, Inl e, _) \<Rightarrow> Inl e | (_, _, Inl e) \<Rightarrow> Inl e)
            | (Inl e, _, _) \<Rightarrow> Inl e | (_, Inl e, _) \<Rightarrow> Inl e | (_, _, Inl e) \<Rightarrow> Inl e))"

text \<open>A packet from a client, for the other client or for the tun device.\<close>

definition from_client :: "vport \<Rightarrow> byte list \<Rightarrow> vread \<Rightarrow> vpn \<Rightarrow> vpn outcome" where
  "from_client other other_addr r s =
     (case read_into r (vbuf s) of (len, buf) \<Rightarrow>
      let s = s\<lparr>vbuf := buf\<rparr> in
      if \<not> is_packet len then Inr s
      else
        (let dest = inet_ntoa (daddr buf); addr = inet_ntoa other_addr
         in case (substr dest (dot_after dest), substr addr (dot_after addr)) of
              (Inr lastdest, Inr lastother) \<Rightarrow>
                (case (stoi lastdest, stoi lastother) of
                   (Inr d, Inr n) \<Rightarrow> if n = d - 10 then vwrite other buf len s else vwrite Tun buf len s
                 | (Inl e, _) \<Rightarrow> Inl e | (_, Inl e) \<Rightarrow> Inl e)
            | (Inl e, _) \<Rightarrow> Inl e | (_, Inl e) \<Rightarrow> Inl e))"

text \<open>One round: the sources \<open>poll\<close> reports as readable, with what \<open>read\<close> answers on each.\<close>

definition vpn_round :: "vread option \<Rightarrow> vread option \<Rightarrow> vread option \<Rightarrow> vpn \<Rightarrow> vpn outcome" where
  "vpn_round tun c1 c2 s =
     (case (case tun of None \<Rightarrow> Inr s | Some r \<Rightarrow> from_tun r s) of
        Inl e \<Rightarrow> Inl e
      | Inr s \<Rightarrow>
          (case (case c1 of None \<Rightarrow> Inr s | Some r \<Rightarrow> from_client Client2 (client_addr2 s) r s) of
             Inl e \<Rightarrow> Inl e
           | Inr s \<Rightarrow> (case c2 of None \<Rightarrow> Inr s | Some r \<Rightarrow> from_client Client1 (client_addr1 s) r s)))"

text \<open>The loop, over what \<open>poll\<close> and \<open>read\<close> answer in each round.\<close>

primrec vpn_run :: "(vread option \<times> vread option \<times> vread option) list \<Rightarrow> vpn \<Rightarrow> vpn outcome" where
  "vpn_run [] s = Inr s"
| "vpn_run (r # rs) s =
     (case r of (tun, c1, c2) \<Rightarrow> case vpn_round tun c1 c2 s of Inl e \<Rightarrow> Inl e | Inr s \<Rightarrow> vpn_run rs s)"

subsection \<open>The client\<close>

text \<open>
  \<open>connect_to_server\<close> ignores the result of \<open>getaddrinfo\<close> and tries the first structure only; when there is none the
  uninitialised \<open>sockfd\<close> is returned.
\<close>

definition connect_to_server :: "kernel \<Rightarrow> gai \<Rightarrow> int \<Rightarrow> string \<Rightarrow> int \<Rightarrow> int list \<Rightarrow> (int \<times> int list) outcome" where
  "connect_to_server k gai junk server port fds =
     (case gai (Some server) (Some (snprintf_buf 6 (print_int port))) (blank_hints 0 AF_UNSPEC SOCK_STREAM) of
        Inl e \<Rightarrow> Inl (Undefined Uninit_read)
      | Inr [] \<Rightarrow> Inr (junk, fds)
      | Inr (p # ps) \<Rightarrow>
          (let sockfd = k_socket k 0 (ai_family p) (ai_socktype p) (ai_protocol p)
           in Inr (sockfd, if sockfd < 0 then fds else sockfd # fds)))"

text \<open>
  The interfaces: name, address family if there is an address, and the text \<open>getnameinfo\<close> gives for it, if it does.
\<close>

fun get_eth0_addr :: "(string \<times> int option \<times> string option) list \<Rightarrow> int outcome" where
  "get_eth0_addr [] = Inr 0"
| "get_eth0_addr ((name, family, host) # ifs) =
     (case (family, host) of
        (Some fam, Some h) \<Rightarrow>
          if (fam = AF_INET \<or> fam = AF_INET6) \<and> name = ''eth0''
          then (case substr h (dot_after h) of Inl e \<Rightarrow> Inl e | Inr lastPart \<Rightarrow> stoi lastPart)
          else get_eth0_addr ifs
      | _ \<Rightarrow> get_eth0_addr ifs)"

definition ADDRBASE :: "32 word" where "ADDRBASE = 0x0a00000a"

text \<open>The address of the client's tun device in network byte order: \<open>htonl(ADDRBASE + offset)\<close>.\<close>

definition tun_addr :: "int \<Rightarrow> byte list" where
  "tun_addr offset = be32 (ADDRBASE + word_of_int offset)"

text \<open>The loop of the client copies in both directions; the state is its buffer and what it wrote.\<close>

definition vpn_copy :: "bool \<Rightarrow> vread \<Rightarrow> byte list \<times> (bool \<times> byte list) list \<Rightarrow> (byte list \<times> (bool \<times> byte list) list) outcome" where
  "vpn_copy to_sock r s =
     (case s of (buf, out) \<Rightarrow>
      case read_into r buf of (len, buf) \<Rightarrow>
      if size_t_of len > length buf then Inl (Undefined Buffer_overflow)
      else Inr (buf, out @ [(to_sock, take (size_t_of len) buf)]))"

definition vpn_client_round ::
  "vread option \<Rightarrow> vread option \<Rightarrow> byte list \<times> (bool \<times> byte list) list \<Rightarrow> (byte list \<times> (bool \<times> byte list) list) outcome" where
  "vpn_client_round tun sock s =
     (case (case tun of None \<Rightarrow> Inr s | Some r \<Rightarrow> vpn_copy True r s) of
        Inl e \<Rightarrow> Inl e
      | Inr s \<Rightarrow> (case sock of None \<Rightarrow> Inr s | Some r \<Rightarrow> vpn_copy False r s))"

subsection \<open>Lemmas\<close>

lemma stoi_print: "int n \<le> INT_MAX \<Longrightarrow> stoi (print_dec n) = Inr (int n)"
  using scan_long_print [of "[]" n] by (simp add: stoi_def INT_MIN_def)

text \<open>What precedes the last number of a dotted quad.\<close>

definition quad_prefix :: "byte list \<Rightarrow> string" where
  "quad_prefix a = print_dec (unat (a ! 0)) @ ''.'' @ print_dec (unat (a ! 1)) @ ''.'' @ print_dec (unat (a ! 2)) @ ''.''"

lemma inet_ntoa_parts: "inet_ntoa a = quad_prefix a @ print_dec (unat (a ! 3))"
  by (simp add: inet_ntoa_def dotted_def quad_prefix_def)

lemma dot_after_ntoa: "dot_after (inet_ntoa a) = length (quad_prefix a)"
proof -
  let ?p = "print_dec (unat (a ! 0)) @ ''.'' @ print_dec (unat (a ! 1)) @ ''.'' @ print_dec (unat (a ! 2))"
  have "CHR ''.'' \<notin> set (print_dec (unat (a ! 3)))" using print_dec_chars(3) by blast
  from strrchr_last [OF this, of ?p] show ?thesis by (simp add: dot_after_def inet_ntoa_parts quad_prefix_def)
qed

lemma stoi_byte: "stoi (print_dec (unat (b :: byte))) = Inr (uint b)"
proof -
  have "int (unat b) \<le> INT_MAX" using unat_byte_lt [of b] unfolding INT_MAX_def by linarith
  then show ?thesis using stoi_print [of "unat b"] by simp
qed

lemma last_number: "substr (inet_ntoa a) (dot_after (inet_ntoa a)) = Inr (print_dec (unat (a ! 3)))"
  by (simp add: substr_def dot_after_ntoa) (simp add: inet_ntoa_parts)

lemma size_t_of_nat: "n < 2 ^ 64 \<Longrightarrow> size_t_of (int n) = n"
  by (simp add: size_t_of_def unat_of_nat take_bit_nat_eq_self)

lemma byte_offset: "(uint (x :: byte) = uint y - 10) = (unat y = unat x + 10)"
proof -
  have "int (unat x) = uint x" "int (unat y) = uint y" by simp_all
  then show ?thesis by linarith
qed

subsection \<open>Routing\<close>

text \<open>What the server is meant to do with a packet whose destination ends in \<open>d\<close>.\<close>

definition vpn_route :: "byte list \<Rightarrow> byte list \<Rightarrow> vport \<Rightarrow> nat \<Rightarrow> vport option" where
  "vpn_route a b src d =
     (if src \<noteq> Client1 \<and> d = unat (a ! 3) + 10 then Some Client1
      else if src \<noteq> Client2 \<and> d = unat (b ! 3) + 10 then Some Client2
      else if src = Tun then None else Some Tun)"

definition vpn_deliver :: "byte list \<Rightarrow> byte list \<Rightarrow> vport \<Rightarrow> byte list \<Rightarrow> (vport \<times> byte list) list" where
  "vpn_deliver a b src pkt = (case vpn_route a b src (unat (pkt ! 19)) of None \<Rightarrow> [] | Some p \<Rightarrow> [(p, pkt)])"

definition packet_ok :: "byte list \<Rightarrow> bool" where
  "packet_ok pkt = (20 \<le> length pkt \<and> length pkt \<le> 1400)"

definition vpn_ok :: "vpn \<Rightarrow> bool" where
  "vpn_ok s = (length (vbuf s) = 1400 \<and> take 3 (client_addr1 s) = take 3 (client_addr2 s)
     \<and> length (client_addr1 s) = 4 \<and> length (client_addr2 s) = 4)"

lemma read_packet:
  assumes "packet_ok pkt" "length buf = 1400"
  shows "read_into (Bytes pkt) buf = (int (length pkt), pkt @ drop (length pkt) buf)"
    and "size_t_of (int (length pkt)) = length pkt" and "is_packet (int (length pkt))"
    and "daddr (pkt @ r) ! 3 = pkt ! 19"
proof -
  show sz: "size_t_of (int (length pkt)) = length pkt" using assms by (intro size_t_of_nat) (simp add: packet_ok_def)
  show "read_into (Bytes pkt) buf = (int (length pkt), pkt @ drop (length pkt) buf)"
    using assms by (simp add: read_into_def packet_ok_def)
  show "is_packet (int (length pkt))" using assms sz by (simp add: is_packet_def packet_ok_def)
  show "daddr (pkt @ r) ! 3 = pkt ! 19" using assms by (simp add: daddr_def packet_ok_def nth_append)
qed

lemma vwrite_packet:
  "packet_ok pkt \<Longrightarrow> vwrite p (pkt @ r) (int (length pkt)) s = Inr (s\<lparr>vout := vout s @ [(p, pkt)]\<rparr>)"
  using read_packet(2) [of pkt "replicate 1400 0"] by (simp add: vwrite_def)

lemma same_prefix:
  assumes "take 3 a = take 3 b" "length a = 4" "length b = 4"
  shows "quad_prefix a = quad_prefix b"
proof -
  have "a ! i = b ! i" if "i < 3" for i
    using arg_cong [OF assms(1), of "\<lambda>xs. xs ! i"] that assms(2,3) by simp
  then show ?thesis by (simp add: quad_prefix_def)
qed

text \<open>With equal prefixes the position taken from the wrong string is the right one.\<close>

lemma last_number_at:
  "quad_prefix a = quad_prefix b \<Longrightarrow> substr (inet_ntoa b) (dot_after (inet_ntoa a)) = Inr (print_dec (unat (b ! 3)))"
  using last_number [of b] by (simp add: dot_after_ntoa)

lemma from_tun_routes:
  assumes "vpn_ok s" "packet_ok pkt"
  shows "from_tun (Bytes pkt) s = Inr (s\<lparr>vbuf := pkt @ drop (length pkt) (vbuf s),
           vout := vout s @ vpn_deliver (client_addr1 s) (client_addr2 s) Tun pkt\<rparr>)"
proof -
  have b: "length (vbuf s) = 1400" using assms(1) by (simp add: vpn_ok_def)
  have q: "quad_prefix (client_addr1 s) = quad_prefix (client_addr2 s)"
    using assms(1) by (intro same_prefix) (simp_all add: vpn_ok_def)
  show ?thesis
    by (simp add: from_tun_def read_packet [OF assms(2) b] last_number stoi_byte last_number_at [OF q] vwrite_packet [OF assms(2)]
          Let_def byte_offset vpn_deliver_def vpn_route_def)
qed

lemma from_client_routes:
  assumes "length (vbuf s) = 1400" "packet_ok pkt"
  shows "from_client p addr (Bytes pkt) s = Inr (s\<lparr>vbuf := pkt @ drop (length pkt) (vbuf s),
           vout := vout s @ [(if unat (pkt ! 19) = unat (addr ! 3) + 10 then p else Tun, pkt)]\<rparr>)"
proof -
  show ?thesis
    by (simp add: from_client_def read_packet [OF assms(2,1)] last_number stoi_byte vwrite_packet [OF assms(2)] Let_def byte_offset)
qed


text \<open>The abstract round: each packet goes where its destination says, in the order of the sources.\<close>

definition from_source :: "vport \<Rightarrow> byte list option \<Rightarrow> (vport \<times> byte list) list" where
  "from_source p x = (case x of None \<Rightarrow> [] | Some pkt \<Rightarrow> [(p, pkt)])"

definition vpn_sources :: "byte list option \<times> byte list option \<times> byte list option \<Rightarrow> (vport \<times> byte list) list" where
  "vpn_sources r = (case r of (t, c1, c2) \<Rightarrow> from_source Tun t @ from_source Client1 c1 @ from_source Client2 c2)"

definition vpn_sent :: "byte list \<Rightarrow> byte list \<Rightarrow> (vport \<times> byte list) list \<Rightarrow> (vport \<times> byte list) list" where
  "vpn_sent a b pkts = concat (map (\<lambda>(src, p). vpn_deliver a b src p) pkts)"

definition vpn_moves :: "vpn \<Rightarrow> (vport \<times> byte list) list \<Rightarrow> vpn \<Rightarrow> bool" where
  "vpn_moves s pkts t = (client_addr1 t = client_addr1 s \<and> client_addr2 t = client_addr2 s \<and> length (vbuf t) = 1400
     \<and> vout t = vout s @ vpn_sent (client_addr1 s) (client_addr2 s) pkts)"

lemma vpn_moves_refl: "vpn_ok s \<Longrightarrow> vpn_moves s [] s"
  by (simp add: vpn_moves_def vpn_sent_def vpn_ok_def)

lemma vpn_moves_trans: "vpn_moves s xs t \<Longrightarrow> vpn_moves t ys u \<Longrightarrow> vpn_moves s (xs @ ys) u"
  by (simp add: vpn_moves_def vpn_sent_def)

lemma vpn_moves_ok: "vpn_moves s xs t \<Longrightarrow> vpn_ok s \<Longrightarrow> vpn_ok t"
  by (simp add: vpn_moves_def vpn_ok_def)

lemma buffer_kept: "packet_ok pkt \<Longrightarrow> length buf = 1400 \<Longrightarrow> length (pkt @ drop (length pkt) buf) = 1400"
  by (simp add: packet_ok_def)

lemma tun_moves:
  assumes "vpn_ok s" "pred_option packet_ok x"
  obtains t where "(case map_option Bytes x of None \<Rightarrow> Inr s | Some r \<Rightarrow> from_tun r s) = Inr t"
    and "vpn_moves s (from_source Tun x) t"
proof (cases x)
  case None
  then show ?thesis using that vpn_moves_refl [OF assms(1)] by (simp add: from_source_def)
next
  case (Some pkt)
  let ?t = "s\<lparr>vbuf := pkt @ drop (length pkt) (vbuf s),
      vout := vout s @ vpn_deliver (client_addr1 s) (client_addr2 s) Tun pkt\<rparr>"
  have ok: "packet_ok pkt" and b: "length (vbuf s) = 1400" using assms Some by (simp_all add: vpn_ok_def)
  have "vpn_moves s (from_source Tun x) ?t"
    using buffer_kept [OF ok b] by (simp add: vpn_moves_def vpn_sent_def from_source_def Some)
  then show ?thesis by (rule that [rotated]) (simp add: Some from_tun_routes [OF assms(1) ok])
qed

lemma client_moves:
  assumes "vpn_ok s" "pred_option packet_ok x"
    and p: "(src, p, addr) = (Client1, Client2, client_addr2 s) \<or> (src, p, addr) = (Client2, Client1, client_addr1 s)"
  obtains t where "(case map_option Bytes x of None \<Rightarrow> Inr s | Some r \<Rightarrow> from_client p addr r s) = Inr t"
    and "vpn_moves s (from_source src x) t"
proof (cases x)
  case None
  then show ?thesis using that vpn_moves_refl [OF assms(1)] by (simp add: from_source_def)
next
  case (Some pkt)
  let ?t = "s\<lparr>vbuf := pkt @ drop (length pkt) (vbuf s),
      vout := vout s @ [(if unat (pkt ! 19) = unat (addr ! 3) + 10 then p else Tun, pkt)]\<rparr>"
  have ok: "packet_ok pkt" and b: "length (vbuf s) = 1400" using assms Some by (simp_all add: vpn_ok_def)
  have "vpn_deliver (client_addr1 s) (client_addr2 s) src pkt = [(if unat (pkt ! 19) = unat (addr ! 3) + 10 then p else Tun, pkt)]"
    using p by (auto simp: vpn_deliver_def vpn_route_def)
  then have "vpn_moves s (from_source src x) ?t"
    using buffer_kept [OF ok b] by (simp add: vpn_moves_def vpn_sent_def from_source_def Some)
  then show ?thesis by (rule that [rotated]) (simp add: Some from_client_routes [OF b ok])
qed

definition round_ok :: "byte list option \<times> byte list option \<times> byte list option \<Rightarrow> bool" where
  "round_ok r = (case r of (t, c1, c2) \<Rightarrow> pred_option packet_ok t \<and> pred_option packet_ok c1 \<and> pred_option packet_ok c2)"

lemma vpn_round_moves:
  assumes "vpn_ok s" "round_ok (x, c1, c2)"
  obtains t where "vpn_round (map_option Bytes x) (map_option Bytes c1) (map_option Bytes c2) s = Inr t"
    and "vpn_moves s (vpn_sources (x, c1, c2)) t"
proof -
  have ok: "pred_option packet_ok x" "pred_option packet_ok c1" "pred_option packet_ok c2"
    using assms(2) by (simp_all add: round_ok_def)
  obtain t where t: "(case map_option Bytes x of None \<Rightarrow> Inr s | Some r \<Rightarrow> from_tun r s) = Inr t"
    "vpn_moves s (from_source Tun x) t" using tun_moves [OF assms(1) ok(1)] by blast
  have tok: "vpn_ok t" using vpn_moves_ok [OF t(2) assms(1)] .
  obtain u where u: "(case map_option Bytes c1 of None \<Rightarrow> Inr t | Some r \<Rightarrow> from_client Client2 (client_addr2 t) r t) = Inr u"
    "vpn_moves t (from_source Client1 c1) u" using client_moves [OF tok ok(2)] by blast
  have uok: "vpn_ok u" using vpn_moves_ok [OF u(2) tok] .
  obtain v where v: "(case map_option Bytes c2 of None \<Rightarrow> Inr u | Some r \<Rightarrow> from_client Client1 (client_addr1 u) r u) = Inr v"
    "vpn_moves u (from_source Client2 c2) v" using client_moves [OF uok ok(3)] by blast
  show ?thesis
  proof (rule that)
    show "vpn_round (map_option Bytes x) (map_option Bytes c1) (map_option Bytes c2) s = Inr v"
      unfolding vpn_round_def t(1) by (simp only: sum.case u(1) v(1))
    show "vpn_moves s (vpn_sources (x, c1, c2)) v"
      using vpn_moves_trans [OF t(2) vpn_moves_trans [OF u(2) v(2)]] by (simp add: vpn_sources_def)
  qed
qed

subsection \<open>Addresses\<close>

lemma tun_addr_bytes:
  assumes "n \<le> 245"
  shows "tun_addr (int n) = [10, 0, 0, of_nat (n + 10)]"
proof -
  have e: "(word_of_int (int n) :: 32 word) = of_nat n" by simp
  have u: "unat (ADDRBASE + of_nat n) = 167772170 + n"
    using assms by (simp add: ADDRBASE_def unat_word_ariths unat_of_nat take_bit_nat_eq_self)
  have "unat (of_nat (n + 10) :: byte) = n + 10" using assms by (subst unat_of_nat) (simp add: take_bit_nat_eq_self)
  then show ?thesis unfolding tun_addr_def e
    by (intro be32_of_quad) (simp add: u quad_num_def)
qed

lemma get_eth0_addr_v4:
  "get_eth0_addr ((''eth0'', Some AF_INET, Some (inet_ntoa a)) # ifs) = Inr (uint (a ! 3))"
  by (simp add: last_number stoi_byte)

text \<open>The address a client gives itself is the one the server looks for, up to the octet 245.\<close>

lemma tun_addr_last: "unat (a ! 3) \<le> 245 \<Longrightarrow> unat (tun_addr (uint (a ! 3 :: byte)) ! 3) = unat (a ! 3) + 10"
  using tun_addr_bytes [of "unat (a ! 3)"] by (simp add: unat_word_ariths unat_of_nat)

lemma tun_addr_overflow: "tun_addr 246 = [10, 0, 1, 0]" "tun_addr 244 = be32 0x0a0000fe"
  by (simp_all add: tun_addr_def ADDRBASE_def be32_def drop_bit_eq_div)

subsection \<open>Errors\<close>

lemma failed_read_is_packet: "is_packet (-1)" "size_t_of (-1) = 2 ^ 64 - 1"
  by (simp_all add: is_packet_def size_t_of_def unsigned_minus_1_eq_mask mask_eq_exp_minus_1)

lemma from_client_read_error:
  "length (vbuf s) = 1400 \<Longrightarrow> from_client p addr Read_error s = Inl (Undefined Buffer_overflow)"
  by (simp add: from_client_def read_into_def failed_read_is_packet last_number stoi_byte vwrite_def Let_def)

lemma from_tun_other_prefix:
  assumes "vpn_ok (s\<lparr>client_addr1 := client_addr2 s\<rparr>)" "packet_ok pkt"
    and "length (inet_ntoa (client_addr2 s)) < length (quad_prefix (client_addr1 s))"
  shows "from_tun (Bytes pkt) s = Inl (Abort ''basic_string::substr'')"
proof -
  have b: "length (vbuf s) = 1400" using assms(1) by (simp add: vpn_ok_def)
  have "substr (inet_ntoa (client_addr2 s)) (dot_after (inet_ntoa (client_addr1 s))) = Inl (Abort ''basic_string::substr'')"
    using assms(3) by (simp add: substr_def dot_after_ntoa)
  then show ?thesis by (simp add: from_tun_def read_packet [OF assms(2) b] last_number Let_def)
qed

subsection \<open>The claim\<close>

definition wire_round ::
  "byte list option \<times> byte list option \<times> byte list option \<Rightarrow> vread option \<times> vread option \<times> vread option" where
  "wire_round r = (case r of (t, c1, c2) \<Rightarrow> (map_option Bytes t, map_option Bytes c1, map_option Bytes c2))"

lemma vpn_run_moves:
  assumes "vpn_ok s" "list_all round_ok rs"
  shows "\<exists>t. vpn_run (map wire_round rs) s = Inr t \<and> vpn_moves s (concat (map vpn_sources rs)) t"
  using assms
proof (induction rs arbitrary: s)
  case Nil
  then show ?case by (simp add: vpn_moves_refl)
next
  case (Cons r rs)
  obtain x c1 c2 where r: "r = (x, c1, c2)" by (cases r)
  obtain t where t: "vpn_round (map_option Bytes x) (map_option Bytes c1) (map_option Bytes c2) s = Inr t"
    "vpn_moves s (vpn_sources r) t" using vpn_round_moves [of s x c1 c2] Cons.prems by (auto simp: r)
  obtain u where u: "vpn_run (map wire_round rs) t = Inr u" "vpn_moves t (concat (map vpn_sources rs)) u"
    using Cons.IH [of t] vpn_moves_ok [OF t(2) Cons.prems(1)] Cons.prems(2) by auto
  have "vpn_run (map wire_round (r # rs)) s = Inr u" using t(1) u(1) by (simp add: r wire_round_def)
  moreover have "vpn_moves s (concat (map vpn_sources (r # rs))) u" using vpn_moves_trans [OF t(2) u(2)] by simp
  ultimately show ?case by blast
qed


definition vpn_example :: vpn where
  "vpn_example = vpn_start [172, 28, 28, 2] [172, 28, 28, 3] (replicate 1400 0)"

definition packet_to :: "byte \<Rightarrow> byte list" where
  "packet_to n = replicate 16 69 @ [10, 0, 0, n] @ [1, 2]"


end
