(* ===== verification/Tun_Setup.thy ===== *)
theory Tun_Setup
  imports Tun_Vpn
begin

text \<open>
  The set-up of the tun device in \<open>np-lab8/lab_tun/dist/tunvpn.cpp\<close>: \<open>tun_alloc\<close>, the \<open>ifreq\<close> functions, the beginnings of
  \<open>tunvpn_server\<close> and \<open>tunvpn_client\<close>, and \<open>main\<close>.

  The calls of \<open>ioctl\<close> are recorded in their order; a request holds what the caller put into the zeroed \<open>struct ifreq\<close>.
  The answers are the argument \<open>io\<close>: by the number of the call and the request, the value returned and the contents of the
  structure that the caller looks at afterwards.
\<close>

datatype ioreq =
    TUNSETIFF "byte list" "16 word"
  | SIOCSIFMTU "byte list" int
  | SIOCGIFFLAGS "byte list"
  | SIOCSIFFLAGS "byte list" "16 word"
  | SIOCSIFADDR "byte list" "byte list"
  | SIOCSIFNETMASK "byte list" "byte list"
  | SIOCSIFBRDADDR "byte list" "byte list"

record ioanswer =
  io_ret :: int
  io_name :: string
  io_flags :: "16 word"

type_synonym ioctls = "nat \<Rightarrow> ioreq \<Rightarrow> ioanswer"

definition IFF_TUN :: "16 word" where "IFF_TUN = 1"
definition IFF_NO_PI :: "16 word" where "IFF_NO_PI = 0x1000"
definition IFF_UP :: "16 word" where "IFF_UP = 1"

definition MYADDR :: "32 word" where "MYADDR = 0x0a0000fe"
definition NETMASK :: "32 word" where "NETMASK = 0xffffff00"

definition TUN_NAME :: string where "TUN_NAME = ''tun0''"

text \<open>\<open>strncpy\<close> into the 16 bytes of \<open>ifr_name\<close>, which are zero before.\<close>

definition ifr_name :: "string option \<Rightarrow> byte list" where
  "ifr_name dev = (case dev of None \<Rightarrow> replicate 16 0 | Some d \<Rightarrow> take 16 (map of_char d @ replicate 16 0))"

definition ioctl :: "ioctls \<Rightarrow> ioreq \<Rightarrow> ioreq list \<Rightarrow> ioanswer \<times> ioreq list" where
  "ioctl io r reqs = (io (length reqs) r, reqs @ [r])"

text \<open>
  The descriptor \<open>open\<close> returns and the name; \<open>strcpy\<close> writes the name the kernel chose into \<open>TUN_NAME\<close>, an array of
  5 bytes. The second component is its new contents.
\<close>

definition tun_alloc :: "ioctls \<Rightarrow> int \<Rightarrow> string \<Rightarrow> ioreq list \<Rightarrow> (int \<times> string \<times> ioreq list) outcome" where
  "tun_alloc io fd dev reqs =
     (if fd < 0 then Inr (-1, dev, reqs)
      else (case ioctl io (TUNSETIFF (ifr_name (if dev \<noteq> [] then Some dev else None)) (IFF_TUN OR IFF_NO_PI)) reqs of
              (a, reqs) \<Rightarrow>
                if io_ret a < 0 then Inr (io_ret a, dev, reqs)
                else if 5 \<le> length (io_name a) then Inl (Undefined Buffer_overflow)
                else Inr (fd, io_name a, reqs)))"

definition ifreq_set_mtu :: "ioctls \<Rightarrow> string \<Rightarrow> int \<Rightarrow> ioreq list \<Rightarrow> int \<times> ioreq list" where
  "ifreq_set_mtu io dev mtu reqs = (case ioctl io (SIOCSIFMTU (ifr_name (Some dev)) mtu) reqs of (a, reqs) \<Rightarrow> (io_ret a, reqs))"

text \<open>\<open>*flag\<close> is written when the call succeeds only.\<close>

definition ifreq_get_flag :: "ioctls \<Rightarrow> string \<Rightarrow> ioreq list \<Rightarrow> 16 word option \<times> ioreq list" where
  "ifreq_get_flag io dev reqs =
     (case ioctl io (SIOCGIFFLAGS (ifr_name (Some dev))) reqs of (a, reqs) \<Rightarrow> (if io_ret a = 0 then Some (io_flags a) else None, reqs))"

definition ifreq_set_flag :: "ioctls \<Rightarrow> string \<Rightarrow> 16 word \<Rightarrow> ioreq list \<Rightarrow> int \<times> ioreq list" where
  "ifreq_set_flag io dev flag reqs = (case ioctl io (SIOCSIFFLAGS (ifr_name (Some dev)) flag) reqs of (a, reqs) \<Rightarrow> (io_ret a, reqs))"

text \<open>\<open>cmd\<close> makes the request from the name and the address, given as the four bytes in memory.\<close>

definition ifreq_set_sockaddr :: "ioctls \<Rightarrow> string \<Rightarrow> (byte list \<Rightarrow> byte list \<Rightarrow> ioreq) \<Rightarrow> byte list \<Rightarrow> ioreq list \<Rightarrow> int \<times> ioreq list" where
  "ifreq_set_sockaddr io dev cmd addr reqs = (case ioctl io (cmd (ifr_name (Some dev)) addr) reqs of (a, reqs) \<Rightarrow> (io_ret a, reqs))"

definition ifreq_set_addr :: "ioctls \<Rightarrow> string \<Rightarrow> byte list \<Rightarrow> ioreq list \<Rightarrow> int \<times> ioreq list" where
  "ifreq_set_addr io dev addr reqs = ifreq_set_sockaddr io dev SIOCSIFADDR addr reqs"

definition ifreq_set_netmask :: "ioctls \<Rightarrow> string \<Rightarrow> byte list \<Rightarrow> ioreq list \<Rightarrow> int \<times> ioreq list" where
  "ifreq_set_netmask io dev addr reqs = ifreq_set_sockaddr io dev SIOCSIFNETMASK addr reqs"

definition ifreq_set_broadcast :: "ioctls \<Rightarrow> string \<Rightarrow> byte list \<Rightarrow> ioreq list \<Rightarrow> int \<times> ioreq list" where
  "ifreq_set_broadcast io dev addr reqs = ifreq_set_sockaddr io dev SIOCSIFBRDADDR addr reqs"

text \<open>\<open>short flag; ifreq_get_flag(...); flag |= IFF_UP; ifreq_set_flag(...);\<close>\<close>

definition bring_up :: "ioctls \<Rightarrow> string \<Rightarrow> ioreq list \<Rightarrow> ioreq list outcome" where
  "bring_up io dev reqs =
     (case ifreq_get_flag io dev reqs of
        (None, reqs) \<Rightarrow> Inl (Undefined Uninit_read)
      | (Some flag, reqs) \<Rightarrow> Inr (snd (ifreq_set_flag io dev (flag OR IFF_UP) reqs)))"

text \<open>The server up to \<open>bind\<close>, and the client up to \<open>poll\<close> with the offset that \<open>get_eth0_addr\<close> gives it.\<close>

definition server_setup :: "ioctls \<Rightarrow> int \<Rightarrow> (int \<times> ioreq list) outcome" where
  "server_setup io fd =
     (case tun_alloc io fd TUN_NAME [] of
        Inl e \<Rightarrow> Inl e
      | Inr (tun_fd, name, reqs) \<Rightarrow>
          (let reqs = snd (ifreq_set_mtu io name 1400 reqs);
               reqs = snd (ifreq_set_addr io name (be32 MYADDR) reqs);
               reqs = snd (ifreq_set_netmask io name (be32 NETMASK) reqs);
               reqs = snd (ifreq_set_broadcast io name (be32 (ADDRBASE OR NOT NETMASK)) reqs)
           in case bring_up io name reqs of Inl e \<Rightarrow> Inl e | Inr reqs \<Rightarrow> Inr (tun_fd, reqs)))"

definition client_setup :: "ioctls \<Rightarrow> int \<Rightarrow> int outcome \<Rightarrow> (int \<times> ioreq list) outcome" where
  "client_setup io fd offset =
     (case tun_alloc io fd TUN_NAME [] of
        Inl e \<Rightarrow> Inl e
      | Inr (tun_fd, name, reqs) \<Rightarrow>
          (let reqs = snd (ifreq_set_mtu io name 1400 reqs) in
           case bring_up io name reqs of
             Inl e \<Rightarrow> Inl e
           | Inr reqs \<Rightarrow>
               (case offset of
                  Inl e \<Rightarrow> Inl e
                | Inr offset \<Rightarrow>
                    (let reqs = snd (ifreq_set_addr io name (tun_addr offset) reqs);
                         reqs = snd (ifreq_set_netmask io name (be32 NETMASK) reqs);
                         reqs = snd (ifreq_set_broadcast io name (be32 (ADDRBASE OR NOT NETMASK)) reqs)
                     in Inr (tun_fd, reqs)))))"

text \<open>\<open>main\<close>: what it starts. The ports are read by \<open>strtol\<close> with base 0 later.\<close>

datatype vpn_mode = Usage | Server_mode string | Client_mode string string | Unknown_mode string

definition vpn_main :: "string list \<Rightarrow> vpn_mode" where
  "vpn_main argv =
     (if length argv < 3 then Usage
      else if argv ! 1 = ''server'' then Server_mode (argv ! 2)
      else if argv ! 1 = ''client'' then (if length argv < 4 then Usage else Client_mode (argv ! 2) (argv ! 3))
      else Unknown_mode (argv ! 1))"

subsection \<open>What the requests do\<close>

text \<open>An interface, and the documented effect of the requests on it.\<close>

record iface =
  if_mtu :: int
  if_flags :: "16 word"
  if_addr :: "byte list"
  if_netmask :: "byte list"
  if_broadcast :: "byte list"

fun effect :: "ioreq \<Rightarrow> iface \<Rightarrow> iface" where
  "effect (SIOCSIFMTU _ mtu) i = i\<lparr>if_mtu := mtu\<rparr>"
| "effect (SIOCSIFFLAGS _ flags) i = i\<lparr>if_flags := flags\<rparr>"
| "effect (SIOCSIFADDR _ a) i = i\<lparr>if_addr := a\<rparr>"
| "effect (SIOCSIFNETMASK _ a) i = i\<lparr>if_netmask := a\<rparr>"
| "effect (SIOCSIFBRDADDR _ a) i = i\<lparr>if_broadcast := a\<rparr>"
| "effect _ i = i"

definition effects :: "ioreq list \<Rightarrow> iface \<Rightarrow> iface" where
  "effects reqs i = fold effect reqs i"

text \<open>A kernel that does what is asked: every call succeeds, the name stays, the flags are those of the interface.\<close>

definition io_ok :: "ioctls \<Rightarrow> 16 word \<Rightarrow> bool" where
  "io_ok io flags = (\<forall>n r. io_ret (io n r) = 0 \<and> io_name (io n r) = TUN_NAME \<and> io_flags (io n r) = flags)"

lemma tun_alloc_ok:
  "io_ok io flags \<Longrightarrow> 0 \<le> fd \<Longrightarrow> tun_alloc io fd TUN_NAME [] = Inr (fd, TUN_NAME, [TUNSETIFF (ifr_name (Some TUN_NAME)) 0x1001])"
  by (simp add: tun_alloc_def ioctl_def io_ok_def IFF_TUN_def IFF_NO_PI_def TUN_NAME_def)

lemma broadcast_addr: "be32 (ADDRBASE OR NOT NETMASK) = [10, 0, 0, 255]" "be32 MYADDR = [10, 0, 0, 254]" "be32 NETMASK = [255, 255, 255, 0]"
  by code_simp+

text \<open>
  On both sides the device ends up with the MTU, the address, the mask and the broadcast address of the network
  10.0.0.0/24, and up, with its other flags as they were; a failure of \<open>SIOCGIFFLAGS\<close> makes the program use a variable
  that was never set.
\<close>

lemma server_device:
  assumes "io_ok io flags" "0 \<le> fd"
  obtains reqs where "server_setup io fd = Inr (fd, reqs)"
    "effects reqs i = \<lparr>if_mtu = 1400, if_flags = flags OR IFF_UP, if_addr = [10, 0, 0, 254], if_netmask = [255, 255, 255, 0], if_broadcast = [10, 0, 0, 255]\<rparr>"
  using assms tun_alloc_ok [OF assms] that
  by (simp add: server_setup_def bring_up_def ifreq_set_mtu_def ifreq_set_addr_def ifreq_set_netmask_def ifreq_set_broadcast_def
      ifreq_set_sockaddr_def ifreq_get_flag_def ifreq_set_flag_def ioctl_def io_ok_def effects_def broadcast_addr)

lemma client_device:
  assumes "io_ok io flags" "0 \<le> fd"
  obtains reqs where "client_setup io fd (Inr n) = Inr (fd, reqs)"
    "effects reqs i = \<lparr>if_mtu = 1400, if_flags = flags OR IFF_UP, if_addr = tun_addr n, if_netmask = [255, 255, 255, 0], if_broadcast = [10, 0, 0, 255]\<rparr>"
  using assms tun_alloc_ok [OF assms] that
  by (simp add: client_setup_def bring_up_def ifreq_set_mtu_def ifreq_set_addr_def ifreq_set_netmask_def ifreq_set_broadcast_def
      ifreq_set_sockaddr_def ifreq_get_flag_def ifreq_set_flag_def ioctl_def io_ok_def effects_def broadcast_addr)

lemma no_flags:
  assumes "tun_alloc io fd TUN_NAME [] = Inr (t, name, reqs)" "\<forall>n r. (\<exists>d. r = SIOCGIFFLAGS d) \<longrightarrow> io_ret (io n r) \<noteq> 0"
  shows "server_setup io fd = Inl (Undefined Uninit_read)"
  using assms by (simp add: server_setup_def bring_up_def ifreq_get_flag_def ioctl_def Let_def)

end
