(* ===== verification/Web_Client.thy ===== *)
theory Web_Client
  imports Conn_Setup Byte_IO Ready_Loop "HOL-Library.Multiset"
begin

text \<open>
  The web client of \<open>nonblock/web.c\<close>, with \<open>home_page.c\<close>, \<open>start_connect.c\<close>, \<open>write_get_cmd.c\<close> and \<open>web.h\<close>: it
  fetches up to \<open>MAXFILES\<close> files over at most \<open>maxnconn\<close> simultaneous connections, with nonblocking connects and
  one \<open>select\<close>. Counters, flags of the files and descriptor sets describe the same thing three times; that they
  agree is the invariant.

  A result \<open>None\<close> is a call that has not returned yet. The results of the calls that depend on a file are
  functions of its number, since each is made once; \<open>select\<close> and \<open>read\<close> answer anew in every round.
\<close>

subsection \<open>Data\<close>

definition MAXFILES :: nat where "MAXFILES = 20"

definition F_CONNECTING :: int where "F_CONNECTING = 1"
definition F_READING :: int where "F_READING = 2"
definition F_DONE :: int where "F_DONE = 4"

lemmas F_defs = F_CONNECTING_def F_READING_def F_DONE_def

record wfile =
  f_name :: string
  f_host :: string
  f_fd :: int
  f_flags :: int

text \<open>What is printed, as events.\<close>

datatype wevent = Started nat int | Connect_failed nat | Established nat | Wrote nat "byte list" | Got nat int | At_eof nat

record web =
  wfiles :: "wfile list"
  nconn :: int
  nlefttoconn :: int
  nlefttoread :: int
  maxfd :: int
  wrset :: "int set"
  wwset :: "int set"
  wfds :: "int list"
  wlog :: "wevent list"

record wkernel =
  w_socket :: "nat \<Rightarrow> int list \<Rightarrow> int"
  w_fcntl :: "int \<Rightarrow> bool"
  w_connect :: "nat \<Rightarrow> sockaddr option \<Rightarrow> errno option"
  w_write :: "nat \<Rightarrow> answer list"
  w_close :: "int \<Rightarrow> bool"

record wround =
  r_select :: "int set \<Rightarrow> int set \<Rightarrow> (int set \<times> int set) option"
  r_soerror :: "nat \<Rightarrow> bool"
  r_read :: "nat \<Rightarrow> arrival"

text \<open>Sequencing of results.\<close>

definition rbind :: "'a outcome option \<Rightarrow> ('a \<Rightarrow> 'b outcome option) \<Rightarrow> 'b outcome option" where
  "rbind m f = (case m of None \<Rightarrow> None | Some (Inl e) \<Rightarrow> Some (Inl e) | Some (Inr x) \<Rightarrow> f x)"

lemma rbind_simps [simp]:
  "rbind None f = None" "rbind (Some (Inl e)) f = Some (Inl e)" "rbind (Some (Inr x)) f = f x"
  by (simp_all add: rbind_def)

lemma rbind_Inr: "rbind m f = Some (Inr y) \<longleftrightarrow> (\<exists>x. m = Some (Inr x) \<and> f x = Some (Inr y))"
  by (auto simp: rbind_def split: option.splits sum.splits)

subsection \<open>Operations\<close>

definition GET_CMD :: "string \<Rightarrow> string" where
  "GET_CMD name = ''GET '' @ name @ '' HTTP/1.0'' @ [CHR 0x0D, CHR 0x0A, CHR 0x0D, CHR 0x0A]"

text \<open>
  \<open>n = snprintf(line, sizeof(line), GET_CMD, name)\<close> is the length of the whole command, also when \<open>line\<close> holds only
  a part of it; \<open>Writen\<close> then takes \<open>n\<close> bytes from \<open>line\<close>.
\<close>

definition send_get :: "string \<Rightarrow> answer list \<Rightarrow> (byte list \<times> answer list) outcome option" where
  "send_get name wr =
     (let n = length (GET_CMD name); line = bytes_of (snprintf_buf MAXLINE (GET_CMD name)) @ [0] in
      if n > MAXLINE then Some (Inl (Undefined Buffer_overflow)) else Writen (take n line) wr)"

definition FD_SET :: "int \<Rightarrow> int set \<Rightarrow> int set outcome" where
  "FD_SET fd S = (if 0 \<le> fd \<and> fd < int FD_SETSIZE then Inr (insert fd S) else Inl (Undefined Buffer_overflow))"

definition write_get_cmd :: "wkernel \<Rightarrow> nat \<Rightarrow> web \<Rightarrow> web outcome option" where
  "write_get_cmd k i s =
     (let f = wfiles s ! i in
      rbind (send_get (f_name f) (w_write k i)) (\<lambda>(sent, _).
      case FD_SET (f_fd f) (wrset s) of
        Inl e \<Rightarrow> Some (Inl e)
      | Inr rs \<Rightarrow> Some (Inr (s\<lparr>wlog := wlog s @ [Wrote i sent], wfiles := (wfiles s)[i := f\<lparr>f_flags := F_READING\<rparr>],
                    wrset := rs, maxfd := max (maxfd s) (f_fd f)\<rparr>))))"

definition start_connect :: "wkernel \<Rightarrow> gai \<Rightarrow> nat \<Rightarrow> web \<Rightarrow> web outcome option" where
  "start_connect k gai i s =
     (let f = wfiles s ! i in
      case Host_serv gai (Some (f_host f)) (Some ''80'') 0 SOCK_STREAM of
        Inl e \<Rightarrow> Some (Inl e)
      | Inr [] \<Rightarrow> Some (Inl (Undefined Null_deref))
      | Inr (ai # _) \<Rightarrow>
          (let fd = w_socket k i (wfds s) in
           if fd < 0 then Some (Inl (Err_sys ''socket error''))
           else
             (let f = f\<lparr>f_fd := fd\<rparr>;
                  s = s\<lparr>wfiles := (wfiles s)[i := f], wfds := fd # wfds s, wlog := wlog s @ [Started i fd]\<rparr>
              in if \<not> w_fcntl k fd then Some (Inl (Err_sys ''fcntl error''))
                 else case w_connect k i (ai_addr ai) of
                   None \<Rightarrow> write_get_cmd k i s
                 | Some e \<Rightarrow>
                     if e \<noteq> EINPROGRESS then Some (Inl (Err_sys ''nonblocking connect error''))
                     else case FD_SET fd (wrset s) of
                       Inl e \<Rightarrow> Some (Inl e)
                     | Inr rs \<Rightarrow>
                         (case FD_SET fd (wwset s) of
                            Inl e \<Rightarrow> Some (Inl e)
                          | Inr ws \<Rightarrow>
                              Some (Inr (s\<lparr>wfiles := (wfiles s)[i := f\<lparr>f_flags := F_CONNECTING\<rparr>],
                                wrset := rs, wwset := ws, maxfd := max (maxfd s) fd\<rparr>))))))"

text \<open>The two functions leave the counters alone.\<close>

lemma write_get_cmd_Inr:
  "write_get_cmd k i s = Some (Inr t) \<longleftrightarrow>
    (\<exists>sent wr. send_get (f_name (wfiles s ! i)) (w_write k i) = Some (Inr (sent, wr)) \<and>
       0 \<le> f_fd (wfiles s ! i) \<and> f_fd (wfiles s ! i) < int FD_SETSIZE \<and>
       t = s\<lparr>wlog := wlog s @ [Wrote i sent], wfiles := (wfiles s)[i := (wfiles s ! i)\<lparr>f_flags := F_READING\<rparr>],
             wrset := insert (f_fd (wfiles s ! i)) (wrset s), maxfd := max (maxfd s) (f_fd (wfiles s ! i))\<rparr>)"
  by (auto simp: write_get_cmd_def rbind_Inr FD_SET_def Let_def)

lemma start_connect_Inr:
  assumes "start_connect k gai i s = Some (Inr t)"
  obtains fd f u where "fd = w_socket k i (wfds s)" "0 \<le> fd" "f = (wfiles s ! i)\<lparr>f_fd := fd\<rparr>"
    "u = s\<lparr>wfiles := (wfiles s)[i := f], wfds := fd # wfds s, wlog := wlog s @ [Started i fd]\<rparr>"
    "write_get_cmd k i u = Some (Inr t) \<or>
     fd < int FD_SETSIZE \<and> t = u\<lparr>wfiles := (wfiles u)[i := f\<lparr>f_flags := F_CONNECTING\<rparr>],
       wrset := insert fd (wrset u), wwset := insert fd (wwset u), maxfd := max (maxfd u) fd\<rparr>"
  using assms by (auto simp: start_connect_def Let_def FD_SET_def split: sum.splits list.splits option.splits if_splits)

lemma start_connect_counts:
  assumes "start_connect k gai i s = Some (Inr t)"
  shows "nconn t = nconn s \<and> nlefttoconn t = nlefttoconn s \<and> nlefttoread t = nlefttoread s \<and> length (wfiles t) = length (wfiles s)"
  using assms by (rule start_connect_Inr) (auto simp: write_get_cmd_Inr)

text \<open>The inner loop: open connections while there may be more and files are left.\<close>

function web_fill :: "wkernel \<Rightarrow> gai \<Rightarrow> int \<Rightarrow> web \<Rightarrow> web outcome option" where
  "web_fill k gai maxnconn s =
     (if nconn s < maxnconn \<and> nlefttoconn s > 0
      then (let i = find_slot (\<lambda>f. f_flags f = 0) (wfiles s) in
            if i = length (wfiles s) then Some (Inl (Err_quit ''nothing found''))
            else case start_connect k gai i s of
                None \<Rightarrow> None
              | Some (Inl e) \<Rightarrow> Some (Inl e)
              | Some (Inr s) \<Rightarrow> web_fill k gai maxnconn (s\<lparr>nconn := nconn s + 1, nlefttoconn := nlefttoconn s - 1\<rparr>))
      else Some (Inr s))"
  by pat_completeness auto
termination
  by (relation "measure (\<lambda>(k, gai, m, s). nat (nlefttoconn s))") (auto dest: start_connect_counts)

declare web_fill.simps [simp del]

text \<open>The body of the loop over the files, for the sets \<open>rs\<close> and \<open>ws\<close> that \<open>select\<close> left.\<close>

definition read_count :: "arrival \<Rightarrow> int" where
  "read_count a = (case a of Data bs \<Rightarrow> int (length (take MAXLINE bs)) | Eof \<Rightarrow> 0 | Fail _ \<Rightarrow> -1)"

definition web_serve :: "wkernel \<Rightarrow> wround \<Rightarrow> int set \<Rightarrow> int set \<Rightarrow> nat \<Rightarrow> web \<Rightarrow> web outcome option" where
  "web_serve k r rs ws i s =
     (let f = wfiles s ! i; flags = f_flags f; fd = f_fd f in
      if flags = 0 \<or> and flags F_DONE \<noteq> 0 then Some (Inr s)
      else if and flags F_CONNECTING \<noteq> 0 \<and> (fd \<in> rs \<or> fd \<in> ws) then
        write_get_cmd k i (s\<lparr>wlog := wlog s @ (if r_soerror r i then [Connect_failed i] else []) @ [Established i],
          wwset := wwset s - {fd}\<rparr>)
      else if and flags F_READING \<noteq> 0 \<and> fd \<in> rs then
        (let n = read_count (r_read r i) in
         if n < 0 then Some (Inl (Err_sys ''read error''))
         else if n = 0 then
           (if \<not> w_close k fd then Some (Inl (Err_sys ''close error''))
            else Some (Inr (s\<lparr>wlog := wlog s @ [At_eof i], wfds := remove1 fd (wfds s),
                   wfiles := (wfiles s)[i := f\<lparr>f_flags := F_DONE\<rparr>], wrset := wrset s - {fd},
                   nconn := nconn s - 1, nlefttoread := nlefttoread s - 1\<rparr>)))
         else Some (Inr (s\<lparr>wlog := wlog s @ [Got i n]\<rparr>)))
      else Some (Inr s))"

primrec web_pass :: "wkernel \<Rightarrow> wround \<Rightarrow> int set \<Rightarrow> int set \<Rightarrow> nat list \<Rightarrow> web \<Rightarrow> web outcome option" where
  "web_pass k r rs ws [] s = Some (Inr s)"
| "web_pass k r rs ws (i # is) s = rbind (web_serve k r rs ws i s) (web_pass k r rs ws is)"

definition web_round :: "wkernel \<Rightarrow> gai \<Rightarrow> int \<Rightarrow> wround \<Rightarrow> web \<Rightarrow> web outcome option" where
  "web_round k gai maxnconn r s =
     rbind (web_fill k gai maxnconn s) (\<lambda>s.
     case r_select r {fd \<in> wrset s. fd \<le> maxfd s} {fd \<in> wwset s. fd \<le> maxfd s} of
       None \<Rightarrow> Some (Inl (Err_sys ''select error''))
     | Some (rs, ws) \<Rightarrow> web_pass k r rs ws [0..<length (wfiles s)] s)"

text \<open>The state at the test of the outer loop after some rounds; it is left when \<open>nlefttoread\<close> is 0.\<close>

primrec web_run :: "wkernel \<Rightarrow> gai \<Rightarrow> int \<Rightarrow> wround list \<Rightarrow> web \<Rightarrow> web outcome option" where
  "web_run k gai maxnconn [] s = Some (Inr s)"
| "web_run k gai maxnconn (r # rs) s =
     (if nlefttoread s > 0 then rbind (web_round k gai maxnconn r s) (web_run k gai maxnconn rs) else Some (Inr s))"

text \<open>\<open>home_page\<close>: the numbers of bytes it read.\<close>

fun home_read :: "arrival list \<Rightarrow> int list outcome option" where
  "home_read [] = None"
| "home_read (a # as) =
     (let n = read_count a in
      if n < 0 then Some (Inl (Err_sys ''read error'')) else if n = 0 then Some (Inr [])
      else rbind (home_read as) (\<lambda>ns. Some (Inr (n # ns))))"

definition home_page ::
  "kernel \<Rightarrow> gai \<Rightarrow> answer list \<Rightarrow> arrival list \<Rightarrow> string \<Rightarrow> string \<Rightarrow> int list \<Rightarrow> (byte list \<times> int list \<times> int list) outcome option" where
  "home_page k gai wr rd host fname fds =
     rbind (Some (tcp_connect k gai (Some host) (Some ''80'') fds)) (\<lambda>(fd, fds).
     rbind (send_get fname wr) (\<lambda>(sent, _).
     rbind (home_read rd) (\<lambda>ns.
     rbind (Some (Close k fd fds)) (\<lambda>fds. Some (Inr (sent, ns, fds))))))"

definition web_start :: "string \<Rightarrow> string list \<Rightarrow> int list \<Rightarrow> web" where
  "web_start host names fds =
     (let nfiles = min (length names) MAXFILES in
      \<lparr>wfiles = map (\<lambda>name. \<lparr>f_name = name, f_host = host, f_fd = 0, f_flags = 0\<rparr>) (take nfiles names),
       nconn = 0, nlefttoconn = int nfiles, nlefttoread = int nfiles, maxfd = -1, wrset = {}, wwset = {},
       wfds = fds, wlog = []\<rparr>)"

text \<open>\<open>main\<close>: \<open>names\<close> are the arguments from the fourth on.\<close>

definition web_main ::
  "kernel \<Rightarrow> wkernel \<Rightarrow> gai \<Rightarrow> int \<Rightarrow> string \<Rightarrow> string \<Rightarrow> string list \<Rightarrow> answer list \<Rightarrow> arrival list \<Rightarrow> wround list
   \<Rightarrow> int list \<Rightarrow> web outcome option" where
  "web_main k0 k gai maxnconn host homepage names wr rd rounds fds =
     (if names = [] then Some (Inl (Err_quit ''usage: web <#conns> <hostname> <homepage> <file1> ...''))
      else rbind (home_page k0 gai wr rd host homepage fds) (\<lambda>(_, _, fds).
             web_run k gai maxnconn rounds (web_start host names fds)))"


subsection \<open>The invariant\<close>

definition active :: "wfile \<Rightarrow> bool" where
  "active f = (f_flags f = F_CONNECTING \<or> f_flags f = F_READING)"

definition connecting :: "wfile \<Rightarrow> bool" where
  "connecting f = (f_flags f = F_CONNECTING)"

definition unstarted :: "wfile \<Rightarrow> bool" where
  "unstarted f = (f_flags f = 0)"

definition unfinished :: "wfile \<Rightarrow> bool" where
  "unfinished f = (f_flags f \<noteq> F_DONE)"

lemmas flag_preds = active_def connecting_def unstarted_def unfinished_def F_defs

text \<open>What the log must say of a file, in this order, and nothing else of these kinds.\<close>

definition get_bytes :: "string \<Rightarrow> byte list" where
  "get_bytes name = take (length (GET_CMD name)) (bytes_of (snprintf_buf MAXLINE (GET_CMD name)) @ [0])"

definition stones :: "nat \<Rightarrow> wfile \<Rightarrow> wevent list" where
  "stones i f =
     (if unstarted f then [] else [Started i (f_fd f)]) @
     (if unstarted f \<or> connecting f then [] else [Wrote i (get_bytes (f_name f))]) @
     (if unfinished f then [] else [At_eof i])"

fun milestone :: "nat \<Rightarrow> wevent \<Rightarrow> bool" where
  "milestone i (Started j fd) = (i = j)"
| "milestone i (Wrote j bs) = (i = j)"
| "milestone i (At_eof j) = (i = j)"
| "milestone i _ = False"

definition counts_ok :: "web \<Rightarrow> bool" where
  "counts_ok s = (nconn s = int (length (filter active (wfiles s))) \<and>
     nlefttoconn s = int (length (filter unstarted (wfiles s))) \<and>
     nlefttoread s = int (length (filter unfinished (wfiles s))))"

definition sets_ok :: "int list \<Rightarrow> web \<Rightarrow> bool" where
  "sets_ok fds0 s = (distinct (map f_fd (filter active (wfiles s)) @ fds0) \<and>
     mset (wfds s) = mset (map f_fd (filter active (wfiles s)) @ fds0) \<and>
     wrset s = f_fd ` set (filter active (wfiles s)) \<and> wwset s = f_fd ` set (filter connecting (wfiles s)) \<and>
     (\<forall>fd \<in> wrset s. 0 \<le> fd \<and> fd < int FD_SETSIZE \<and> fd \<le> maxfd s))"

definition log_ok :: "web \<Rightarrow> bool" where
  "log_ok s = (\<forall>i < length (wfiles s). filter (milestone i) (wlog s) = stones i (wfiles s ! i))"

definition f_key :: "wfile \<Rightarrow> string \<times> string" where
  "f_key f = (f_name f, f_host f)"

definition flags_ok :: "wfile \<Rightarrow> bool" where
  "flags_ok f = (f_flags f \<in> {0, F_CONNECTING, F_READING, F_DONE})"

definition web_inv :: "(string \<times> string) list \<Rightarrow> int list \<Rightarrow> web \<Rightarrow> bool" where
  "web_inv names fds0 s = (map f_key (wfiles s) = names \<and> list_all flags_ok (wfiles s) \<and>
     counts_ok s \<and> sets_ok fds0 s \<and> log_ok s)"

lemma send_get_bytes:
  assumes "send_get name wr = Some (Inr (sent, wr'))"
  shows "sent = get_bytes name"
proof -
  have "Writen (get_bytes name) wr = Some (Inr (sent, wr'))"
    using assms by (auto simp: send_get_def get_bytes_def Let_def split: if_splits)
  then show ?thesis
    using writen_loop_spec [of "length (get_bytes name)" "get_bytes name" "[]" wr]
    by (auto simp: Writen_def writen_def split: if_splits)
qed

text \<open>\<open>web_begin\<close>: the body of the inner loop.\<close>

definition web_begin :: "web \<Rightarrow> web" where
  "web_begin s = s\<lparr>nconn := nconn s + 1, nlefttoconn := nlefttoconn s - 1\<rparr>"

text \<open>The new entry and state after \<open>start_connect\<close>, in both cases.\<close>

lemma start_connect_state:
  assumes "start_connect k gai i s = Some (Inr t)" "i < length (wfiles s)"
  obtains fd f where "fd = w_socket k i (wfds s)" "0 \<le> fd" "fd < int FD_SETSIZE" "f_key f = f_key (wfiles s ! i)" "f_fd f = fd" "active f"
    "wfiles t = (wfiles s)[i := f]" "wfds t = fd # wfds s" "wrset t = insert fd (wrset s)"
    "wwset t = (if connecting f then insert fd (wwset s) else wwset s)" "maxfd t = max (maxfd s) fd"
    "wlog t = wlog s @ stones i f"
proof (rule start_connect_Inr [OF assms(1)])
  fix fd f u
  assume fd: "fd = w_socket k i (wfds s)" "0 \<le> fd" and f: "f = (wfiles s ! i)\<lparr>f_fd := fd\<rparr>"
    and u: "u = s\<lparr>wfiles := (wfiles s)[i := f], wfds := fd # wfds s, wlog := wlog s @ [Started i fd]\<rparr>"
    and t: "write_get_cmd k i u = Some (Inr t) \<or>
     fd < int FD_SETSIZE \<and> t = u\<lparr>wfiles := (wfiles u)[i := f\<lparr>f_flags := F_CONNECTING\<rparr>],
       wrset := insert fd (wrset u), wwset := insert fd (wwset u), maxfd := max (maxfd u) fd\<rparr>"
  from t show ?thesis
  proof
    assume "write_get_cmd k i u = Some (Inr t)"
    then obtain sent wr where g: "send_get (f_name f) (w_write k i) = Some (Inr (sent, wr))" and lt: "fd < int FD_SETSIZE"
      and t: "t = u\<lparr>wlog := wlog u @ [Wrote i sent], wfiles := (wfiles u)[i := f\<lparr>f_flags := F_READING\<rparr>],
             wrset := insert fd (wrset u), maxfd := max (maxfd u) fd\<rparr>"
      using assms(2) by (auto simp: write_get_cmd_Inr u f)
    have "wlog t = wlog s @ stones i (f\<lparr>f_flags := F_READING\<rparr>)"
      using send_get_bytes [OF g] by (simp add: t u f stones_def flag_preds)
    then show ?thesis
      by (rule that [OF fd lt, of "f\<lparr>f_flags := F_READING\<rparr>", rotated -1]) (simp_all add: t u f flag_preds f_key_def)
  next
    assume "fd < int FD_SETSIZE \<and> t = u\<lparr>wfiles := (wfiles u)[i := f\<lparr>f_flags := F_CONNECTING\<rparr>],
       wrset := insert fd (wrset u), wwset := insert fd (wwset u), maxfd := max (maxfd u) fd\<rparr>"
    then show ?thesis
      by (intro that [OF fd, of "f\<lparr>f_flags := F_CONNECTING\<rparr>"]) (simp_all add: u f stones_def flag_preds f_key_def)
  qed
qed

lemma milestones_stones: "filter (milestone j) (stones i f) = (if i = j then stones i f else [])"
  by (simp add: stones_def)

lemma flags_cases:
  assumes "flags_ok f"
  obtains "f_flags f = 0" | "f_flags f = F_CONNECTING" | "f_flags f = F_READING" | "f_flags f = F_DONE"
  using assms by (auto simp: flags_ok_def)

lemma sets_open: "sets_ok fds0 s \<Longrightarrow> set (wfds s) = wrset s \<union> set fds0"
  using mset_eq_setD [of "wfds s" "map f_fd (filter active (wfiles s)) @ fds0"] by (simp add: sets_ok_def)

lemma log_update:
  assumes "log_ok s" "wfiles t = (wfiles s)[i := f]" "wlog t = wlog s @ ev"
    and "\<And>j. filter (milestone j) ev = (if j = i then es else [])" "stones i (wfiles s ! i) @ es = stones i f"
  shows "log_ok t"
  unfolding log_ok_def
proof (intro allI impI)
  fix j assume "j < length (wfiles t)"
  then have "j < length (wfiles s)" by (simp add: assms(2))
  then show "filter (milestone j) (wlog t) = stones j (wfiles t ! j)"
    using assms(1,4,5) by (cases "i = j") (auto simp: log_ok_def assms(2,3))
qed

text \<open>The kernel never gives out a descriptor that is open.\<close>

definition fresh_sockets :: "wkernel \<Rightarrow> bool" where
  "fresh_sockets k = (\<forall>i fds. 0 \<le> w_socket k i fds \<longrightarrow> w_socket k i fds \<notin> set fds)"

lemma begin_inv:
  assumes inv: "web_inv names fds0 s" and i: "i < length (wfiles s)" and z: "unstarted (wfiles s ! i)"
    and st: "start_connect k gai i s = Some (Inr t)" and fresh: "fresh_sockets k"
  shows "web_inv names fds0 (web_begin t)"
proof (rule start_connect_state [OF st i])
  fix fd f
  assume fd: "fd = w_socket k i (wfds s)" "0 \<le> fd" "fd < int FD_SETSIZE" and f: "f_key f = f_key (wfiles s ! i)" "f_fd f = fd" "active f"
    and t: "wfiles t = (wfiles s)[i := f]" "wfds t = fd # wfds s" "wrset t = insert fd (wrset s)"
    "wwset t = (if connecting f then insert fd (wwset s) else wwset s)" "maxfd t = max (maxfd s) fd"
    "wlog t = wlog s @ stones i f"
  let ?g = "wfiles s ! i"
  obtain ys zs where x: "\<And>P. filter P (wfiles s) = filter P ys @ (if P ?g then [?g] else []) @ filter P zs"
    "\<And>P v. filter P ((wfiles s)[i := v]) = filter P ys @ (if P v then [v] else []) @ filter P zs"
    using table_split [OF i] by blast
  have g: "\<not> active ?g" "\<not> connecting ?g" "unfinished ?g" "unstarted ?g" using z by (simp_all add: flag_preds)
  have fp: "\<not> unstarted f" "unfinished f" "flags_ok f" using f(3) by (auto simp: flag_preds flags_ok_def)
  have I: "map f_key (wfiles s) = names" "list_all flags_ok (wfiles s)" "counts_ok s" "sets_ok fds0 s" "log_ok s"
    using inv by (simp_all add: web_inv_def)
  have "map f_key (wfiles t) = names" using I(1) f(1) by (simp add: t(1) map_update_same)
  moreover have "list_all flags_ok (wfiles t)" using I(2) fp(3) by (simp add: t(1) list_all_update)
  moreover have "counts_ok (web_begin t)"
    using I(3) start_connect_counts [OF st] f(3) fp g by (simp add: counts_ok_def web_begin_def t(1) x)
  moreover have "sets_ok fds0 (web_begin t)"
  proof -
    have "fd \<notin> wrset s" "fd \<notin> set fds0" using fresh sets_open [OF I(4)] fd(1,2) by (auto simp: fresh_sockets_def)
    then show ?thesis using I(4) f(3) g by (auto simp: sets_ok_def web_begin_def t(1-5) x f(2) fd(2,3) le_max_iff_disj)
  qed
  moreover have "log_ok (web_begin t)"
    using I(5)
  proof (rule log_update)
    show "wfiles (web_begin t) = (wfiles s)[i := f]" "wlog (web_begin t) = wlog s @ stones i f"
      by (simp_all add: web_begin_def t)
    show "filter (milestone j) (stones i f) = (if j = i then stones i f else [])" for j
      using milestones_stones [of j i f] by auto
    show "stones i ?g @ stones i f = stones i f" using g by (simp add: stones_def [of i ?g])
  qed
  ultimately show ?thesis by (simp add: web_inv_def web_begin_def)
qed

lemma find_unstarted:
  assumes "web_inv names fds0 s" "nlefttoconn s > 0"
  shows "find_slot (\<lambda>f. f_flags f = 0) (wfiles s) < length (wfiles s)"
    and "unstarted (wfiles s ! find_slot (\<lambda>f. f_flags f = 0) (wfiles s))"
proof -
  have "filter unstarted (wfiles s) \<noteq> []" using assms by (auto simp: web_inv_def counts_ok_def)
  then have "\<not> (\<forall>f \<in> set (wfiles s). f_flags f \<noteq> 0)" by (auto simp: filter_empty_conv unstarted_def)
  then show l: "find_slot (\<lambda>f. f_flags f = 0) (wfiles s) < length (wfiles s)"
    using find_slot_none [of "\<lambda>f. f_flags f = 0" "wfiles s"] find_slot_le [of "\<lambda>f. f_flags f = 0" "wfiles s"] by linarith
  from find_slot_free [OF this] show "unstarted (wfiles s ! find_slot (\<lambda>f. f_flags f = 0) (wfiles s))"
    by (simp add: unstarted_def)
qed

text \<open>How much is left to do, two steps per file, less the reads that only brought data.\<close>

definition reading :: "wfile \<Rightarrow> bool" where
  "reading f = (f_flags f = F_READING)"

fun is_got :: "wevent \<Rightarrow> bool" where
  "is_got (Got i n) = True"
| "is_got _ = False"

definition gots :: "web \<Rightarrow> nat" where
  "gots s = length (filter is_got (wlog s))"

definition potential :: "web \<Rightarrow> int" where
  "potential s = 2 * int (length (filter unfinished (wfiles s))) - int (length (filter reading (wfiles s))) - int (gots s)"

lemma is_got_stones: "filter is_got (stones i f) = []"
  by (simp add: stones_def)

lemma begin_potential:
  assumes "i < length (wfiles s)" "unstarted (wfiles s ! i)" "start_connect k gai i s = Some (Inr t)"
  shows "potential (web_begin t) \<le> potential s"
proof (rule start_connect_state [OF assms(3,1)])
  fix f
  assume f: "active f" "wfiles t = (wfiles s)[i := f]" "wlog t = wlog s @ stones i f"
  have "\<not> reading (wfiles s ! i)" "unfinished (wfiles s ! i)" "unfinished f"
    using assms(2) f(1) by (auto simp: flag_preds reading_def)
  then show ?thesis
    by (rule_tac table_split [OF assms(1)]) (simp add: potential_def gots_def web_begin_def f(2,3) is_got_stones)
qed

lemma fill_spec:
  assumes "fresh_sockets k" "web_inv names fds0 s" "web_fill k gai m s = Some (Inr t)"
  shows "web_inv names fds0 t \<and> (m \<le> nconn t \<or> nlefttoconn t \<le> 0) \<and> nconn t \<le> max m (nconn s) \<and> potential t \<le> potential s
    \<and> nlefttoread t = nlefttoread s"
  using assms
proof (induction k gai m s rule: web_fill.induct)
  case (1 k gai m s)
  let ?i = "find_slot (\<lambda>f. f_flags f = 0) (wfiles s)"
  show ?case
  proof (cases "nconn s < m \<and> nlefttoconn s > 0")
    case True
    note free = find_unstarted [OF "1.prems"(2) conjunct2 [OF True]]
    then obtain u where u: "start_connect k gai ?i s = Some (Inr u)" and r: "web_fill k gai m (web_begin u) = Some (Inr t)"
      using "1.prems"(3) True by (subst (asm) web_fill.simps) (auto simp: Let_def web_begin_def split: option.splits sum.splits)
    have inv: "web_inv names fds0 (web_begin u)" by (rule begin_inv [OF "1.prems"(2) free u "1.prems"(1)])
    have c: "nconn (web_begin u) = nconn s + 1" "nlefttoread (web_begin u) = nlefttoread s"
      using start_connect_counts [OF u] by (simp_all add: web_begin_def)
    have IH: "web_inv names fds0 t \<and> (m \<le> nconn t \<or> nlefttoconn t \<le> 0) \<and> nconn t \<le> max m (nconn (web_begin u))
        \<and> potential t \<le> potential (web_begin u) \<and> nlefttoread t = nlefttoread (web_begin u)"
      using "1.IH" [OF True refl _ u refl] free(1) "1.prems"(1) inv r by (simp add: web_begin_def)
    then show ?thesis using begin_potential [OF free u] c True by auto
  next
    case False
    with "1.prems" have "t = s" by (subst (asm) (1) web_fill.simps) auto
    with False "1.prems" show ?thesis by auto
  qed
qed

lemma start_connect_error:
  assumes "start_connect k gai i s = Some (Inl e)"
  shows "e \<noteq> Err_quit ''nothing found''"
  using assms
  by (auto simp: start_connect_def write_get_cmd_def send_get_def Writen_def Host_serv_def FD_SET_def Let_def rbind_def
      split: sum.splits list.splits option.splits if_splits)

text \<open>The exit with \<open>"nothing found"\<close> is never taken.\<close>

lemma fill_error:
  assumes "fresh_sockets k" "web_inv names fds0 s" "web_fill k gai m s = Some (Inl e)"
  shows "e \<noteq> Err_quit ''nothing found''"
  using assms
proof (induction k gai m s rule: web_fill.induct)
  case (1 k gai m s)
  let ?i = "find_slot (\<lambda>f. f_flags f = 0) (wfiles s)"
  have True: "nconn s < m \<and> nlefttoconn s > 0"
    using "1.prems"(3) by (subst (asm) web_fill.simps) (auto split: if_splits)
  note free = find_unstarted [OF "1.prems"(2) conjunct2 [OF True]]
  from "1.prems"(3) free(1) True have c: "start_connect k gai ?i s = Some (Inl e) \<or>
      (\<exists>u. start_connect k gai ?i s = Some (Inr u) \<and> web_fill k gai m (web_begin u) = Some (Inl e))"
    by (subst (asm) web_fill.simps) (auto simp: Let_def web_begin_def split: option.splits sum.splits)
  then show ?case
  proof
    assume "\<exists>u. start_connect k gai ?i s = Some (Inr u) \<and> web_fill k gai m (web_begin u) = Some (Inl e)"
    then obtain u where u: "start_connect k gai ?i s = Some (Inr u)" and r: "web_fill k gai m (web_begin u) = Some (Inl e)"
      by blast
    have inv: "web_inv names fds0 (web_begin u)" by (rule begin_inv [OF "1.prems"(2) free u "1.prems"(1)])
    show ?case using "1.IH" [OF True refl _ u refl] free(1) "1.prems"(1) inv r by (simp add: web_begin_def)
  qed (rule start_connect_error)
qed

subsection \<open>Serving a file\<close>

lemma web_serve_eq:
  assumes "flags_ok (wfiles s ! i)"
  shows "web_serve k r rs ws i s =
     (let f = wfiles s ! i; fd = f_fd f; n = read_count (r_read r i) in
      if connecting f \<and> (fd \<in> rs \<or> fd \<in> ws) then
        write_get_cmd k i (s\<lparr>wlog := wlog s @ (if r_soerror r i then [Connect_failed i] else []) @ [Established i],
          wwset := wwset s - {fd}\<rparr>)
      else if reading f \<and> fd \<in> rs then
        (if n < 0 then Some (Inl (Err_sys ''read error''))
         else if n = 0 then
           (if \<not> w_close k fd then Some (Inl (Err_sys ''close error''))
            else Some (Inr (s\<lparr>wlog := wlog s @ [At_eof i], wfds := remove1 fd (wfds s),
                   wfiles := (wfiles s)[i := f\<lparr>f_flags := F_DONE\<rparr>], wrset := wrset s - {fd},
                   nconn := nconn s - 1, nlefttoread := nlefttoread s - 1\<rparr>)))
         else Some (Inr (s\<lparr>wlog := wlog s @ [Got i n]\<rparr>)))
      else Some (Inr s))"
  using assms by (rule flags_cases) (simp_all add: web_serve_def Let_def flag_preds reading_def)

lemma serve_established:
  assumes inv: "web_inv names fds0 s" and i: "i < length (wfiles s)" and c: "connecting (wfiles s ! i)"
    and ev: "\<And>j. filter (milestone j) ev = []" "filter is_got ev = []"
    and st: "write_get_cmd k i (s\<lparr>wlog := wlog s @ ev, wwset := wwset s - {f_fd (wfiles s ! i)}\<rparr>) = Some (Inr t)"
  shows "web_inv names fds0 t \<and> potential t < potential s \<and> nconn t = nconn s \<and> (\<exists>f. wfiles t = (wfiles s)[i := f])"
proof -
  let ?g = "wfiles s ! i" and ?f = "(wfiles s ! i)\<lparr>f_flags := F_READING\<rparr>"
  obtain sent wr where g: "send_get (f_name ?g) (w_write k i) = Some (Inr (sent, wr))"
    and t: "t = s\<lparr>wlog := wlog s @ ev @ [Wrote i sent], wwset := wwset s - {f_fd ?g}, wfiles := (wfiles s)[i := ?f],
      wrset := insert (f_fd ?g) (wrset s), maxfd := max (maxfd s) (f_fd ?g)\<rparr>"
    using st by (auto simp: write_get_cmd_Inr)
  note sent = send_get_bytes [OF g]
  obtain ys zs where x: "\<And>P. filter P (wfiles s) = filter P ys @ (if P ?g then [?g] else []) @ filter P zs"
    "\<And>P v. filter P ((wfiles s)[i := v]) = filter P ys @ (if P v then [v] else []) @ filter P zs"
    using table_split [OF i] by blast
  have gp: "active ?g" "unfinished ?g" "\<not> unstarted ?g" "\<not> reading ?g" using c by (simp_all add: flag_preds reading_def)
  have fp: "active ?f" "\<not> connecting ?f" "unfinished ?f" "\<not> unstarted ?f" "flags_ok ?f" "reading ?f"
    by (simp_all add: flag_preds flags_ok_def reading_def)
  have I: "map f_key (wfiles s) = names" "list_all flags_ok (wfiles s)" "counts_ok s" "sets_ok fds0 s" "log_ok s"
    using inv by (simp_all add: web_inv_def)
  have "map f_key (wfiles t) = names" using I(1) by (simp add: t map_update_same f_key_def)
  moreover have "list_all flags_ok (wfiles t)" using I(2) fp(5) by (simp add: t list_all_update)
  moreover have "counts_ok t" using I(3) gp fp by (simp add: counts_ok_def t x)
  moreover have "sets_ok fds0 t"
  proof -
    have sub: "f_fd ` set (filter connecting zs) \<subseteq> f_fd ` set (filter active zs)" for zs
      by (auto simp: connecting_def active_def)
    have "f_fd ?g \<notin> f_fd ` set (filter active ys) \<union> f_fd ` set (filter active zs)"
      using I(4) gp by (simp add: sets_ok_def x)
    then have "f_fd ?g \<notin> f_fd ` set (filter connecting ys) \<union> f_fd ` set (filter connecting zs)"
      using sub [of ys] sub [of zs] by blast
    moreover have "wwset s = insert (f_fd ?g) (f_fd ` set (filter connecting ys) \<union> f_fd ` set (filter connecting zs))"
      using I(4) c by (auto simp: sets_ok_def x)
    ultimately have "wwset t = f_fd ` set (filter connecting ys) \<union> f_fd ` set (filter connecting zs)" by (simp add: t)
    then show ?thesis using I(4) gp fp c by (auto simp: sets_ok_def t x le_max_iff_disj)
  qed
  moreover have "log_ok t"
    using I(5)
  proof (rule log_update)
    show "wfiles t = (wfiles s)[i := ?f]" "wlog t = wlog s @ ev @ [Wrote i sent]" by (simp_all add: t)
    show "filter (milestone j) (ev @ [Wrote i sent]) = (if j = i then [Wrote i sent] else [])" for j by (simp add: ev)
    show "stones i ?g @ [Wrote i sent] = stones i ?f" using c by (simp add: stones_def sent flag_preds)
  qed
  moreover have "potential t < potential s" using gp fp by (simp add: potential_def gots_def t x ev)
  ultimately show ?thesis by (auto simp: web_inv_def t)
qed

lemma serve_eof:
  assumes inv: "web_inv names fds0 s" and i: "i < length (wfiles s)" and c: "reading (wfiles s ! i)"
    and t: "t = s\<lparr>wlog := wlog s @ [At_eof i], wfds := remove1 (f_fd (wfiles s ! i)) (wfds s),
      wfiles := (wfiles s)[i := (wfiles s ! i)\<lparr>f_flags := F_DONE\<rparr>], wrset := wrset s - {f_fd (wfiles s ! i)},
      nconn := nconn s - 1, nlefttoread := nlefttoread s - 1\<rparr>"
  shows "web_inv names fds0 t \<and> potential t < potential s"
proof -
  let ?g = "wfiles s ! i" and ?f = "(wfiles s ! i)\<lparr>f_flags := F_DONE\<rparr>"
  obtain ys zs where x: "\<And>P. filter P (wfiles s) = filter P ys @ (if P ?g then [?g] else []) @ filter P zs"
    "\<And>P v. filter P ((wfiles s)[i := v]) = filter P ys @ (if P v then [v] else []) @ filter P zs"
    using table_split [OF i] by blast
  have gp: "active ?g" "unfinished ?g" "\<not> unstarted ?g" "\<not> connecting ?g" using c by (simp_all add: flag_preds reading_def)
  have fp: "\<not> active ?f" "\<not> connecting ?f" "\<not> unfinished ?f" "\<not> unstarted ?f" "flags_ok ?f" "\<not> reading ?f"
    by (simp_all add: flag_preds flags_ok_def reading_def)
  have I: "map f_key (wfiles s) = names" "list_all flags_ok (wfiles s)" "counts_ok s" "sets_ok fds0 s" "log_ok s"
    using inv by (simp_all add: web_inv_def)
  have "map f_key (wfiles t) = names" using I(1) by (simp add: t map_update_same f_key_def)
  moreover have "list_all flags_ok (wfiles t)" using I(2) fp(5) by (simp add: t list_all_update)
  moreover have "counts_ok t" using I(3) gp fp by (simp add: counts_ok_def t x)
  moreover have "sets_ok fds0 t"
  proof -
    let ?A = "f_fd ` set (filter active ys) \<union> f_fd ` set (filter active zs)"
    have "wrset s = insert (f_fd ?g) ?A" "f_fd ?g \<notin> ?A" using I(4) gp by (auto simp: sets_ok_def x)
    then have "wrset t = ?A" by (simp add: t)
    then show ?thesis using I(4) gp fp by (auto simp: sets_ok_def t x)
  qed
  moreover have "log_ok t"
    using I(5)
  proof (rule log_update)
    show "wfiles t = (wfiles s)[i := ?f]" "wlog t = wlog s @ [At_eof i]" by (simp_all add: t)
    show "filter (milestone j) [At_eof i] = (if j = i then [At_eof i] else [])" for j by simp
    show "stones i ?g @ [At_eof i] = stones i ?f" using c by (simp add: stones_def flag_preds reading_def)
  qed
  moreover have "potential t < potential s" using gp fp c by (simp add: potential_def gots_def t x)
  ultimately show ?thesis by (auto simp: web_inv_def)
qed

definition hot :: "int set \<Rightarrow> int set \<Rightarrow> wfile \<Rightarrow> bool" where
  "hot rs ws f = (connecting f \<and> (f_fd f \<in> rs \<or> f_fd f \<in> ws) \<or> reading f \<and> f_fd f \<in> rs)"

lemma serve_spec:
  assumes inv: "web_inv names fds0 s" and i: "i < length (wfiles s)" and st: "web_serve k r rs ws i s = Some (Inr t)"
  shows "web_inv names fds0 t \<and> potential t \<le> potential s \<and> (hot rs ws (wfiles s ! i) \<longrightarrow> potential t < potential s)
    \<and> nconn t \<le> nconn s \<and> (\<exists>f. wfiles t = (wfiles s)[i := f])"
proof -
  let ?f = "wfiles s ! i" and ?n = "read_count (r_read r i)"
  have "flags_ok ?f" using inv i by (auto simp: web_inv_def list_all_length)
  note eq = web_serve_eq [OF this]
  consider (conn) "connecting ?f \<and> (f_fd ?f \<in> rs \<or> f_fd ?f \<in> ws)" | (read) "reading ?f \<and> f_fd ?f \<in> rs \<and> \<not> connecting ?f"
    | (none) "\<not> hot rs ws ?f" by (auto simp: hot_def flag_preds reading_def)
  then show ?thesis
  proof cases
    case conn
    let ?ev = "(if r_soerror r i then [Connect_failed i] else []) @ [Established i]"
    have "write_get_cmd k i (s\<lparr>wlog := wlog s @ ?ev, wwset := wwset s - {f_fd ?f}\<rparr>) = Some (Inr t)"
      using st conn by (simp add: eq Let_def)
    from serve_established [OF inv i _ _ _ this] conn show ?thesis by auto
  next
    case read
    then have "?n = 0 \<or> ?n > 0" using st by (auto simp: eq Let_def split: if_splits)
    then show ?thesis
    proof
      assume "?n = 0"
      then show ?thesis using serve_eof [OF inv i, of t] st read by (auto simp: eq Let_def split: if_splits)
    next
      assume "?n > 0"
      then have t: "t = s\<lparr>wlog := wlog s @ [Got i ?n]\<rparr>" using st read by (auto simp: eq Let_def split: if_splits)
      have "web_inv names fds0 t" using inv by (simp add: t web_inv_def counts_ok_def sets_ok_def log_ok_def)
      moreover have "wfiles t = (wfiles s)[i := ?f]" by (simp add: t)
      moreover have "potential t < potential s" "nconn t = nconn s" by (simp_all add: t potential_def gots_def)
      ultimately show ?thesis by (intro conjI impI exI [of _ ?f]) simp_all
    qed
  next
    case none
    then have "t = s" using st by (auto simp: eq Let_def hot_def split: if_splits)
    moreover have "wfiles s = (wfiles s)[i := ?f]" by simp
    ultimately show ?thesis using inv none by blast
  qed
qed

subsection \<open>Rounds\<close>

lemma pass_spec:
  assumes "web_inv names fds0 s" "\<forall>i \<in> set is. i < length (wfiles s)" "distinct is" "web_pass k r rs ws is s = Some (Inr t)"
  shows "web_inv names fds0 t \<and> potential t \<le> potential s \<and> nconn t \<le> nconn s
    \<and> ((\<exists>i \<in> set is. hot rs ws (wfiles s ! i)) \<longrightarrow> potential t < potential s)"
  using assms
proof (induction "is" arbitrary: s)
  case (Cons i "is")
  obtain u where u: "web_serve k r rs ws i s = Some (Inr u)" and r: "web_pass k r rs ws is u = Some (Inr t)"
    using Cons.prems(4) by (auto simp: rbind_Inr)
  have i: "i < length (wfiles s)" using Cons.prems(2) by simp
  note S = serve_spec [OF Cons.prems(1) i u]
  then obtain f where f: "wfiles u = (wfiles s)[i := f]" by blast
  have same: "wfiles u ! j = wfiles s ! j" if "j \<in> set is" for j
    using that Cons.prems(3) by (cases "j = i") (simp_all add: f)
  have "web_inv names fds0 t \<and> potential t \<le> potential u \<and> nconn t \<le> nconn u
    \<and> ((\<exists>i \<in> set is. hot rs ws (wfiles u ! i)) \<longrightarrow> potential t < potential u)"
    using Cons.IH [of u] S r Cons.prems(2,3) by (simp add: f)
  then show ?case using S same by auto
qed simp

lemma counts_sum: "web_inv names fds0 s \<Longrightarrow> nlefttoread s = nconn s + nlefttoconn s"
proof -
  have "list_all flags_ok xs \<Longrightarrow> length (filter unfinished xs) = length (filter active xs) + length (filter unstarted xs)" for xs
    by (induction xs) (auto simp: flags_ok_def flag_preds)
  then show "web_inv names fds0 s \<Longrightarrow> ?thesis" by (simp add: web_inv_def counts_ok_def)
qed

text \<open>
  \<open>select\<close> reports only descriptors it was asked about, and without a time-out it does not return before there is one.
\<close>

definition select_law :: "wround \<Rightarrow> bool" where
  "select_law r = (\<forall>R W rs ws. r_select r R W = Some (rs, ws) \<longrightarrow>
     rs \<subseteq> R \<and> ws \<subseteq> W \<and> (R \<union> W \<noteq> {} \<longrightarrow> rs \<union> ws \<noteq> {}))"

text \<open>The first argument of \<open>select\<close> leaves no descriptor out.\<close>

lemma select_all:
  assumes "web_inv names fds0 s"
  shows "{fd \<in> wrset s. fd \<le> maxfd s} = wrset s" "{fd \<in> wwset s. fd \<le> maxfd s} = wwset s"
proof -
  have m: "\<forall>fd \<in> wrset s. fd \<le> maxfd s" using assms by (simp add: web_inv_def sets_ok_def)
  then show "{fd \<in> wrset s. fd \<le> maxfd s} = wrset s" by auto
  have "wwset s \<subseteq> wrset s" using assms by (auto simp: web_inv_def sets_ok_def connecting_def active_def)
  then show "{fd \<in> wwset s. fd \<le> maxfd s} = wwset s" using m by auto
qed

lemma some_hot:
  assumes "web_inv names fds0 s" "nconn s > 0" "select_law r" "r_select r (wrset s) (wwset s) = Some (rs, ws)"
  shows "\<exists>i < length (wfiles s). hot rs ws (wfiles s ! i)"
proof -
  have S: "wrset s = f_fd ` set (filter active (wfiles s))" "wwset s = f_fd ` set (filter connecting (wfiles s))"
    and "filter active (wfiles s) \<noteq> []" using assms(1,2) by (auto simp: web_inv_def sets_ok_def counts_ok_def)
  then have "wrset s \<noteq> {}" by (simp only: set_empty image_is_empty not_False_eq_True)
  then have law: "rs \<subseteq> wrset s" "ws \<subseteq> wwset s" "rs \<union> ws \<noteq> {}"
    using assms(3,4) unfolding select_law_def by blast+
  then have "\<exists>f \<in> set (wfiles s). hot rs ws f"
    unfolding S by (fastforce simp: hot_def active_def connecting_def reading_def)
  then show ?thesis by (metis in_set_conv_nth)
qed

lemma round_spec:
  assumes "fresh_sockets k" "web_inv names fds0 s" "select_law r" "nlefttoread s > 0" "1 \<le> m"
    and "web_round k gai m r s = Some (Inr t)"
  shows "web_inv names fds0 t \<and> potential t < potential s \<and> nconn t \<le> max m (nconn s)"
proof -
  obtain u where u: "web_fill k gai m s = Some (Inr u)" and ru: "(case r_select r {fd \<in> wrset u. fd \<le> maxfd u} {fd \<in> wwset u. fd \<le> maxfd u} of
       None \<Rightarrow> Some (Inl (Err_sys ''select error''))
     | Some (rs, ws) \<Rightarrow> web_pass k r rs ws [0..<length (wfiles u)] u) = Some (Inr t)"
    using assms(6) by (auto simp: web_round_def rbind_Inr)
  note F = fill_spec [OF assms(1,2) u]
  then have inv: "web_inv names fds0 u" by simp
  from ru obtain rs ws where sel: "r_select r (wrset u) (wwset u) = Some (rs, ws)"
    and p: "web_pass k r rs ws [0..<length (wfiles u)] u = Some (Inr t)"
    unfolding select_all [OF inv] by (auto split: option.splits)
  have "nconn u > 0" using F counts_sum [of names fds0 u] assms(4,5) by linarith
  with some_hot [of names fds0 u r rs ws] F assms(3) sel
  obtain i where i: "i < length (wfiles u)" "hot rs ws (wfiles u ! i)" by blast
  have P: "web_inv names fds0 t \<and> potential t \<le> potential u \<and> nconn t \<le> nconn u
    \<and> ((\<exists>i \<in> set [0..<length (wfiles u)]. hot rs ws (wfiles u ! i)) \<longrightarrow> potential t < potential u)"
    by (rule pass_spec [OF _ _ _ p]) (use F in simp_all)
  have "\<exists>i \<in> set [0..<length (wfiles u)]. hot rs ws (wfiles u ! i)" using i by (intro bexI [of _ i]) simp_all
  with P F show ?thesis by auto
qed

lemma run_spec:
  assumes "fresh_sockets k" "web_inv names fds0 s" "list_all select_law rs" "1 \<le> m" "nconn s \<le> m"
    and "web_run k gai m rs s = Some (Inr t)"
  shows "web_inv names fds0 t \<and> nconn t \<le> m \<and> (nlefttoread t > 0 \<longrightarrow> potential t + int (length rs) \<le> potential s)"
  using assms
proof (induction rs arbitrary: s)
  case (Cons r rs)
  show ?case
  proof (cases "nlefttoread s > 0")
    case True
    then obtain u where u: "web_round k gai m r s = Some (Inr u)" "web_run k gai m rs u = Some (Inr t)"
      using Cons.prems(6) by (auto simp: rbind_Inr)
    have U: "web_inv names fds0 u \<and> potential u < potential s \<and> nconn u \<le> max m (nconn s)"
      by (rule round_spec [OF Cons.prems(1,2) _ True Cons.prems(4) u(1)]) (use Cons.prems(3) in simp)
    with Cons.IH [of u] u(2) Cons.prems show ?thesis by auto
  next
    case False
    with Cons.prems show ?thesis by auto
  qed
qed simp

lemma potential_ge: "web_inv names fds0 s \<Longrightarrow> nlefttoread s \<le> potential s + int (gots s)"
proof -
  have "length (filter reading xs) \<le> length (filter unfinished xs)" for xs
    by (induction xs) (auto simp: reading_def unfinished_def F_defs)
  then show "web_inv names fds0 s \<Longrightarrow> ?thesis"
    by (simp add: potential_def web_inv_def counts_ok_def)
qed

lemma start_inv:
  assumes "distinct fds"
  shows "web_inv (map (\<lambda>n. (n, host)) (take MAXFILES names)) fds (web_start host names fds)"
    and "potential (web_start host names fds) = 2 * int (min (length names) MAXFILES)"
proof -
  let ?s = "web_start host names fds"
  have w: "wfiles ?s = map (\<lambda>n. wfile.make n host 0 0) (take MAXFILES names)"
    by (simp add: web_start_def Let_def wfile.defs min_def)
  have p: "\<not> active (wfile.make n host 0 0)" "\<not> connecting (wfile.make n host 0 0)" "unstarted (wfile.make n host 0 0)"
    "unfinished (wfile.make n host 0 0)" "\<not> reading (wfile.make n host 0 0)" "flags_ok (wfile.make n host 0 0)"
    "stones i (wfile.make n host 0 0) = []" for n i
    by (simp_all add: flag_preds reading_def flags_ok_def stones_def wfile.defs)
  have F: "filter active (wfiles ?s) = []" "filter connecting (wfiles ?s) = []" "filter reading (wfiles ?s) = []"
    "filter unstarted (wfiles ?s) = wfiles ?s" "filter unfinished (wfiles ?s) = wfiles ?s"
    unfolding w filter_map comp_def by (simp_all add: p)
  have l: "length (wfiles ?s) = min (length names) MAXFILES" by (simp add: w)
  have v: "nconn ?s = 0" "nlefttoconn ?s = int (min (length names) MAXFILES)" "nlefttoread ?s = int (min (length names) MAXFILES)"
    "wrset ?s = {}" "wwset ?s = {}" "wfds ?s = fds" "wlog ?s = []" by (simp_all add: web_start_def Let_def)
  have "counts_ok ?s" by (simp add: counts_ok_def F l v)
  moreover have "sets_ok fds ?s" using assms by (simp add: sets_ok_def F v)
  moreover have "log_ok ?s" using p(7) by (simp add: log_ok_def v w)
  moreover have "list_all flags_ok (wfiles ?s)" by (simp add: w list_all_iff p)
  moreover have "map f_key (wfiles ?s) = map (\<lambda>n. (n, host)) (take MAXFILES names)" by (simp add: w f_key_def wfile.defs)
  ultimately show "web_inv (map (\<lambda>n. (n, host)) (take MAXFILES names)) fds ?s" by (simp add: web_inv_def)
  show "potential ?s = 2 * int (min (length names) MAXFILES)" by (simp add: potential_def gots_def F l v)
qed

subsection \<open>Calls that work\<close>

definition kind_kernel :: "wkernel \<Rightarrow> bool" where
  "kind_kernel k = ((\<forall>i fds. length fds < FD_SETSIZE \<longrightarrow> 0 \<le> w_socket k i fds \<and> w_socket k i fds < int FD_SETSIZE) \<and>
     (\<forall>fd. w_fcntl k fd \<and> w_close k fd) \<and> (\<forall>i a. w_connect k i a = None \<or> w_connect k i a = Some EINPROGRESS) \<and>
     (\<forall>i bs. length bs \<le> MAXLINE \<longrightarrow> (\<exists>w. Writen bs (w_write k i) = Some (Inr (bs, w)))))"

definition kind_round :: "wround \<Rightarrow> bool" where
  "kind_round r = ((\<forall>i. 0 \<le> read_count (r_read r i)) \<and> (\<forall>R W. r_select r R W \<noteq> None))"

definition kind_names :: "gai \<Rightarrow> (string \<times> string) list \<Rightarrow> bool" where
  "kind_names gai names = (\<forall>(n, h) \<in> set names. length (GET_CMD n) < MAXLINE \<and>
     (\<exists>ai ais. gai (Some h) (Some ''80'') (blank_hints AI_CANONNAME 0 SOCK_STREAM) = Inr (ai # ais)))"

lemma get_bytes_short: "length (GET_CMD name) < MAXLINE \<Longrightarrow> get_bytes name = bytes_of (GET_CMD name)"
  by (simp add: get_bytes_def snprintf_buf_def bytes_of_def)

lemma kind_send:
  assumes "kind_kernel k" "length (GET_CMD name) < MAXLINE"
  shows "\<exists>x. send_get name (w_write k i) = Some (Inr x)"
proof -
  have "length (get_bytes name) \<le> MAXLINE" using assms(2) by (simp add: get_bytes_short bytes_of_def)
  then obtain w where "Writen (get_bytes name) (w_write k i) = Some (Inr (get_bytes name, w))"
    using assms(1) unfolding kind_kernel_def by blast
  then show ?thesis using assms(2) unfolding get_bytes_def send_get_def Let_def by auto
qed

lemma kind_get:
  assumes "kind_kernel k" "length (GET_CMD (f_name (wfiles s ! i))) < MAXLINE"
    "0 \<le> f_fd (wfiles s ! i)" "f_fd (wfiles s ! i) < int FD_SETSIZE"
  shows "\<exists>t. write_get_cmd k i s = Some (Inr t)"
proof -
  obtain sent w where "send_get (f_name (wfiles s ! i)) (w_write k i) = Some (Inr (sent, w))"
    using kind_send [OF assms(1,2)] by fastforce
  then show ?thesis using assms(3,4) by (simp add: write_get_cmd_def FD_SET_def Let_def)
qed

lemma kind_file:
  assumes "web_inv names fds0 s" "kind_names gai names" "i < length (wfiles s)"
  shows "length (GET_CMD (f_name (wfiles s ! i))) < MAXLINE"
    and "\<exists>ai ais. gai (Some (f_host (wfiles s ! i))) (Some ''80'') (blank_hints AI_CANONNAME 0 SOCK_STREAM) = Inr (ai # ais)"
proof -
  have "f_key (wfiles s ! i) \<in> set names" using assms(1,3) by (auto simp: web_inv_def)
  then show "length (GET_CMD (f_name (wfiles s ! i))) < MAXLINE"
    and "\<exists>ai ais. gai (Some (f_host (wfiles s ! i))) (Some ''80'') (blank_hints AI_CANONNAME 0 SOCK_STREAM) = Inr (ai # ais)"
    using assms(2) by (auto simp: kind_names_def f_key_def)
qed

lemma kind_start:
  assumes k: "kind_kernel k" and inv: "web_inv names fds0 s" and n: "kind_names gai names" and i: "i < length (wfiles s)"
    and l: "length (wfds s) < FD_SETSIZE"
  shows "\<exists>t. start_connect k gai i s = Some (Inr t)"
proof -
  let ?fd = "w_socket k i (wfds s)"
  let ?f = "(wfiles s ! i)\<lparr>f_fd := ?fd\<rparr>"
  let ?u = "s\<lparr>wfiles := (wfiles s)[i := ?f], wfds := ?fd # wfds s, wlog := wlog s @ [Started i ?fd]\<rparr>"
  have fd: "0 \<le> ?fd" "?fd < int FD_SETSIZE" using k l by (simp_all add: kind_kernel_def)
  obtain ai ais where h: "gai (Some (f_host (wfiles s ! i))) (Some ''80'') (blank_hints AI_CANONNAME 0 SOCK_STREAM) = Inr (ai # ais)"
    using kind_file(2) [OF inv n i] by blast
  obtain t where t: "write_get_cmd k i ?u = Some (Inr t)"
    using kind_get [OF k, of ?u i] kind_file(1) [OF inv n i] fd i by auto
  have "w_connect k i (ai_addr ai) = None \<or> w_connect k i (ai_addr ai) = Some EINPROGRESS" "w_fcntl k ?fd"
    using k by (simp_all add: kind_kernel_def)
  then show ?thesis using fd h t by (auto simp: start_connect_def Host_serv_def FD_SET_def Let_def)
qed

lemma open_count:
  assumes "web_inv names fds0 s" "nlefttoconn s > 0" "length names + length fds0 \<le> FD_SETSIZE"
  shows "length (wfds s) < FD_SETSIZE"
proof -
  have I: "map f_key (wfiles s) = names" "counts_ok s" "mset (wfds s) = mset (map f_fd (filter active (wfiles s)) @ fds0)"
    using assms(1) by (simp_all add: web_inv_def sets_ok_def)
  have "length (filter active xs) + length (filter unstarted xs) \<le> length xs" for xs
    by (induction xs) (auto simp: flag_preds)
  from this [of "wfiles s"] have "length (filter active (wfiles s)) < length (wfiles s)"
    using I(2) assms(2) unfolding counts_ok_def by linarith
  moreover have "length (wfds s) = length (filter active (wfiles s)) + length fds0"
    using mset_eq_length [OF I(3)] by simp
  ultimately show ?thesis using assms(3) I(1) by auto
qed

lemma kind_fill:
  assumes "kind_kernel k" "fresh_sockets k" "kind_names gai names" "length names + length fds0 \<le> FD_SETSIZE" "web_inv names fds0 s"
  shows "\<exists>t. web_fill k gai m s = Some (Inr t)"
  using assms
proof (induction k gai m s rule: web_fill.induct)
  case (1 k gai m s)
  let ?i = "find_slot (\<lambda>f. f_flags f = 0) (wfiles s)"
  show ?case
  proof (cases "nconn s < m \<and> nlefttoconn s > 0")
    case True
    note free = find_unstarted [OF "1.prems"(5) conjunct2 [OF True]]
    obtain u where u: "start_connect k gai ?i s = Some (Inr u)"
      using kind_start [OF "1.prems"(1,5,3) free(1) open_count [OF "1.prems"(5) conjunct2 [OF True] "1.prems"(4)]] by blast
    have inv: "web_inv names fds0 (web_begin u)" by (rule begin_inv [OF "1.prems"(5) free u "1.prems"(2)])
    show ?thesis
      using "1.IH" [OF True refl _ u refl] free(1) "1.prems"(1-4) inv u True
      by (subst web_fill.simps) (simp add: web_begin_def Let_def)
  next
    case False
    then show ?thesis by (subst web_fill.simps) auto
  qed
qed

lemma kind_serve:
  assumes "kind_kernel k" "kind_round r" "kind_names gai names" "web_inv names fds0 s" "i < length (wfiles s)"
  shows "\<exists>t. web_serve k r rs ws i s = Some (Inr t)"
proof -
  let ?f = "wfiles s ! i"
  let ?u = "s\<lparr>wlog := wlog s @ (if r_soerror r i then [Connect_failed i] else []) @ [Established i], wwset := wwset s - {f_fd ?f}\<rparr>"
  have "flags_ok ?f" using assms(4,5) by (auto simp: web_inv_def list_all_length)
  note eq = web_serve_eq [OF this]
  have "\<exists>t. write_get_cmd k i ?u = Some (Inr t)" if c: "connecting ?f"
  proof -
    have "f_fd ?f \<in> wrset s"
      using assms(4,5) c by (auto simp: web_inv_def sets_ok_def connecting_def active_def)
    then have "0 \<le> f_fd ?f \<and> f_fd ?f < int FD_SETSIZE" using assms(4) by (simp add: web_inv_def sets_ok_def)
    then show ?thesis using kind_get [OF assms(1), of ?u i] kind_file(1) [OF assms(4,3,5)] by simp
  qed
  moreover have "0 \<le> read_count (r_read r i)" "w_close k (f_fd ?f)" using assms(1,2) by (simp_all add: kind_kernel_def kind_round_def)
  ultimately show ?thesis by (auto simp: eq Let_def)
qed

lemma kind_pass:
  assumes "kind_kernel k" "kind_round r" "kind_names gai names" "web_inv names fds0 s" "\<forall>i \<in> set is. i < length (wfiles s)"
  shows "\<exists>t. web_pass k r rs ws is s = Some (Inr t)"
  using assms
proof (induction "is" arbitrary: s)
  case (Cons i "is")
  obtain u where u: "web_serve k r rs ws i s = Some (Inr u)" 
    using kind_serve [OF Cons.prems(1-4), of i rs ws] Cons.prems(5) by auto
  note S = serve_spec [OF Cons.prems(4) _ u]
  have "web_inv names fds0 u" "length (wfiles u) = length (wfiles s)" using S Cons.prems(5) by auto
  with Cons.IH [of u] Cons.prems show ?case by (simp add: u)
qed simp

lemma kind_run:
  assumes "kind_kernel k" "fresh_sockets k" "kind_names gai names" "length names + length fds0 \<le> FD_SETSIZE" "web_inv names fds0 s"
    and "list_all kind_round rs" "list_all select_law rs" "1 \<le> m"
  shows "\<exists>t. web_run k gai m rs s = Some (Inr t)"
  using assms(5-7)
proof (induction rs arbitrary: s)
  case (Cons r rs)
  obtain u where u: "web_fill k gai m s = Some (Inr u)" using kind_fill [OF assms(1-4) Cons.prems(1)] by blast
  have inv: "web_inv names fds0 u" using fill_spec [OF assms(2) Cons.prems(1) u] by simp
  obtain rs' ws where sel: "r_select r (wrset u) (wwset u) = Some (rs', ws)"
    using Cons.prems(2) by (fastforce simp: kind_round_def)
  obtain v where v: "web_pass k r rs' ws [0..<length (wfiles u)] u = Some (Inr v)"
    using kind_pass [OF assms(1) _ assms(3) inv, of r "[0..<length (wfiles u)]"] Cons.prems(2) by auto
  have round: "web_round k gai m r s = Some (Inr v)" by (simp add: web_round_def u select_all [OF inv] sel v)
  show ?case
  proof (cases "nlefttoread s > 0")
    case True
    have "web_inv names fds0 v"
      using round_spec [OF assms(2) Cons.prems(1) _ True assms(8) round] Cons.prems(3) by simp
    with Cons.IH [of v] Cons.prems(2,3) True round show ?thesis by simp
  qed simp
qed simp

subsection \<open>Errors\<close>

lemma serve_error: "web_serve k r rs ws i s = Some (Inl e) \<Longrightarrow> e \<noteq> Err_quit ''nothing found''"
  by (auto simp: web_serve_def write_get_cmd_def send_get_def Writen_def FD_SET_def Let_def rbind_def
      split: sum.splits option.splits if_splits)

lemma pass_error: "web_pass k r rs ws is s = Some (Inl e) \<Longrightarrow> e \<noteq> Err_quit ''nothing found''"
  by (induction "is" arbitrary: s) (auto simp: rbind_def dest: serve_error split: sum.splits option.splits)

lemma run_error:
  assumes "fresh_sockets k" "1 \<le> m" "web_inv names fds0 s" "list_all select_law rs" "web_run k gai m rs s = Some (Inl e)"
  shows "e \<noteq> Err_quit ''nothing found''"
  using assms(3-5)
proof (induction rs arbitrary: s)
  case (Cons r rs)
  then have p: "nlefttoread s > 0" by (auto split: if_splits)
  with Cons.prems(3) consider (here) "web_round k gai m r s = Some (Inl e)"
    | (later) u where "web_round k gai m r s = Some (Inr u)" "web_run k gai m rs u = Some (Inl e)"
    by (auto simp: rbind_def split: option.splits sum.splits)
  then show ?case
  proof cases
    case here
    then show ?thesis
      by (auto simp: web_round_def rbind_def dest: fill_error [OF assms(1) Cons.prems(1)] pass_error split: option.splits sum.splits)
  next
    case later
    have "web_inv names fds0 u"
      using round_spec [OF assms(1) Cons.prems(1) _ p assms(2) later(1)] Cons.prems(2) by simp
    then show ?thesis using Cons.IH [OF _ _ later(2)] Cons.prems(2) by simp
  qed
qed simp

text \<open>A connection that failed is reported, and then taken for established: the command is written all the same.\<close>

lemma failed_connect_is_used:
  assumes "connecting (wfiles s ! i)" "f_fd (wfiles s ! i) \<in> rs" "r_soerror r i"
  shows "web_serve k r rs ws i s = write_get_cmd k i
    (s\<lparr>wlog := wlog s @ [Connect_failed i, Established i], wwset := wwset s - {f_fd (wfiles s ! i)}\<rparr>)"
  using assms by (subst web_serve_eq) (simp_all add: Let_def flags_ok_def connecting_def)

text \<open>A name of 4,080 characters or more makes \<open>Writen\<close> read beyond the line.\<close>

lemma long_name_overreads: "4080 \<le> length name \<Longrightarrow> send_get name wr = Some (Inl (Undefined Buffer_overflow))"
  by (simp add: send_get_def GET_CMD_def MAXLINE_def)

subsection \<open>Claims\<close>

lemma finished_state:
  assumes inv: "web_inv (map (\<lambda>n. (n, host)) ns) fds t" and z: "nlefttoread t = 0"
  shows "mset (wfds t) = mset fds" and "wrset t = {}" and "wwset t = {}"
    and "\<And>i. i < length (wfiles t) \<Longrightarrow> length (GET_CMD (ns ! i)) < MAXLINE \<Longrightarrow> filter (milestone i) (wlog t) =
              [Started i (f_fd (wfiles t ! i)), Wrote i (bytes_of (GET_CMD (ns ! i))), At_eof i]"
proof -
  have "filter unfinished (wfiles t) = []" using inv z by (simp add: web_inv_def counts_ok_def)
  then have d: "f_flags f = F_DONE" if "f \<in> set (wfiles t)" for f
    using that by (auto simp: filter_empty_conv unfinished_def)
  then have E: "filter active (wfiles t) = []" "filter connecting (wfiles t) = []"
    by (auto simp: filter_empty_conv flag_preds)
  then show "mset (wfds t) = mset fds" "wrset t = {}" "wwset t = {}" using inv by (simp_all add: web_inv_def sets_ok_def)
  fix i assume i: "i < length (wfiles t)" and l: "length (GET_CMD (ns ! i)) < MAXLINE"
  have ns: "map f_key (wfiles t) = map (\<lambda>n. (n, host)) ns" using inv by (simp add: web_inv_def)
  have "f_key (wfiles t ! i) = (ns ! i, host)"
    using arg_cong [OF ns, of "\<lambda>xs. xs ! i"] arg_cong [OF ns, of length] i by simp
  then have "f_name (wfiles t ! i) = ns ! i" by (simp add: f_key_def)
  then show "filter (milestone i) (wlog t) =
      [Started i (f_fd (wfiles t ! i)), Wrote i (bytes_of (GET_CMD (ns ! i))), At_eof i]"
    using inv i d [OF nth_mem [OF i]] get_bytes_short [OF l] by (simp add: web_inv_def log_ok_def stones_def flag_preds)
qed

text \<open>
  C23. Whatever the kernel and the servers answer, after any number of rounds of the loop of \<open>web.c\<close> the counters,
  the flags of the files and the two descriptor sets agree, no more than \<open>maxnconn\<close> connections are open, every
  descriptor beyond those of the caller belongs to exactly one file being fetched, and each file has been started,
  asked for and ended at most once and in this order, with the command for its name; when the loop ends all files are
  done and no descriptor has been leaked. The exit with \<open>nothing found\<close> is never taken. And the loop does end: when
  the calls work, at most two rounds per file and one more for each piece of data are needed.
\<close>

theorem web_client_fetches:
  assumes "fresh_sockets k" "list_all select_law rs" "1 \<le> m" "distinct fds"
  shows "(\<forall>t. web_run k gai m rs (web_start host names fds) = Some (Inr t) \<longrightarrow>
       counts_ok t \<and> sets_ok fds t \<and> log_ok t \<and> map f_key (wfiles t) = map (\<lambda>n. (n, host)) (take MAXFILES names)
     \<and> nconn t \<le> m
     \<and> (nlefttoread t = 0 \<longrightarrow> mset (wfds t) = mset fds \<and> wrset t = {} \<and> wwset t = {} \<and>
         (\<forall>i < length (wfiles t). length (GET_CMD (take MAXFILES names ! i)) < MAXLINE \<longrightarrow>
            filter (milestone i) (wlog t) =
              [Started i (f_fd (wfiles t ! i)), Wrote i (bytes_of (GET_CMD (take MAXFILES names ! i))), At_eof i]))
     \<and> (nlefttoread t \<noteq> 0 \<longrightarrow> int (length rs) < 2 * int (length (wfiles t)) + int (gots t)))
   \<and> web_run k gai m rs (web_start host names fds) \<noteq> Some (Inl (Err_quit ''nothing found''))
   \<and> (kind_kernel k \<and> list_all kind_round rs \<and> kind_names gai (map (\<lambda>n. (n, host)) names) \<and> length fds < 1000 \<longrightarrow>
       (\<exists>t. web_run k gai m rs (web_start host names fds) = Some (Inr t)))"
proof (intro conjI allI impI)
  let ?s = "web_start host names fds" and ?ns = "map (\<lambda>n. (n, host)) (take MAXFILES names)"
  note S = start_inv [OF assms(4), of host names]
  have c: "nconn ?s \<le> m" using assms(3) by (simp add: web_start_def Let_def)
  {
    fix t assume t: "web_run k gai m rs ?s = Some (Inr t)"
    note R = run_spec [OF assms(1) S(1) assms(2,3) c t]
    then have inv: "web_inv ?ns fds t" by simp
    show "counts_ok t" "sets_ok fds t" "log_ok t" "nconn t \<le> m" and ns: "map f_key (wfiles t) = ?ns"
      using R by (simp_all add: web_inv_def)
    note F = finished_state [OF inv]
    show "nlefttoread t = 0 \<Longrightarrow> mset (wfds t) = mset fds" "nlefttoread t = 0 \<Longrightarrow> wrset t = {}" "nlefttoread t = 0 \<Longrightarrow> wwset t = {}"
      "\<And>i. nlefttoread t = 0 \<Longrightarrow> i < length (wfiles t) \<Longrightarrow> length (GET_CMD (take MAXFILES names ! i)) < MAXLINE \<Longrightarrow>
         filter (milestone i) (wlog t) =
           [Started i (f_fd (wfiles t ! i)), Wrote i (bytes_of (GET_CMD (take MAXFILES names ! i))), At_eof i]"
      by (rule F; assumption)+
    assume "nlefttoread t \<noteq> 0"
    then have "nlefttoread t > 0" using inv by (simp add: web_inv_def counts_ok_def)
    moreover have "length (wfiles t) = min (length names) MAXFILES" using arg_cong [OF ns, of length] by simp
    ultimately show "int (length rs) < 2 * int (length (wfiles t)) + int (gots t)"
      using R potential_ge [OF inv] S(2) by auto
  }
  show "web_run k gai m rs ?s \<noteq> Some (Inl (Err_quit ''nothing found''))" using run_error [OF assms(1,3) S(1) assms(2)] by blast
  assume K: "kind_kernel k \<and> list_all kind_round rs \<and> kind_names gai (map (\<lambda>n. (n, host)) names) \<and> length fds < 1000"
  then have "kind_names gai ?ns" using set_take_subset [of MAXFILES names] by (auto simp: kind_names_def)
  moreover have "length ?ns + length fds \<le> FD_SETSIZE" using K by (simp add: FD_SETSIZE_def MAXFILES_def min_def)
  ultimately show "\<exists>t. web_run k gai m rs ?s = Some (Inr t)" using kind_run [OF _ assms(1) _ _ S(1)] K assms(2,3) by blast
qed

text \<open>A kernel that gives out free descriptors, and rounds in which everything is ready and at its end.\<close>

definition some_free :: "int list \<Rightarrow> int" where
  "some_free fds = (case find (\<lambda>x. x \<notin> set fds) (map int [0..<FD_SETSIZE]) of Some x \<Rightarrow> x | None \<Rightarrow> -1)"

definition demo_wkernel :: wkernel where
  "demo_wkernel =
     \<lparr>w_socket = \<lambda>i fds. if i < 100 \<and> int i + 3 \<notin> set fds then int i + 3 else some_free fds,
      w_fcntl = \<lambda>_. True, w_connect = \<lambda>i _. if even i then Some EINPROGRESS else None,
      w_write = \<lambda>_. [Takes MAXLINE], w_close = \<lambda>_. True\<rparr>"

definition demo_wround :: wround where
  "demo_wround = \<lparr>r_select = \<lambda>R W. Some (R, W), r_soerror = \<lambda>_. False, r_read = \<lambda>_. Eof\<rparr>"

definition demo_wgai :: gai where
  "demo_wgai host serv hints = Inr [hints]"

lemma some_free_spec:
  "0 \<le> some_free fds \<Longrightarrow> some_free fds \<notin> set fds" "length fds < FD_SETSIZE \<Longrightarrow> 0 \<le> some_free fds \<and> some_free fds < int FD_SETSIZE"
proof -
  show "0 \<le> some_free fds \<Longrightarrow> some_free fds \<notin> set fds"
  proof (cases "find (\<lambda>x. x \<notin> set fds) (map int [0..<FD_SETSIZE])")
    case (Some x)
    from Some have "x \<notin> set fds" by (auto simp: find_Some_iff)
    then show ?thesis by (simp add: some_free_def Some)
  qed (simp add: some_free_def)
  assume l: "length fds < FD_SETSIZE"
  have "find (\<lambda>x. x \<notin> set fds) (map int [0..<FD_SETSIZE]) \<noteq> None"
  proof
    assume "find (\<lambda>x. x \<notin> set fds) (map int [0..<FD_SETSIZE]) = None"
    then have "int ` {0..<FD_SETSIZE} \<subseteq> set fds" by (auto simp: find_None_iff)
    then have "card (int ` {0..<FD_SETSIZE}) \<le> card (set fds)" by (intro card_mono) simp_all
    then show False using l card_length [of fds] by (simp add: card_image)
  qed
  then show "0 \<le> some_free fds \<and> some_free fds < int FD_SETSIZE"
    by (auto simp: some_free_def find_Some_iff split: option.splits)
qed

lemma demo_fresh: "fresh_sockets demo_wkernel"
  by (auto simp: fresh_sockets_def demo_wkernel_def some_free_spec(1))

lemma demo_kind: "kind_kernel demo_wkernel"
proof -
  have "\<exists>w. Writen bs [Takes MAXLINE] = Some (Inr (bs, w))" if "length bs \<le> MAXLINE" for bs
    using that by (cases "bs = []") (simp_all add: Writen_def writen_def writen_loop.simps)
  then show ?thesis by (simp add: kind_kernel_def demo_wkernel_def some_free_spec(2)) (simp add: FD_SETSIZE_def)
qed

lemma names_of_keys:
  assumes "map f_key fs = map (\<lambda>n. (n, h)) ns"
  shows "map f_name fs = ns"
proof -
  have "map f_name fs = map fst (map f_key fs)" by (simp add: f_key_def)
  then show ?thesis by (simp add: assms comp_def)
qed

lemma mapped_run:
  assumes "map_option (map_sum id g) m = Some (Inr y)"
  obtains t where "m = Some (Inr t)" "g t = y"
  using assms by (cases m; cases "the m") auto

lemma demo_run: "map_option (map_sum id nlefttoread)
    (web_run demo_wkernel demo_wgai 2 (replicate 6 demo_wround) (web_start ''h'' [''/a'', ''/b'', ''/c''] [0, 1, 2])) = Some (Inr 0)"
  by code_simp

theorem web_client_fetches_witness:
  "kind_kernel demo_wkernel \<and> kind_round demo_wround \<and> kind_names demo_wgai [(''/a'', ''h''), (''/b'', ''h''), (''/c'', ''h'')] \<and>
   (\<exists>t. web_run demo_wkernel demo_wgai 2 (replicate 6 demo_wround) (web_start ''h'' [''/a'', ''/b'', ''/c''] [0, 1, 2]) = Some (Inr t)
     \<and> mset (wfds t) = {#0, 1, 2#} \<and> map f_name (wfiles t) = [''/a'', ''/b'', ''/c'']
     \<and> filter (milestone 1) (wlog t) = [Started 1 (f_fd (wfiles t ! 1)), Wrote 1 (bytes_of (GET_CMD ''/b'')), At_eof 1])"
proof -
  have law: "select_law demo_wround" "kind_round demo_wround"
    by (simp_all add: select_law_def kind_round_def demo_wround_def read_count_def)
  have names: "kind_names demo_wgai [(''/a'', ''h''), (''/b'', ''h''), (''/c'', ''h'')]"
    by (simp add: kind_names_def demo_wgai_def GET_CMD_def MAXLINE_def)
  obtain t where t: "web_run demo_wkernel demo_wgai 2 (replicate 6 demo_wround) (web_start ''h'' [''/a'', ''/b'', ''/c''] [0, 1, 2])
      = Some (Inr t)" "nlefttoread t = 0" by (rule mapped_run [OF demo_run])
  have C: "mset (wfds t) = mset [0, 1, 2] \<and> map f_key (wfiles t) = map (\<lambda>n. (n, ''h'')) (take MAXFILES [''/a'', ''/b'', ''/c''])
     \<and> (\<forall>i < length (wfiles t). length (GET_CMD (take MAXFILES [''/a'', ''/b'', ''/c''] ! i)) < MAXLINE \<longrightarrow>
            filter (milestone i) (wlog t) = [Started i (f_fd (wfiles t ! i)),
              Wrote i (bytes_of (GET_CMD (take MAXFILES [''/a'', ''/b'', ''/c''] ! i))), At_eof i])"
    using web_client_fetches [OF demo_fresh, of "replicate 6 demo_wround" 2 "[0, 1, 2]" demo_wgai "''h''" "[''/a'', ''/b'', ''/c'']"]
      law(1) t by (simp add: list_all_iff)
  have n: "map f_name (wfiles t) = [''/a'', ''/b'', ''/c'']"
    using names_of_keys [of "wfiles t" "''h''" "take MAXFILES [''/a'', ''/b'', ''/c'']"] C by (simp add: MAXFILES_def)
  moreover have "length (wfiles t) = 3" using arg_cong [OF n, of length] by simp
  moreover have "length (GET_CMD ''/b'') < MAXLINE" by (simp add: GET_CMD_def MAXLINE_def)
  ultimately show ?thesis using C law(2) names demo_kind t(1) by (intro conjI exI [of _ t]) (simp_all add: MAXFILES_def)
qed

end
