(* ===== verification/Binflag.thy ===== *)
theory Binflag
  imports NP_Prelude
begin

text \<open>
  The solver of \<open>np-lab2/2.cpp\<close>: a binary file with a header, blocks of a dictionary protected by a checksum, and a
  list of positions in the dictionary that spells the flag. The file is a list of bytes; memory that was allocated
  and not written is \<open>None\<close>, reading it and leaving an array are undefined behaviour. Allocations succeed. What is
  printed of the header is left out.
\<close>

subsection \<open>Reading the file\<close>

text \<open>\<open>read(fd, p, n)\<close> when the file still has \<open>n\<close> bytes; with fewer, the rest of \<open>p\<close> is used uninitialised.\<close>

definition fetch :: "nat \<Rightarrow> byte list \<Rightarrow> (byte list \<times> byte list) outcome" where
  "fetch n file = (if n \<le> length file then Inr (take n file, drop n file) else Inl (Undefined Uninit_read))"

text \<open>What \<open>ntohl\<close> and \<open>ntohs\<close> make of the bytes.\<close>

definition be_num :: "byte list \<Rightarrow> nat" where
  "be_num bs = num_of 256 (map unat bs)"

record bblock =
  b_offset :: nat
  b_cksum :: "16 word"
  b_payload :: "byte list"
  b_check :: bool

text \<open>The checksum loop reads two bytes at a time, also when only one is left.\<close>

fun xor_sum :: "byte list \<Rightarrow> 16 word outcome" where
  "xor_sum [] = Inr 0"
| "xor_sum [a] = Inl (Undefined Buffer_overflow)"
| "xor_sum (a # b # bs) = map_sum id (\<lambda>c. xor (push_bit 8 (ucast a) + ucast b) c) (xor_sum bs)"

definition read_block :: "byte list \<Rightarrow> (bblock \<times> byte list) outcome" where
  "read_block file =
     (case fetch 8 file of
        Inl e \<Rightarrow> Inl e
      | Inr (h, file) \<Rightarrow>
          (case fetch (be_num (drop 6 h)) file of
             Inl e \<Rightarrow> Inl e
           | Inr (payload, file) \<Rightarrow>
               (case xor_sum payload of
                  Inl e \<Rightarrow> Inl e
                | Inr checksum \<Rightarrow>
                    (let cksum = of_nat (be_num (take 2 (drop 4 h))) in
                     Inr (\<lparr>b_offset = be_num (take 4 h), b_cksum = cksum, b_payload = payload,
                           b_check = (checksum = cksum)\<rparr>, file)))))"

primrec read_blocks :: "nat \<Rightarrow> byte list \<Rightarrow> (bblock list \<times> byte list) outcome" where
  "read_blocks 0 file = Inr ([], file)"
| "read_blocks (Suc n) file =
     (case read_block file of
        Inl e \<Rightarrow> Inl e
      | Inr (b, file) \<Rightarrow>
          (case read_blocks n file of Inl e \<Rightarrow> Inl e | Inr (bs, file) \<Rightarrow> Inr (b # bs, file)))"

subsection \<open>The dictionary\<close>

type_synonym dict = "byte option list"

text \<open>\<open>dict[offset + j] = payload[j]\<close>; the sum is an unsigned 32-bit number.\<close>

fun put_payload :: "nat \<Rightarrow> byte list \<Rightarrow> dict \<Rightarrow> dict outcome" where
  "put_payload offset [] d = Inr d"
| "put_payload offset (b # bs) d =
     (let i = offset mod 2 ^ 32 in
      if i < length d then put_payload (Suc offset) bs (d[i := Some b]) else Inl (Undefined Buffer_overflow))"

primrec put_blocks :: "bblock list \<Rightarrow> dict \<Rightarrow> dict outcome" where
  "put_blocks [] d = Inr d"
| "put_blocks (b # bs) d =
     (if b_check b
      then (case put_payload (b_offset b) (b_payload b) d of Inl e \<Rightarrow> Inl e | Inr d \<Rightarrow> put_blocks bs d)
      else put_blocks bs d)"

definition dict_at :: "dict \<Rightarrow> nat \<Rightarrow> byte outcome" where
  "dict_at d i =
     (if i mod 2 ^ 32 < length d
      then (case d ! (i mod 2 ^ 32) of None \<Rightarrow> Inl (Undefined Uninit_read) | Some b \<Rightarrow> Inr b)
      else Inl (Undefined Buffer_overflow))"

subsection \<open>The flag\<close>

fun read_offsets :: "nat \<Rightarrow> byte list \<Rightarrow> nat list" where
  "read_offsets 0 bs = []"
| "read_offsets (Suc n) bs = be_num (take 4 bs) # read_offsets n (drop 4 bs)"

text \<open>The loop that prints the flag: the two bytes at each position.\<close>

primrec flag_bytes :: "dict \<Rightarrow> nat list \<Rightarrow> byte list outcome" where
  "flag_bytes d [] = Inr []"
| "flag_bytes d (i # is) =
     (case dict_at d i of
        Inl e \<Rightarrow> Inl e
      | Inr a \<Rightarrow>
          (case dict_at d (i + 1) of
             Inl e \<Rightarrow> Inl e
           | Inr b \<Rightarrow> (case flag_bytes d is of Inl e \<Rightarrow> Inl e | Inr bs \<Rightarrow> Inr (a # b # bs))))"

definition hex02 :: "byte \<Rightarrow> string" where
  "hex02 b = [dig (unat b div 16), dig (unat b mod 16)]"

text \<open>Everything up to the printed flag: its bytes, and the text of the array \<open>flags\<close>.\<close>

definition binflag :: "byte list \<Rightarrow> (byte list \<times> string) outcome" where
  "binflag file =
     (case fetch 16 file of
        Inl e \<Rightarrow> Inl e
      | Inr (header, file) \<Rightarrow>
          (case read_blocks (be_num (take 2 (drop 12 header))) file of
             Inl e \<Rightarrow> Inl e
           | Inr (blocks, file) \<Rightarrow>
               (case put_blocks blocks (replicate (be_num (take 4 (drop 8 header))) None) of
                  Inl e \<Rightarrow> Inl e
                | Inr d \<Rightarrow>
                    (case fetch 2 file of
                       Inl e \<Rightarrow> Inl e
                     | Inr (len, file) \<Rightarrow>
                         (case fetch (4 * be_num len) file of
                            Inl e \<Rightarrow> Inl e
                          | Inr (offsets, _) \<Rightarrow>
                              (case flag_bytes d (read_offsets (be_num len) offsets) of
                                 Inl e \<Rightarrow> Inl e
                               | Inr bs \<Rightarrow> Inr (bs, concat (map hex02 bs))))))))"

text \<open>The command is printed into an array with room for the flag only.\<close>

definition send_flag :: "string \<Rightarrow> string outcome" where
  "send_flag flags =
     (let cmd = ''curl https://inp.zoolab.org/binflag/verify?v='' @ flags in
      if length cmd + 1 \<le> length flags + 1 then Inr cmd else Inl (Undefined Buffer_overflow))"

definition binflag_main :: "byte list option \<Rightarrow> string outcome" where
  "binflag_main file =
     (case file of
        None \<Rightarrow> Inl (Exit_code (-1))
      | Some bs \<Rightarrow> (case binflag bs of Inl e \<Rightarrow> Inl e | Inr (_, flags) \<Rightarrow> send_flag flags))"

subsection \<open>Numbers in the file\<close>

lemma be_num_snoc: "be_num (bs @ [b]) = be_num bs * 256 + unat b"
  by (simp add: be_num_def)

lemma be_num_be16: "be_num (be16 w) = unat w"
proof -
  have "unat w < 65536" using unsigned_less [of w] by simp
  then show ?thesis
    using unat_byte_of_word [of 8 w] unat_byte_of_word [of 0 w] by (simp add: be16_def be_num_def num_of_def)
qed

lemma be_num_be32: "be_num (be32 w) = unat w"
proof -
  let ?x = "unat w"
  have "?x < 4294967296" using unsigned_less [of w] by simp
  moreover have "?x div 65536 = ?x div 16777216 * 256 + ?x div 65536 mod 256"
    "?x div 256 = ?x div 65536 * 256 + ?x div 256 mod 256" "?x = ?x div 256 * 256 + ?x mod 256"
    using div_mult2_eq [of ?x 65536 256] div_mult2_eq [of ?x 256 256] by simp_all
  moreover have "?x div 16777216 < 256" using calculation(1) by simp
  ultimately show ?thesis
    using unat_byte_of_word [of 24 w] unat_byte_of_word [of 16 w] unat_byte_of_word [of 8 w] unat_byte_of_word [of 0 w]
    by (simp add: be32_def be_num_def num_of_def)
qed

lemma fetch_append: "length xs = n \<Longrightarrow> fetch n (xs @ ys) = Inr (xs, ys)"
  by (simp add: fetch_def)

lemma length_be: "length (be16 w) = 2" "length (be32 v) = 4"
  by (simp_all add: be16_def be32_def)

subsection \<open>The format\<close>

text \<open>A challenge as it is meant: a block is an offset, a checksum and a payload.\<close>

definition put_block :: "nat \<times> 16 word \<times> byte list \<Rightarrow> byte list" where
  "put_block b = (case b of (offset, ck, p) \<Rightarrow> be32 (of_nat offset) @ be16 ck @ be16 (of_nat (length p)) @ p)"

definition challenge :: "byte list \<Rightarrow> nat \<Rightarrow> byte list \<Rightarrow> (nat \<times> 16 word \<times> byte list) list \<Rightarrow> nat list \<Rightarrow> byte list" where
  "challenge magic datasize zeros blocks offs =
     magic @ be32 (of_nat datasize) @ be16 (of_nat (length blocks)) @ zeros @ concat (map put_block blocks) @
     be16 (of_nat (length offs)) @ concat (map (\<lambda>i. be32 (of_nat i)) offs)"

definition block_ok :: "nat \<times> 16 word \<times> byte list \<Rightarrow> bool" where
  "block_ok b = (case b of (offset, ck, p) \<Rightarrow> offset < 2 ^ 32 \<and> length p < 2 ^ 16 \<and> even (length p))"

definition sound_block :: "nat \<times> 16 word \<times> byte list \<Rightarrow> bool" where
  "sound_block b = (case b of (offset, ck, p) \<Rightarrow> xor_sum p = Inr ck)"

definition as_read :: "nat \<times> 16 word \<times> byte list \<Rightarrow> bblock" where
  "as_read b = (case b of (offset, ck, p) \<Rightarrow>
     \<lparr>b_offset = offset, b_cksum = ck, b_payload = p, b_check = sound_block b\<rparr>)"

lemma xor_sum_even: "even (length p) \<Longrightarrow> \<exists>c. xor_sum p = Inr c"
  by (induction p rule: xor_sum.induct) auto

lemma odd_block_overruns: "odd (length p) \<Longrightarrow> xor_sum p = Inl (Undefined Buffer_overflow)"
  by (induction p rule: xor_sum.induct) auto

lemma unat_of_nat_32: "n < 2 ^ 32 \<Longrightarrow> unat (of_nat n :: 32 word) = n"
  and unat_of_nat_16: "n < 2 ^ 16 \<Longrightarrow> unat (of_nat n :: 16 word) = n"
  by (simp_all add: unat_of_nat take_bit_nat_eq_self)

lemma read_block_put:
  assumes "block_ok b"
  shows "read_block (put_block b @ rest) = Inr (as_read b, rest)"
proof -
  obtain offset ck p where b: "b = (offset, ck, p)" by (cases b)
  have o: "offset < 2 ^ 32" "length p < 2 ^ 16" "even (length p)" using assms by (simp_all add: b block_ok_def)
  obtain c where c: "xor_sum p = Inr c" using xor_sum_even [OF o(3)] by blast
  let ?h = "be32 (of_nat offset) @ be16 ck @ be16 (of_nat (length p))"
  have "fetch 8 (put_block b @ rest) = Inr (?h, p @ rest)"
    using fetch_append [of ?h 8 "p @ rest"] by (simp add: b put_block_def length_be)
  moreover have "drop 6 ?h = be16 (of_nat (length p))" "take 4 ?h = be32 (of_nat offset)" "take 2 (drop 4 ?h) = be16 ck"
    by (simp_all add: length_be)
  ultimately show ?thesis
    using c fetch_append [of p "length p" rest]
    by (simp add: read_block_def be_num_be16 be_num_be32 unat_of_nat_16 [OF o(2)] unat_of_nat_32 [OF o(1)]
        as_read_def b sound_block_def Let_def)
qed

lemma read_blocks_put:
  "list_all block_ok bs \<Longrightarrow> read_blocks (length bs) (concat (map put_block bs) @ rest) = Inr (map as_read bs, rest)"
  by (induction bs) (simp_all add: read_block_put)

lemma read_offsets_put:
  "list_all (\<lambda>i. i < 2 ^ 32) is \<Longrightarrow> read_offsets (length is) (concat (map (\<lambda>i. be32 (of_nat i)) is)) = is"
  by (induction "is") (simp_all add: length_be be_num_be32 unat_of_nat_32)

subsection \<open>The dictionary holds what the sound blocks say\<close>

definition dict_ok :: "byte list \<Rightarrow> dict \<Rightarrow> bool" where
  "dict_ok data d = (length d = length data \<and> (\<forall>i < length data. d ! i = None \<or> d ! i = Some (data ! i)))"

lemma put_payload_ok:
  assumes "dict_ok data d" "offset + length p \<le> length data" "length data \<le> 2 ^ 32"
    and "\<And>j. j < length p \<Longrightarrow> p ! j = data ! (offset + j)"
  shows "\<exists>d'. put_payload offset p d = Inr d' \<and> dict_ok data d' \<and>
    (\<forall>i < length data. d' ! i \<noteq> None \<longleftrightarrow> d ! i \<noteq> None \<or> offset \<le> i \<and> i < offset + length p)"
  using assms
proof (induction p arbitrary: offset d)
  case (Cons b bs)
  have i: "offset < length data" "offset mod 2 ^ 32 = offset" using Cons.prems(2,3) by simp_all
  let ?d = "d[offset := Some b]"
  have "b = data ! offset" using Cons.prems(4) [of 0] by simp
  then have ok: "dict_ok data ?d" using Cons.prems(1) i(1) by (auto simp: dict_ok_def nth_list_update)
  have "bs ! j = data ! (Suc offset + j)" if "j < length bs" for j using Cons.prems(4) [of "Suc j"] that by simp
  with Cons.IH [OF ok _ Cons.prems(3), of "Suc offset"] Cons.prems(2)
  obtain d' where d': "put_payload (Suc offset) bs ?d = Inr d'" "dict_ok data d'"
    "\<forall>i < length data. d' ! i \<noteq> None \<longleftrightarrow> ?d ! i \<noteq> None \<or> Suc offset \<le> i \<and> i < Suc offset + length bs" by auto
  have "length d = length data" using Cons.prems(1) by (simp add: dict_ok_def)
  then have "d' ! j \<noteq> None \<longleftrightarrow> d ! j \<noteq> None \<or> offset \<le> j \<and> j < offset + length (b # bs)" if "j < length data" for j
    using d'(3) that i(1) by (cases "j = offset") auto
  moreover have "put_payload offset (b # bs) d = Inr d'" using d'(1) i \<open>length d = length data\<close> by simp
  ultimately show ?case using d'(2) by blast
qed auto

definition describes :: "byte list \<Rightarrow> nat \<times> 16 word \<times> byte list \<Rightarrow> bool" where
  "describes data b = (case b of (offset, ck, p) \<Rightarrow>
     offset + length p \<le> length data \<and> (\<forall>j < length p. p ! j = data ! (offset + j)))"

definition covers :: "nat \<times> 16 word \<times> byte list \<Rightarrow> nat \<Rightarrow> bool" where
  "covers b i = (case b of (offset, ck, p) \<Rightarrow> sound_block b \<and> offset \<le> i \<and> i < offset + length p)"

lemma put_blocks_ok:
  assumes "dict_ok data d" "length data \<le> 2 ^ 32" "\<forall>b \<in> set bs. sound_block b \<longrightarrow> describes data b"
  shows "\<exists>d'. put_blocks (map as_read bs) d = Inr d' \<and> dict_ok data d' \<and>
    (\<forall>i < length data. d' ! i \<noteq> None \<longleftrightarrow> d ! i \<noteq> None \<or> (\<exists>b \<in> set bs. covers b i))"
  using assms
proof (induction bs arbitrary: d)
  case (Cons b bs)
  obtain offset ck p where b: "b = (offset, ck, p)" by (cases b)
  show ?case
  proof (cases "sound_block b")
    case True
    then have "describes data b" using Cons.prems(3) by simp
    then obtain e where e: "put_payload offset p d = Inr e" "dict_ok data e"
      "\<forall>i < length data. e ! i \<noteq> None \<longleftrightarrow> d ! i \<noteq> None \<or> offset \<le> i \<and> i < offset + length p"
      using put_payload_ok [OF Cons.prems(1), of offset p] Cons.prems(2) by (auto simp: b describes_def)
    obtain d' where d': "put_blocks (map as_read bs) e = Inr d'" "dict_ok data d'"
      "\<forall>i < length data. d' ! i \<noteq> None \<longleftrightarrow> e ! i \<noteq> None \<or> (\<exists>b \<in> set bs. covers b i)"
      using Cons.IH [OF e(2) Cons.prems(2)] Cons.prems(3) by auto
    then show ?thesis using True e(1,3) by (intro exI [of _ d']) (auto simp: b as_read_def [of "(offset, ck, p)"] covers_def [of "(offset, ck, p)"])
  next
    case False
    obtain d' where d': "put_blocks (map as_read bs) d = Inr d'" "dict_ok data d'"
      "\<forall>i < length data. d' ! i \<noteq> None \<longleftrightarrow> d ! i \<noteq> None \<or> (\<exists>b \<in> set bs. covers b i)"
      using Cons.IH [OF Cons.prems(1,2)] Cons.prems(3) by auto
    then show ?thesis using False by (intro exI [of _ d']) (auto simp: b as_read_def [of "(offset, ck, p)"] covers_def [of "(offset, ck, p)"])
  qed
qed auto

lemma dict_at_ok:
  assumes "dict_ok data d" "i < length data" "length data \<le> 2 ^ 32" "d ! i \<noteq> None"
  shows "dict_at d i = Inr (data ! i)"
proof -
  have "d ! i = Some (data ! i)" "length d = length data" using assms by (auto simp: dict_ok_def)
  moreover have "i mod 2 ^ 32 = i" using assms(2,3) by simp
  ultimately show ?thesis using assms(2) by (simp add: dict_at_def)
qed

lemma flag_bytes_ok:
  assumes "dict_ok data d" "length data \<le> 2 ^ 32"
    and "list_all (\<lambda>i. i + 1 < length data \<and> d ! i \<noteq> None \<and> d ! (i + 1) \<noteq> None) is"
  shows "flag_bytes d is = Inr (concat (map (\<lambda>i. [data ! i, data ! (i + 1)]) is))"
  using assms(3) by (induction "is") (simp_all add: dict_at_ok [OF assms(1) _ assms(2)])

subsection \<open>The claim\<close>

text \<open>
  C18. For every file in the format of the challenge whose blocks with a right checksum agree with a dictionary and
  cover the positions of the flag, whatever the blocks with a wrong checksum hold: the program recovers exactly the
  bytes of the dictionary at those positions and their hexadecimal text. The command that should send them does not
  fit its array, for every flag.
\<close>

theorem binflag_recovers:
  assumes "length magic = 8" "length zeros = 2" "length data < 2 ^ 32" "length blocks < 2 ^ 16" "length offs < 2 ^ 16"
    and "list_all block_ok blocks" "\<forall>b \<in> set blocks. sound_block b \<longrightarrow> describes data b"
    and "\<forall>i \<in> set offs. i + 1 < length data \<and> (\<exists>b \<in> set blocks. covers b i) \<and> (\<exists>b \<in> set blocks. covers b (i + 1))"
  defines "flag \<equiv> concat (map (\<lambda>i. [data ! i, data ! (i + 1)]) offs)"
  shows "binflag (challenge magic (length data) zeros blocks offs @ rest) = Inr (flag, concat (map hex02 flag))
    \<and> binflag_main (Some (challenge magic (length data) zeros blocks offs @ rest)) = Inl (Undefined Buffer_overflow)"
proof -
  let ?h = "magic @ be32 (of_nat (length data)) @ be16 (of_nat (length blocks)) @ zeros"
  let ?n = "be16 (of_nat (length offs))" and ?os = "concat (map (\<lambda>i. be32 (of_nat i)) offs)"
  have fl: "challenge magic (length data) zeros blocks offs @ rest = ?h @ concat (map put_block blocks) @ ?n @ ?os @ rest"
    by (simp add: challenge_def)
  have h: "fetch 16 (?h @ r) = Inr (?h, r)" for r using assms(1,2) fetch_append [of ?h 16 r] by (simp add: length_be)
  have f: "be_num (take 2 (drop 12 ?h)) = length blocks" "be_num (take 4 (drop 8 ?h)) = length data"
    using assms(1,3,4) by (simp_all add: length_be be_num_be16 be_num_be32 unat_of_nat_16 unat_of_nat_32)
  have b: "read_blocks (length blocks) (concat (map put_block blocks) @ r) = Inr (map as_read blocks, r)" for r
    by (rule read_blocks_put [OF assms(6)])
  have d0: "dict_ok data (replicate (length data) None)" by (simp add: dict_ok_def)
  have le: "length data \<le> 2 ^ 32" using assms(3) by simp
  obtain d where d: "put_blocks (map as_read blocks) (replicate (length data) None) = Inr d" "dict_ok data d"
    "\<forall>i < length data. d ! i \<noteq> None \<longleftrightarrow> (\<exists>b \<in> set blocks. covers b i)"
    using put_blocks_ok [OF d0 le assms(7)] by auto
  have n: "fetch 2 (?n @ r) = Inr (?n, r)" for r using fetch_append [of ?n 2 r] by (simp add: length_be)
  have "length ?os = 4 * length offs" by (induction offs) (simp_all add: length_be)
  then have o: "fetch (4 * be_num ?n) (?os @ rest) = Inr (?os, rest)" "be_num ?n = length offs"
    using assms(5) by (simp_all add: be_num_be16 unat_of_nat_16 fetch_append)
  have "list_all (\<lambda>i. i < 2 ^ 32) offs" using assms(3,8) by (fastforce simp: list_all_iff)
  then have r: "read_offsets (be_num ?n) ?os = offs" by (simp only: o(2) read_offsets_put)
  have "list_all (\<lambda>i. i + 1 < length data \<and> d ! i \<noteq> None \<and> d ! (i + 1) \<noteq> None) offs"
    unfolding list_all_iff
  proof
    fix i assume "i \<in> set offs"
    then have i: "i + 1 < length data" "\<exists>b \<in> set blocks. covers b i" "\<exists>b \<in> set blocks. covers b (i + 1)" using assms(8) by blast+
    then have "i < length data" by simp
    with i d(3) show "i + 1 < length data \<and> d ! i \<noteq> None \<and> d ! (i + 1) \<noteq> None" by blast
  qed
  then have "flag_bytes d offs = Inr flag" unfolding flag_def by (rule flag_bytes_ok [OF d(2) le])
  then have B: "binflag (challenge magic (length data) zeros blocks offs @ rest) = Inr (flag, concat (map hex02 flag))"
    unfolding binflag_def fl by (simp only: h sum.case prod.case f b d(1) n o(1) r)
  then show ?thesis by (simp add: binflag_main_def send_flag_def Let_def)
qed

definition demo_blocks :: "(nat \<times> 16 word \<times> byte list) list" where
  "demo_blocks = [(0, 0x0206, [1, 2, 3, 4]), (2, 0, [9, 9]), (4, 0x0506, [5, 6])]"

theorem binflag_recovers_witness:
  "binflag (challenge (replicate 8 66) 6 [0, 0] demo_blocks [1, 4] @ []) = Inr ([2, 3, 5, 6], ''02030506'')"
proof -
  let ?data = "[1, 2, 3, 4, 5, 6] :: byte list"
  let ?flag = "concat (map (\<lambda>i. [?data ! i, ?data ! (i + 1)]) [1, 4])"
  have length_demo: "length (replicate 8 (66 :: byte)) = 8" "length [0, 0 :: byte] = 2" "length ?data < 2 ^ 32"
    "length demo_blocks < 2 ^ 16" "length [1, 4 :: nat] < 2 ^ 16" by (simp_all add: demo_blocks_def)
  have x: "xor_sum [1, 2, 3, 4] = Inr 0x0206" "xor_sum [9, 9] = Inr 0x0909" "xor_sum [5, 6] = Inr 0x0506" by simp_all
  have "list_all block_ok demo_blocks" by (simp add: demo_blocks_def block_ok_def)
  moreover have "describes [1, 2, 3, 4, 5, 6] (0, 0x0206, [1, 2, 3, 4])" "describes [1, 2, 3, 4, 5, 6] (4, 0x0506, [5, 6])"
    by (auto simp: describes_def less_Suc_eq)
  then have "\<forall>b \<in> set demo_blocks. sound_block b \<longrightarrow> describes [1, 2, 3, 4, 5, 6] b"
    by (simp add: demo_blocks_def sound_block_def x)
  moreover have "\<forall>i \<in> set [1, 4]. i + 1 < length [1, 2, 3, 4, 5, 6 :: byte] \<and> (\<exists>b \<in> set demo_blocks. covers b i) \<and>
      (\<exists>b \<in> set demo_blocks. covers b (i + 1))" by (simp add: demo_blocks_def covers_def sound_block_def x)
  ultimately have C: "binflag (challenge (replicate 8 66) (length ?data) [0, 0] demo_blocks [1, 4] @ []) =
      Inr (?flag, concat (map hex02 ?flag))"
    by (intro conjunct1 [OF binflag_recovers]) (simp_all only: length_demo)
  have "?flag = [2, 3, 5, 6]" "length ?data = 6" by simp_all
  moreover have "concat (map hex02 [2, 3, 5, 6]) = ''02030506''" by code_simp
  ultimately show ?thesis using C by (simp only:)
qed

end
