(* ===== verification/Icmp_Daemon.thy ===== *)
theory Icmp_Daemon
  imports Sock_Addr Checksum Ready_Loop
begin

text \<open>
  The ICMP daemon \<open>icmpd\<close>: clients connect over a Unix domain socket, pass the descriptor of their UDP socket
  (\<open>lib/read_fd.c\<close>), and get a message for every ICMP error that a datagram of this socket caused. The table of
  clients is as in the \<open>select\<close> server; beside it each entry has the family and the local port of the client.

  What the kernel answers in a round is a record. A received message is the list of its bytes; the buffer behind it
  is uninitialised. Ports are the 16 bits as they are in memory.
\<close>

subsection \<open>Passing descriptors\<close>

text \<open>What \<open>recvmsg\<close> returns: an error, or a count and the first control message, if it has the right length.\<close>

datatype fd_message = Recvmsg_error | Received nat "(int \<times> int \<times> int) option"

definition SOL_SOCKET :: int where "SOL_SOCKET = 1"
definition SCM_RIGHTS :: int where "SCM_RIGHTS = 1"

text \<open>The count and what is in \<open>*recvfd\<close> afterwards.\<close>

definition read_fd :: "fd_message \<Rightarrow> int \<Rightarrow> (int \<times> int) outcome" where
  "read_fd m recvfd =
     (case m of
        Recvmsg_error \<Rightarrow> Inr (-1, recvfd)
      | Received n cm \<Rightarrow>
          if n = 0 then Inr (0, recvfd)
          else (case cm of
                  None \<Rightarrow> Inr (int n, -1)
                | Some (level, ty, fd) \<Rightarrow>
                    if level \<noteq> SOL_SOCKET then Inl (Err_quit ''control level != SOL_SOCKET'')
                    else if ty \<noteq> SCM_RIGHTS then Inl (Err_quit ''control type != SCM_RIGHTS'')
                    else Inr (int n, fd)))"

definition Read_fd :: "fd_message \<Rightarrow> int \<Rightarrow> (int \<times> int) outcome" where
  "Read_fd m recvfd =
     (case read_fd m recvfd of
        Inl e \<Rightarrow> Inl e
      | Inr (n, fd) \<Rightarrow> if n < 0 then Inl (Err_sys ''read_fd error'') else Inr (n, fd))"

subsection \<open>State\<close>

record iclient =
  ic_connfd :: int
  ic_family :: int
  ic_lport :: int

record icmpd_err =
  icmpd_errno :: int
  icmpd_type :: byte
  icmpd_code :: byte
  icmpd_len :: nat
  icmpd_dest :: sockaddr

definition EHOSTUNREACH :: int where "EHOSTUNREACH = 113"
definition EMSGSIZE :: int where "EMSGSIZE = 90"
definition ECONNREFUSED :: int where "ECONNREFUSED = 111"

text \<open>What is written to a client: the answer to its registration, or an error.\<close>

datatype imessage = Registered bool | Icmp_error icmpd_err

record icmpd =
  id_client :: "iclient list"
  id_fd4 :: int
  id_fd6 :: int
  id_listen :: int
  id_maxi :: int
  id_maxfd :: int
  id_nready :: int
  id_allset :: "int list"
  id_out :: "(int \<times> imessage) list"

record ikernel =
  ik_rset :: "int list"
  ik_nready :: int
  ik_accept :: int
  ik_recv4 :: "errno + byte list"
  ik_recv6 :: "errno + byte list"
  ik_message :: "int \<Rightarrow> fd_message"
  ik_getsockname :: "int \<Rightarrow> sockaddr option"
  ik_bind :: "int \<Rightarrow> sockaddr \<Rightarrow> bool"
  ik_bound :: "int \<Rightarrow> sockaddr \<Rightarrow> 16 word option"
  ik_write :: "int \<Rightarrow> bool"
  ik_close :: "int \<Rightarrow> bool"

definition free_entry :: iclient where
  "free_entry = \<lparr>ic_connfd = -1, ic_family = 0, ic_lport = 0\<rparr>"

text \<open>
  \<open>main\<close> up to the loop, for the descriptors the three calls of \<open>Socket\<close> return and for whether \<open>bind\<close> and
  \<open>listen\<close> succeed.
\<close>

definition icmpd_init :: "int \<Rightarrow> int \<Rightarrow> int \<Rightarrow> bool \<Rightarrow> bool \<Rightarrow> icmpd outcome" where
  "icmpd_init fd4 fd6 listenfd bound listening =
     (if fd4 < 0 then Inl (Err_sys ''socket error'')
      else if int FD_SETSIZE \<le> fd4 then Inl (Undefined Buffer_overflow)
      else if fd6 < 0 then Inl (Err_sys ''socket error'')
      else if int FD_SETSIZE \<le> fd6 then Inl (Undefined Buffer_overflow)
      else if listenfd < 0 then Inl (Err_sys ''socket error'')
      else if \<not> bound then Inl (Err_sys ''bind error'')
      else if \<not> listening then Inl (Err_sys ''listen error'')
      else if int FD_SETSIZE \<le> listenfd then Inl (Undefined Buffer_overflow)
      else Inr \<lparr>id_client = replicate FD_SETSIZE free_entry, id_fd4 = fd4, id_fd6 = fd6, id_listen = listenfd, id_maxi = -1,
                id_maxfd = max (max fd4 fd6) listenfd, id_nready = 0, id_allset = [fd4, fd6, listenfd], id_out = []\<rparr>)"

subsection \<open>Handlers\<close>

definition less_ready :: "icmpd \<Rightarrow> icmpd" where
  "less_ready s = s\<lparr>id_nready := id_nready s - 1\<rparr>"

text \<open>The result of \<open>close\<close> on a connection that is refused is ignored.\<close>

definition readable_listen :: "ikernel \<Rightarrow> icmpd \<Rightarrow> icmpd outcome" where
  "readable_listen k s =
     (let connfd = ik_accept k; i = find_slot (\<lambda>c. ic_connfd c < 0) (id_client s) in
      if connfd < 0 then Inl (Err_sys ''accept error'')
      else if i = FD_SETSIZE then Inr (less_ready s)
      else if int FD_SETSIZE \<le> connfd then Inl (Undefined Buffer_overflow)
      else Inr (less_ready (s\<lparr>id_client := (id_client s)[i := (id_client s ! i)\<lparr>ic_connfd := connfd\<rparr>],
                  id_allset := id_allset s @ [connfd], id_maxfd := max (id_maxfd s) connfd,
                  id_maxi := max (id_maxi s) (int i)\<rparr>)))"

definition Write_to :: "ikernel \<Rightarrow> int \<Rightarrow> imessage \<Rightarrow> icmpd \<Rightarrow> icmpd outcome" where
  "Write_to k fd m s = (if ik_write k fd then Inr (s\<lparr>id_out := id_out s @ [(fd, m)]\<rparr>) else Inl (Err_sys ''write error''))"

text \<open>The label \<open>clientdone\<close>.\<close>

definition client_done :: "ikernel \<Rightarrow> nat \<Rightarrow> int \<Rightarrow> int \<Rightarrow> icmpd \<Rightarrow> icmpd outcome" where
  "client_done k i unixfd recvfd s =
     (if \<not> ik_close k unixfd \<or> (0 \<le> recvfd \<and> \<not> ik_close k recvfd) then Inl (Err_sys ''close error'')
      else Inr (less_ready (s\<lparr>id_allset := removeAll unixfd (id_allset s),
                  id_client := (id_client s)[i := (id_client s ! i)\<lparr>ic_connfd := -1\<rparr>]\<rparr>)))"

text \<open>The label \<open>clienterr\<close>.\<close>

definition client_err :: "ikernel \<Rightarrow> nat \<Rightarrow> int \<Rightarrow> int \<Rightarrow> icmpd \<Rightarrow> icmpd outcome" where
  "client_err k i unixfd recvfd s =
     (case Write_to k unixfd (Registered False) s of Inl e \<Rightarrow> Inl e | Inr s \<Rightarrow> client_done k i unixfd recvfd s)"

definition readable_conn :: "ikernel \<Rightarrow> icmpd \<Rightarrow> nat \<Rightarrow> icmpd outcome" where
  "readable_conn k s i =
     (let unixfd = ic_connfd (id_client s ! i) in
      case Read_fd (ik_message k unixfd) (-1) of
        Inl e \<Rightarrow> Inl e
      | Inr (n, recvfd) \<Rightarrow>
          if n = 0 then client_done k i unixfd recvfd s
          else if recvfd < 0 then client_err k i unixfd recvfd s
          else (case ik_getsockname k recvfd of
                  None \<Rightarrow> client_err k i unixfd recvfd s
                | Some ss \<Rightarrow>
                    (let family = sa_family ss;
                         port = sock_get_port ss;
                         lport = (if port = 0 then sock_bind_wild (ik_bind k recvfd) (ik_bound k recvfd) family else port);
                         s = s\<lparr>id_client := (id_client s)[i := (id_client s ! i)\<lparr>ic_family := family, ic_lport := lport\<rparr>]\<rparr>
                     in if port = 0 \<and> lport \<le> 0 then client_err k i unixfd recvfd s
                        else (case Write_to k unixfd (Registered True) s of
                                Inl e \<Rightarrow> Inl e
                              | Inr s \<Rightarrow> if ik_close k recvfd then Inr (less_ready s) else Inl (Err_sys ''close error'')))))"

subsection \<open>ICMP messages\<close>

text \<open>The loop over the clients: every entry with the family and the port gets the error.\<close>

definition wants :: "int \<Rightarrow> 16 word \<Rightarrow> iclient \<Rightarrow> bool" where
  "wants family sport c = (0 \<le> ic_connfd c \<and> ic_family c = family \<and> ic_lport c = uint sport)"

definition tell :: "ikernel \<Rightarrow> int \<Rightarrow> 16 word \<Rightarrow> icmpd_err outcome \<Rightarrow> icmpd \<Rightarrow> nat \<Rightarrow> icmpd outcome" where
  "tell k family sport err s i =
     (if wants family sport (id_client s ! i)
      then (case err of Inl e \<Rightarrow> Inl e | Inr m \<Rightarrow> Write_to k (ic_connfd (id_client s ! i)) (Icmp_error m) s)
      else Inr s)"

definition tell_all :: "ikernel \<Rightarrow> int \<Rightarrow> 16 word \<Rightarrow> icmpd_err outcome \<Rightarrow> icmpd \<Rightarrow> icmpd outcome" where
  "tell_all k family sport err s = serve_each (tell k family sport err) [0..<nat (id_maxi s + 1)] s"

definition ICMP_UNREACH :: byte where "ICMP_UNREACH = 3"
definition ICMP_SOURCEQUENCH :: byte where "ICMP_SOURCEQUENCH = 4"
definition ICMP_TIMXCEED :: byte where "ICMP_TIMXCEED = 11"

definition errno_v4 :: "byte \<Rightarrow> byte \<Rightarrow> int" where
  "errno_v4 ty code =
     (if ty = ICMP_UNREACH then if code = 3 then ECONNREFUSED else if code = 4 then EMSGSIZE else EHOSTUNREACH
      else EHOSTUNREACH)"

definition errno_v6 :: "byte \<Rightarrow> byte \<Rightarrow> int" where
  "errno_v6 ty code = (if ty = 2 then EMSGSIZE else if ty = 1 \<and> code = 4 then ECONNREFUSED else EHOSTUNREACH)"

text \<open>\<open>n\<close> bytes of the received message are looked at.\<close>

definition needs :: "nat \<Rightarrow> byte list \<Rightarrow> 'a outcome \<Rightarrow> 'a outcome" where
  "needs n pkt r = (if n \<le> length pkt then r else Inl (Undefined Uninit_read))"

text \<open>The ports of the returned datagram at \<open>udp\<close>; the destination port is read only when a client wants it.\<close>

definition icmp_v4 :: "ikernel \<Rightarrow> byte list \<Rightarrow> icmpd \<Rightarrow> icmpd outcome" where
  "icmp_v4 k pkt s =
     needs 1 pkt
     (let hlen1 = 4 * (unat (pkt ! 0) mod 16); icmplen = int (length pkt) - int hlen1 in
      if icmplen < 8 then Inl (Err_quit (''icmplen ('' @ print_int icmplen @ '') < 8''))
      else
        (let ty = pkt ! hlen1; code = pkt ! (hlen1 + 1) in
         if ty = ICMP_UNREACH \<or> ty = ICMP_TIMXCEED \<or> ty = ICMP_SOURCEQUENCH then
           if icmplen < 8 + 20 + 8 then Inl (Err_quit (''icmplen ('' @ print_int icmplen @ '') < 8 + 20 + 8''))
           else
             (let hip = drop (hlen1 + 8) pkt; hlen2 = 4 * (unat (hip ! 0) mod 16); udp = drop hlen2 hip in
              if hip ! 9 = 17 then
                needs 2 udp
                (tell_all k AF_INET (load16 (udp ! 0) (udp ! 1))
                   (needs 4 udp (Inr \<lparr>icmpd_errno = errno_v4 ty code, icmpd_type = ty, icmpd_code = code, icmpd_len = 16,
                      icmpd_dest = SIn \<lparr>sin_port = load16 (udp ! 2) (udp ! 3), sin_addr = take 4 (drop 16 hip)\<rparr>\<rparr>)) s)
              else Inr s)
         else Inr s))"

definition readable_v4 :: "ikernel \<Rightarrow> icmpd \<Rightarrow> icmpd outcome" where
  "readable_v4 k s =
     (case ik_recv4 k of
        Inl _ \<Rightarrow> Inl (Err_sys ''recvfrom error'')
      | Inr pkt \<Rightarrow> map_sum id less_ready (icmp_v4 k (take MAXLINE pkt) s))"

definition icmp_v6 :: "ikernel \<Rightarrow> byte list \<Rightarrow> icmpd \<Rightarrow> icmpd outcome" where
  "icmp_v6 k pkt s =
     (let icmp6len = length pkt in
      if icmp6len < 8 then Inl (Err_quit (''icmp6len ('' @ print_dec icmp6len @ '') < 8''))
      else
        (let ty = pkt ! 0; code = pkt ! 1 in
         if ty = 1 \<or> ty = 2 \<or> ty = 3 then
           if icmp6len < 8 + 8 then Inl (Err_quit (''icmp6len ('' @ print_dec icmp6len @ '') < 8 + 8''))
           else
             (let hip6 = drop 8 pkt; udp = drop 40 hip6 in
              needs 40 hip6
              (if hip6 ! 6 = 17 then
                 needs 2 udp
                 (tell_all k AF_INET6 (load16 (udp ! 0) (udp ! 1))
                    (needs 4 udp (Inr \<lparr>icmpd_errno = errno_v6 ty code, icmpd_type = ty, icmpd_code = code, icmpd_len = 28,
                       icmpd_dest = SIn6 \<lparr>sin6_port = load16 (udp ! 2) (udp ! 3), sin6_addr = take 16 (drop 24 hip6)\<rparr>\<rparr>)) s)
               else Inr s))
         else Inr s))"

definition readable_v6 :: "ikernel \<Rightarrow> icmpd \<Rightarrow> icmpd outcome" where
  "readable_v6 k s =
     (case ik_recv6 k of
        Inl _ \<Rightarrow> Inl (Err_sys ''recvfrom error'')
      | Inr pkt \<Rightarrow> map_sum id less_ready (icmp_v6 k (take MAXLINE pkt) s))"

subsection \<open>The loop\<close>

text \<open>\<open>if (FD_ISSET(fd, &rset)) if (handler() <= 0) continue;\<close> with the rest of the body.\<close>

definition handle_if :: "bool \<Rightarrow> (icmpd \<Rightarrow> icmpd outcome) \<Rightarrow> (icmpd \<Rightarrow> icmpd outcome) \<Rightarrow> icmpd \<Rightarrow> icmpd outcome" where
  "handle_if ready handler rest s =
     (if ready then (case handler s of Inl e \<Rightarrow> Inl e | Inr s \<Rightarrow> if id_nready s \<le> 0 then Inr s else rest s) else rest s)"

definition conn_ready :: "ikernel \<Rightarrow> icmpd \<Rightarrow> nat \<Rightarrow> bool outcome" where
  "conn_ready k s i = (let sockfd = ic_connfd (id_client s ! i) in Inr (0 \<le> sockfd \<and> sockfd \<in> set (ik_rset k)))"

definition icmpd_conns :: "ikernel \<Rightarrow> icmpd \<Rightarrow> icmpd outcome" where
  "icmpd_conns k s = scan (conn_ready k) (readable_conn k) (\<lambda>n. n \<le> 0) [0..<nat (id_maxi s + 1)] (id_nready s) s"

definition icmpd_round :: "ikernel \<Rightarrow> icmpd \<Rightarrow> icmpd outcome" where
  "icmpd_round k s =
     (if ik_nready k < 0 then Inl (Err_sys ''select error'')
      else handle_if (id_listen s \<in> set (ik_rset k)) (readable_listen k)
             (handle_if (id_fd4 s \<in> set (ik_rset k)) (readable_v4 k)
               (handle_if (id_fd6 s \<in> set (ik_rset k)) (readable_v6 k) (icmpd_conns k)))
             (s\<lparr>id_nready := ik_nready k\<rparr>))"

subsection \<open>The pass over the clients\<close>

text \<open>
  Serving a client leaves the other entries alone, so that stopping at the count of \<open>select\<close> loses no client.
\<close>

lemma client_done_other:
  "client_done k i unixfd recvfd s = Inr t \<Longrightarrow> j \<noteq> i \<Longrightarrow> id_client t ! j = id_client s ! j"
  by (auto simp: client_done_def less_ready_def split: if_splits)

lemma client_err_other:
  "client_err k i unixfd recvfd s = Inr t \<Longrightarrow> j \<noteq> i \<Longrightarrow> id_client t ! j = id_client s ! j"
  by (auto simp: client_err_def Write_to_def dest!: client_done_other split: if_splits)

lemma readable_conn_other:
  "readable_conn k s i = Inr t \<Longrightarrow> j \<noteq> i \<Longrightarrow> id_client t ! j = id_client s ! j"
  by (auto simp: readable_conn_def Let_def Write_to_def less_ready_def dest!: client_done_other client_err_other
      split: sum.splits if_splits option.splits)

interpretation icmpd_loop: ready_loop "conn_ready k" "readable_conn k" for k
  by unfold_locales (simp add: conn_ready_def readable_conn_other)

definition ready_clients :: "ikernel \<Rightarrow> icmpd \<Rightarrow> nat list" where
  "ready_clients k s = filter (\<lambda>i. 0 \<le> ic_connfd (id_client s ! i) \<and> ic_connfd (id_client s ! i) \<in> set (ik_rset k)) [0..<nat (id_maxi s + 1)]"

lemma icmpd_conns_all:
  assumes "id_nready s = int (length (ready_clients k s))" "ready_clients k s \<noteq> []"
  shows "icmpd_conns k s = serve_each (readable_conn k) (ready_clients k s) s"
  using icmpd_loop.scan_exact [of "[0..<nat (id_maxi s + 1)]" k s _ "id_nready s" "\<lambda>n. n \<le> 0" "[]"] assms
  by (simp add: icmpd_conns_def ready_clients_def conn_ready_def Let_def)

subsection \<open>The invariant of the table\<close>

definition live_entry :: "iclient \<Rightarrow> bool" where
  "live_entry c = (0 \<le> ic_connfd c)"

definition live :: "icmpd \<Rightarrow> int list" where
  "live s = map ic_connfd (filter live_entry (id_client s))"

definition own_fds :: "icmpd \<Rightarrow> int set" where
  "own_fds s = {id_fd4 s, id_fd6 s, id_listen s}"

definition icmpd_inv :: "icmpd \<Rightarrow> bool" where
  "icmpd_inv s = (length (id_client s) = FD_SETSIZE \<and> distinct (live s) \<and> own_fds s \<inter> set (live s) = {} \<and>
     set (id_allset s) = own_fds s \<union> set (live s) \<and> (\<forall>fd \<in> set (id_allset s). 0 \<le> fd \<and> fd \<le> id_maxfd s) \<and>
     id_maxfd s < int FD_SETSIZE \<and> -1 \<le> id_maxi s \<and> id_maxi s < int FD_SETSIZE \<and>
     (\<forall>i < FD_SETSIZE. id_maxi s < int i \<longrightarrow> \<not> live_entry (id_client s ! i)))"

definition icmpd_promise :: "icmpd \<Rightarrow> ikernel \<Rightarrow> bool" where
  "icmpd_promise s k = (ik_accept k \<notin> set (id_allset s))"

lemma inv_frame:
  assumes "icmpd_inv s" "id_client t = id_client s" "id_allset t = id_allset s" "id_maxi t = id_maxi s" "id_maxfd t = id_maxfd s"
    "id_fd4 t = id_fd4 s" "id_fd6 t = id_fd6 s" "id_listen t = id_listen s"
  shows "icmpd_inv t"
  using assms by (simp add: icmpd_inv_def own_fds_def live_def)

lemma less_ready_simps [simp]:
  "id_client (less_ready s) = id_client s" "id_allset (less_ready s) = id_allset s" "id_maxi (less_ready s) = id_maxi s"
  "id_maxfd (less_ready s) = id_maxfd s" "id_fd4 (less_ready s) = id_fd4 s" "id_fd6 (less_ready s) = id_fd6 s"
  "id_listen (less_ready s) = id_listen s" "id_out (less_ready s) = id_out s" "live (less_ready s) = live s"
  by (simp_all add: less_ready_def live_def)

lemma less_ready_inv: "icmpd_inv s \<Longrightarrow> icmpd_inv (less_ready s)"
  by (rule inv_frame) simp_all

lemma listen_inv:
  assumes inv: "icmpd_inv s" and pr: "icmpd_promise s k" and st: "readable_listen k s = Inr t"
  shows "icmpd_inv t \<and> id_out t = id_out s \<and> set (live s) \<subseteq> set (live t) \<and>
    (\<forall>i < FD_SETSIZE. live_entry (id_client s ! i) \<longrightarrow> id_client t ! i = id_client s ! i) \<and>
    (\<forall>fd \<in> set (live t). fd \<in> set (live s) \<or> fd = ik_accept k) \<and> own_fds t = own_fds s"
proof -
  let ?i = "find_slot (\<lambda>c. ic_connfd c < 0) (id_client s)" and ?fd = "ik_accept k"
  have len: "length (id_client s) = FD_SETSIZE" using inv by (simp add: icmpd_inv_def)
  show ?thesis
  proof (cases "?i = FD_SETSIZE")
    case True
    then have "t = less_ready s" using st by (auto simp: readable_listen_def Let_def split: if_splits)
    then show ?thesis using less_ready_inv [OF inv] by (simp add: own_fds_def)
  next
    case False
    let ?g = "id_client s ! ?i"
    let ?f = "?g\<lparr>ic_connfd := ?fd\<rparr>"
    have i: "?i < length (id_client s)"
      using False find_slot_le [of "\<lambda>c. ic_connfd c < 0" "id_client s"] len by linarith
    have g: "\<not> live_entry ?g" using find_slot_free [OF i] by (simp add: live_entry_def)
    have fd: "0 \<le> ?fd" "?fd < int FD_SETSIZE" and t: "t = less_ready (s\<lparr>id_client := (id_client s)[?i := ?f],
                  id_allset := id_allset s @ [?fd], id_maxfd := max (id_maxfd s) ?fd, id_maxi := max (id_maxi s) (int ?i)\<rparr>)"
      using st False by (auto simp: readable_listen_def Let_def split: if_splits)
    have f: "live_entry ?f" using fd by (simp add: live_entry_def)
    obtain ys zs where x: "\<And>P. filter P (id_client s) = filter P ys @ (if P ?g then [?g] else []) @ filter P zs"
      "\<And>P v. filter P ((id_client s)[?i := v]) = filter P ys @ (if P v then [v] else []) @ filter P zs"
      using table_split [OF i] by blast
    have new: "?fd \<notin> own_fds s" "?fd \<notin> set (live s)" using inv pr by (auto simp: icmpd_inv_def icmpd_promise_def)
    have L: "set (live t) = insert ?fd (set (live s))" "distinct (live t) = distinct (?fd # live s)" "own_fds t = own_fds s"
      using f g by (auto simp: t live_def x own_fds_def)
    have c: "id_client t ! j = (if j = ?i then ?f else id_client s ! j)" if "j < FD_SETSIZE" for j
      using i by (simp add: t nth_list_update)
    have "icmpd_inv t"
      unfolding icmpd_inv_def L
      using inv new fd c i by (auto simp: icmpd_inv_def t le_max_iff_disj len)
    then show ?thesis using L c g by (auto simp: t)
  qed
qed

lemma done_inv:
  assumes inv: "icmpd_inv s" and i: "i < FD_SETSIZE" and l: "live_entry (id_client s ! i)"
    and st: "client_done k i (ic_connfd (id_client s ! i)) recvfd s = Inr t"
  shows "icmpd_inv t \<and> id_out t = id_out s \<and> set (live t) = set (live s) - {ic_connfd (id_client s ! i)} \<and>
    id_client t = (id_client s)[i := (id_client s ! i)\<lparr>ic_connfd := -1\<rparr>] \<and> id_maxi t = id_maxi s \<and> own_fds t = own_fds s"
proof -
  let ?g = "id_client s ! i"
  let ?f = "?g\<lparr>ic_connfd := -1\<rparr>" and ?fd = "ic_connfd ?g"
  have len: "length (id_client s) = FD_SETSIZE" using inv by (simp add: icmpd_inv_def)
  have t: "t = less_ready (s\<lparr>id_allset := removeAll ?fd (id_allset s), id_client := (id_client s)[i := ?f]\<rparr>)"
    using st by (auto simp: client_done_def split: if_splits)
  obtain ys zs where x: "\<And>P. filter P (id_client s) = filter P ys @ (if P ?g then [?g] else []) @ filter P zs"
    "\<And>P v. filter P ((id_client s)[i := v]) = filter P ys @ (if P v then [v] else []) @ filter P zs"
    using table_split [of i "id_client s"] i len by metis
  have f: "\<not> live_entry ?f" by (simp add: live_entry_def)
  have dl: "distinct (live s)" using inv by (simp add: icmpd_inv_def)
  have "live s = map ic_connfd (filter live_entry ys) @ ?fd # map ic_connfd (filter live_entry zs)"
    "live t = map ic_connfd (filter live_entry ys) @ map ic_connfd (filter live_entry zs)"
    using l f by (simp_all add: live_def t x)
  then have L: "set (live t) = set (live s) - {?fd}" "distinct (live t)" "?fd \<in> set (live s)" using dl by auto
  have o: "own_fds t = own_fds s" by (simp add: t own_fds_def)
  have c: "id_client t ! j = (if j = i then ?f else id_client s ! j)" if "j < FD_SETSIZE" for j
    using i len by (simp add: t nth_list_update)
  have "icmpd_inv t"
    unfolding icmpd_inv_def o L(1) using inv L(2,3) f i
    by (auto simp: icmpd_inv_def t len nth_list_update split: if_splits)
  then show ?thesis using L o by (simp add: t)
qed

text \<open>What a client registers in a round, if it does.\<close>

definition registration :: "ikernel \<Rightarrow> int \<Rightarrow> int \<times> int" where
  "registration k fd =
     (case Read_fd (ik_message k fd) (-1) of
        Inl _ \<Rightarrow> (0, 0)
      | Inr (n, recvfd) \<Rightarrow>
          (case ik_getsockname k recvfd of
             None \<Rightarrow> (0, 0)
           | Some ss \<Rightarrow> (sa_family ss, if sock_get_port ss = 0
               then sock_bind_wild (ik_bind k recvfd) (ik_bound k recvfd) (sa_family ss) else sock_get_port ss)))"

text \<open>A served client either stays, with its registration, or its entry is free.\<close>

definition conn_outcome :: "ikernel \<Rightarrow> icmpd \<Rightarrow> nat \<Rightarrow> icmpd \<Rightarrow> bool" where
  "conn_outcome k s i t =
     (let c = id_client s ! i; fd = ic_connfd c in
      id_client t = (id_client s)[i := c\<lparr>ic_family := fst (registration k fd), ic_lport := snd (registration k fd)\<rparr>]
        \<and> id_out t = id_out s @ [(fd, Registered True)]
      \<or> (\<exists>v out. id_client t = (id_client s)[i := v] \<and> ic_connfd v = -1 \<and> id_out t = id_out s @ out
          \<and> set out \<subseteq> {(fd, Registered False)}))"

lemma inv_rewrite_entry:
  assumes "icmpd_inv s" "i < FD_SETSIZE" "ic_connfd v = ic_connfd (id_client s ! i)"
  shows "icmpd_inv (s\<lparr>id_client := (id_client s)[i := v]\<rparr>)" "live (s\<lparr>id_client := (id_client s)[i := v]\<rparr>) = live s"
proof -
  have len: "length (id_client s) = FD_SETSIZE" using assms(1) by (simp add: icmpd_inv_def)
  obtain ys zs where x: "\<And>P. filter P (id_client s) = filter P ys @ (if P (id_client s ! i) then [id_client s ! i] else []) @ filter P zs"
    "\<And>P v. filter P ((id_client s)[i := v]) = filter P ys @ (if P v then [v] else []) @ filter P zs"
    using table_split [of i "id_client s"] assms(2) len by metis
  show l: "live (s\<lparr>id_client := (id_client s)[i := v]\<rparr>) = live s"
    using assms(3) by (simp add: live_def x live_entry_def)
  show "icmpd_inv (s\<lparr>id_client := (id_client s)[i := v]\<rparr>)"
    unfolding icmpd_inv_def l using assms by (auto simp: icmpd_inv_def own_fds_def len nth_list_update live_entry_def split: if_splits)
qed

lemma drop_spec:
  assumes inv: "icmpd_inv s" and i: "i < FD_SETSIZE" and l: "live_entry (id_client s ! i)"
    and st: "client_done k i (ic_connfd (id_client s ! i)) recvfd s = Inr t \<or> client_err k i (ic_connfd (id_client s ! i)) recvfd s = Inr t"
  shows "icmpd_inv t \<and> id_maxi t = id_maxi s \<and> own_fds t = own_fds s
    \<and> (\<exists>v out. id_client t = (id_client s)[i := v] \<and> ic_connfd v = -1 \<and> id_out t = id_out s @ out
          \<and> set out \<subseteq> {(ic_connfd (id_client s ! i), Registered False)})"
  using st
proof
  assume "client_done k i (ic_connfd (id_client s ! i)) recvfd s = Inr t"
  from done_inv [OF inv i l this] show ?thesis
    by (intro conjI exI [of _ "(id_client s ! i)\<lparr>ic_connfd := -1\<rparr>"] exI [of _ "[]"]) simp_all
next
  assume "client_err k i (ic_connfd (id_client s ! i)) recvfd s = Inr t"
  then have d: "client_done k i (ic_connfd (id_client s ! i)) recvfd
      (s\<lparr>id_out := id_out s @ [(ic_connfd (id_client s ! i), Registered False)]\<rparr>) = Inr t"
    by (auto simp: client_err_def Write_to_def split: if_splits)
  let ?u = "s\<lparr>id_out := id_out s @ [(ic_connfd (id_client s ! i), Registered False)]\<rparr>"
  have "icmpd_inv ?u" by (rule inv_frame [OF inv]) simp_all
  from done_inv [OF this i, of k recvfd t] d l show ?thesis
    by (intro conjI exI [of _ "(id_client s ! i)\<lparr>ic_connfd := -1\<rparr>"] exI [of _ "[(ic_connfd (id_client s ! i), Registered False)]"])
      (simp_all add: own_fds_def)
qed

lemma conn_spec:
  assumes inv: "icmpd_inv s" and i: "i < FD_SETSIZE" and l: "live_entry (id_client s ! i)"
    and st: "readable_conn k s i = Inr t"
  shows "icmpd_inv t \<and> id_maxi t = id_maxi s \<and> own_fds t = own_fds s \<and> conn_outcome k s i t"
proof -
  let ?c = "id_client s ! i"
  let ?fd = "ic_connfd ?c"
  have len: "length (id_client s) = FD_SETSIZE" using inv by (simp add: icmpd_inv_def)
  obtain n recvfd where rd: "Read_fd (ik_message k ?fd) (-1) = Inr (n, recvfd)"
    using st by (auto simp: readable_conn_def Let_def split: sum.splits)
  consider (drop) "client_done k i ?fd recvfd s = Inr t \<or> client_err k i ?fd recvfd s = Inr t"
    | (sock) ss where "ik_getsockname k recvfd = Some ss" "n \<noteq> 0" "0 \<le> recvfd"
    using st rd by (auto simp: readable_conn_def Let_def split: if_splits option.splits)
  then show ?thesis
  proof cases
    case drop
    from drop_spec [OF inv i l drop] show ?thesis by (simp add: conn_outcome_def Let_def)
  next
    case sock
    define v where "v = ?c\<lparr>ic_family := fst (registration k ?fd), ic_lport := snd (registration k ?fd)\<rparr>"
    let ?u = "s\<lparr>id_client := (id_client s)[i := v]\<rparr>"
    have reg: "registration k ?fd = (sa_family ss, if sock_get_port ss = 0
               then sock_bind_wild (ik_bind k recvfd) (ik_bound k recvfd) (sa_family ss) else sock_get_port ss)"
      using rd sock by (simp add: registration_def)
    have v: "ic_connfd v = ?fd" by (simp add: v_def)
    note U = inv_rewrite_entry [OF inv i v]
    have e: "readable_conn k s i = (if sock_get_port ss = 0 \<and> snd (registration k ?fd) \<le> 0 then client_err k i ?fd recvfd ?u
        else case Write_to k ?fd (Registered True) ?u of Inl e \<Rightarrow> Inl e
             | Inr s \<Rightarrow> if ik_close k recvfd then Inr (less_ready s) else Inl (Err_sys ''close error''))"
      using rd sock by (simp add: readable_conn_def Let_def reg v_def)
    show ?thesis
    proof (cases "sock_get_port ss = 0 \<and> snd (registration k ?fd) \<le> 0")
      case True
      then have "client_err k i (ic_connfd (id_client ?u ! i)) recvfd ?u = Inr t" using st i len by (simp add: e v)
      moreover have "live_entry (id_client ?u ! i)" using l i len by (simp add: live_entry_def v)
      ultimately have "icmpd_inv t \<and> id_maxi t = id_maxi ?u \<and> own_fds t = own_fds ?u
        \<and> (\<exists>v out. id_client t = (id_client ?u)[i := v] \<and> ic_connfd v = -1 \<and> id_out t = id_out ?u @ out
          \<and> set out \<subseteq> {(ic_connfd (id_client ?u ! i), Registered False)})"
        by (intro drop_spec [OF U(1) i, of k recvfd]) simp_all
      then show ?thesis using i len by (auto simp: conn_outcome_def Let_def own_fds_def v)
    next
      case False
      then have t: "t = less_ready (?u\<lparr>id_out := id_out s @ [(?fd, Registered True)]\<rparr>)"
        using st unfolding e by (auto simp: Write_to_def split: if_splits)
      have "icmpd_inv t" by (rule inv_frame [OF U(1)]) (simp_all add: t)
      then show ?thesis by (simp add: t own_fds_def conn_outcome_def Let_def v_def)
    qed
  qed
qed

subsection \<open>Messages\<close>

lemma tell_all_ok:
  assumes "icmpd_inv s" "\<forall>fd \<in> set (live s). ik_write k fd"
  shows "tell_all k family sport (Inr m) s = Inr (s\<lparr>id_out := id_out s @
    map (\<lambda>c. (ic_connfd c, Icmp_error m)) (filter (wants family sport) (id_client s))\<rparr>)"
proof -
  let ?N = "nat (id_maxi s + 1)" and ?c = "id_client s"
  have len: "length ?c = FD_SETSIZE" using assms(1) by (simp add: icmpd_inv_def)
  have w: "ik_write k (ic_connfd c)" if "c \<in> set ?c" "wants family sport c" for c
    using assms(2) that by (auto simp: live_def live_entry_def wants_def)
  have free: "\<not> wants family sport (?c ! i)" if "i < FD_SETSIZE" "?N \<le> i" for i
    using assms(1) that by (auto simp: icmpd_inv_def live_entry_def wants_def)
  have "serve_each (tell k family sport (Inr m)) is (s\<lparr>id_out := out\<rparr>) = Inr (s\<lparr>id_out := out @
      map (\<lambda>c. (ic_connfd c, Icmp_error m)) (filter (wants family sport) (map (nth ?c) is))\<rparr>)"
    if "\<forall>i \<in> set is. i < FD_SETSIZE" for "is" out
    using that
  proof (induction "is" arbitrary: out)
    case (Cons i "is")
    then have "?c ! i \<in> set ?c" by (simp add: len)
    then show ?case using Cons w by (auto simp: tell_def Write_to_def)
  qed simp
  note S = this
  have N: "?N \<le> FD_SETSIZE" using assms(1) by (auto simp: icmpd_inv_def)
  then have "map (nth ?c) [0..<?N] = take ?N ?c" by (intro nth_equalityI) (simp_all add: len)
  moreover have "filter (wants family sport) (take ?N ?c) = filter (wants family sport) ?c"
    by (rule filter_take_all) (use free len in simp)
  ultimately show ?thesis using S [of "[0..<?N]" "id_out s"] N by (simp add: tell_all_def)
qed

text \<open>An ICMP error for a UDP datagram: outer header, type, code, rest of the header, returned header and ports.\<close>

definition ports :: "16 word \<Rightarrow> 16 word \<Rightarrow> byte list" where
  "ports sport dport = store16le sport @ store16le dport"

definition icmp4_packet :: "byte list \<Rightarrow> byte \<Rightarrow> byte \<Rightarrow> byte list \<Rightarrow> byte list \<Rightarrow> 16 word \<Rightarrow> 16 word \<Rightarrow> byte list \<Rightarrow> byte list" where
  "icmp4_packet hdr ty code rest hip sport dport data = hdr @ [ty, code] @ rest @ hip @ ports sport dport @ data"

definition icmp6_packet :: "byte \<Rightarrow> byte \<Rightarrow> byte list \<Rightarrow> byte list \<Rightarrow> 16 word \<Rightarrow> 16 word \<Rightarrow> byte list \<Rightarrow> byte list" where
  "icmp6_packet ty code rest hip6 sport dport data = [ty, code] @ rest @ hip6 @ ports sport dport @ data"

definition ip4_header :: "byte list \<Rightarrow> bool" where
  "ip4_header h = (20 \<le> length h \<and> length h = 4 * (unat (h ! 0) mod 16))"

lemma ports_load:
  "load16 ((ports sport dport @ r) ! 0) ((ports sport dport @ r) ! 1) = sport"
  "load16 ((ports sport dport @ r) ! 2) ((ports sport dport @ r) ! 3) = dport"
  "length (ports sport dport) = 4"
  using load_store16 [of sport] load_store16 [of dport] length_store16le [of sport] length_store16le [of dport]
  by (simp_all add: ports_def store16le_def)

lemma icmp_v4_error:
  assumes "ip4_header hdr" "ip4_header hip" "hip ! 9 = 17" "length rest = 6" "ty \<in> {ICMP_UNREACH, ICMP_TIMXCEED, ICMP_SOURCEQUENCH}"
    and "4 \<le> length data"
  shows "icmp_v4 k (icmp4_packet hdr ty code rest hip sport dport data) s = tell_all k AF_INET sport
    (Inr \<lparr>icmpd_errno = errno_v4 ty code, icmpd_type = ty, icmpd_code = code, icmpd_len = 16,
       icmpd_dest = SIn \<lparr>sin_port = dport, sin_addr = take 4 (drop 16 hip)\<rparr>\<rparr>) s"
proof -
  let ?pkt = "icmp4_packet hdr ty code rest hip sport dport data"
  let ?udp = "ports sport dport @ data"
  have h: "?pkt ! 0 = hdr ! 0" "4 * (unat (hdr ! 0) mod 16) = length hdr" "20 \<le> length hdr"
    using assms(1) by (auto simp: ip4_header_def icmp4_packet_def nth_append)
  have l: "length ?pkt = length hdr + 8 + length hip + 4 + length data"
    using assms(4) ports_load(3) by (simp add: icmp4_packet_def)
  have t: "?pkt ! length hdr = ty" "?pkt ! (length hdr + 1) = code" by (simp_all add: icmp4_packet_def nth_append)
  have d: "drop (length hdr + 8) ?pkt = hip @ ?udp" using assms(4) by (simp add: icmp4_packet_def)
  have hh: "(hip @ ?udp) ! 0 = hip ! 0" "(hip @ ?udp) ! 9 = 17" "4 * (unat (hip ! 0) mod 16) = length hip"
    "20 \<le> length hip" "take 4 (drop 16 (hip @ ?udp)) = take 4 (drop 16 hip)"
    using assms(2,3) by (auto simp: ip4_header_def nth_append)
  have u: "drop (length hip) (hip @ ?udp) = ?udp" by simp
  have n: "1 \<le> length ?pkt" "\<not> int (length ?pkt) - int (length hdr) < 8" "\<not> int (length ?pkt) - int (length hdr) < 8 + 20 + 8"
    "2 \<le> length ?udp" "4 \<le> length ?udp" using l hh(4) assms(6) ports_load(3) by simp_all
  show ?thesis
    unfolding icmp_v4_def needs_def Let_def h(1,2) d hh u ports_load(1,2) t
    using n assms(5) by auto
qed

lemma icmp_v6_error:
  assumes "length hip6 = 40" "hip6 ! 6 = 17" "length rest = 6" "ty \<in> {1, 2, 3}"
  shows "icmp_v6 k (icmp6_packet ty code rest hip6 sport dport data) s = tell_all k AF_INET6 sport
    (Inr \<lparr>icmpd_errno = errno_v6 ty code, icmpd_type = ty, icmpd_code = code, icmpd_len = 28,
       icmpd_dest = SIn6 \<lparr>sin6_port = dport, sin6_addr = drop 24 hip6\<rparr>\<rparr>) s"
proof -
  let ?pkt = "icmp6_packet ty code rest hip6 sport dport data"
  let ?udp = "ports sport dport @ data"
  have l: "length ?pkt = 8 + 40 + 4 + length data" using assms(1,3) ports_load(3) by (simp add: icmp6_packet_def)
  have t: "?pkt ! 0 = ty" "?pkt ! 1 = code" by (simp_all add: icmp6_packet_def)
  have d: "drop 8 ?pkt = hip6 @ ?udp" using assms(3) by (simp add: icmp6_packet_def)
  have hh: "(hip6 @ ?udp) ! 6 = 17" "take 16 (drop 24 (hip6 @ ?udp)) = drop 24 hip6" "drop 40 (hip6 @ ?udp) = ?udp"
    using assms(1,2) by (simp_all add: nth_append)
  have n: "\<not> length ?pkt < 8" "\<not> length ?pkt < 8 + 8" "40 \<le> length (hip6 @ ?udp)" "2 \<le> length ?udp" "4 \<le> length ?udp"
    using l assms(1) ports_load(3) by simp_all
  show ?thesis
    unfolding icmp_v6_def needs_def Let_def t d hh ports_load(1,2) using n assms(4) by auto
qed

subsection \<open>Rounds\<close>

text \<open>How the table and the messages of a round belong together, from its start \<open>s\<close> to any point \<open>t\<close> of it.\<close>

definition entry_ok :: "ikernel \<Rightarrow> icmpd \<Rightarrow> (int \<times> imessage) list \<Rightarrow> icmpd \<Rightarrow> nat \<Rightarrow> bool" where
  "entry_ok k s out t i =
     (let c = id_client t ! i in live_entry c \<longrightarrow>
      (if (ic_connfd c, Registered True) \<in> set out then (ic_family c, ic_lport c) = registration k (ic_connfd c)
       else live_entry (id_client s ! i) \<and> c = id_client s ! i \<or> ic_connfd c = ik_accept k))"

definition in_round :: "ikernel \<Rightarrow> icmpd \<Rightarrow> icmpd \<Rightarrow> bool" where
  "in_round k s t = (icmpd_inv t \<and> own_fds t = own_fds s \<and>
     (\<exists>out. id_out t = id_out s @ out \<and> (\<forall>i < FD_SETSIZE. entry_ok k s out t i)))"

lemma in_round_conn:
  assumes "in_round k s t" "i < FD_SETSIZE" "live_entry (id_client t ! i)" "readable_conn k t i = Inr u"
  shows "in_round k s u"
proof -
  obtain out where t: "icmpd_inv t" "own_fds t = own_fds s" "id_out t = id_out s @ out" "\<forall>i < FD_SETSIZE. entry_ok k s out t i"
    using assms(1) by (auto simp: in_round_def)
  note C = conn_spec [OF t(1) assms(2-4)]
  let ?c = "id_client t ! i"
  have len: "length (id_client t) = FD_SETSIZE" using t(1) by (simp add: icmpd_inv_def)
  have other: "ic_connfd (id_client t ! j) \<noteq> ic_connfd ?c" if "j < FD_SETSIZE" "j \<noteq> i" "live_entry (id_client t ! j)" for j
    using distinct_entries [of ic_connfd live_entry "id_client t" j i] t(1) that assms(2,3) by (auto simp: icmpd_inv_def live_def)
  from C have "conn_outcome k t i u" by simp
  then obtain v new where u: "id_client u = (id_client t)[i := v]" "id_out u = id_out t @ new"
    "fst ` set new \<subseteq> {ic_connfd ?c}"
    and v: "ic_connfd v = -1 \<or> (ic_connfd v, Registered True) \<in> set new \<and> (ic_family v, ic_lport v) = registration k (ic_connfd v)"
    unfolding conn_outcome_def Let_def by (elim disjE exE conjE) fastforce+
  have "entry_ok k s (out @ new) u j" if j: "j < FD_SETSIZE" for j
  proof (cases "j = i")
    case True
    then show ?thesis using v len assms(2) by (auto simp: entry_ok_def u(1) live_entry_def)
  next
    case False
    then have e: "id_client u ! j = id_client t ! j" by (simp add: u(1))
    have "(ic_connfd (id_client t ! j), Registered True) \<notin> set new" if "live_entry (id_client t ! j)"
      using other [OF j False that] u(3) by force
    then show ?thesis using t(4) j by (auto simp: entry_ok_def e Let_def)
  qed
  then show ?thesis using C t(2,3) u(2) by (auto simp: in_round_def)
qed

text \<open>The handlers of the raw sockets only write errors.\<close>

definition only_errors :: "icmpd \<Rightarrow> icmpd \<Rightarrow> bool" where
  "only_errors s t = (\<exists>out n. t = s\<lparr>id_out := id_out s @ out, id_nready := n\<rparr> \<and> (\<forall>m \<in> set out. \<exists>e. snd m = Icmp_error e))"

lemma only_errors_refl: "only_errors s s"
  unfolding only_errors_def by (rule exI [of _ "[]"], rule exI [of _ "id_nready s"]) simp

lemma only_errors_add: "only_errors s t \<Longrightarrow> only_errors s (t\<lparr>id_out := id_out t @ [(fd, Icmp_error e)]\<rparr>)"
  unfolding only_errors_def
  by (elim exE conjE, rule_tac x = "out @ [(fd, Icmp_error e)]" in exI, rule_tac x = n in exI) auto

lemma tell_errors: "tell k family sport err t i = Inr u \<Longrightarrow> only_errors s t \<Longrightarrow> only_errors s u"
  by (auto simp: tell_def Write_to_def intro: only_errors_add split: if_splits sum.splits)

lemma tell_all_errors: "tell_all k family sport err s = Inr t \<Longrightarrow> only_errors s t"
  unfolding tell_all_def by (rule serve_each_inv [where P = "only_errors s"]) (auto intro: only_errors_refl tell_errors)

lemma icmp_errors: "icmp_v4 k pkt s = Inr t \<Longrightarrow> only_errors s t" "icmp_v6 k pkt s = Inr t \<Longrightarrow> only_errors s t"
  by (auto simp: icmp_v4_def icmp_v6_def needs_def Let_def split: if_splits intro: tell_all_errors only_errors_refl)

lemma readable_errors: "readable_v4 k s = Inr t \<Longrightarrow> only_errors s t" "readable_v6 k s = Inr t \<Longrightarrow> only_errors s t"
proof -
  have l: "only_errors s u \<Longrightarrow> only_errors s (less_ready u)" for u by (fastforce simp: only_errors_def less_ready_def)
  have m: "map_sum id f x = Inr (y :: icmpd) \<Longrightarrow> \<exists>z. x = Inr z \<and> y = f z" for f x y by (cases x) auto
  show "readable_v4 k s = Inr t \<Longrightarrow> only_errors s t" "readable_v6 k s = Inr t \<Longrightarrow> only_errors s t"
    by (auto simp: readable_v4_def readable_v6_def split: sum.splits dest!: m intro: l icmp_errors)
qed

lemma in_round_errors:
  assumes "in_round k s t" "only_errors t u"
  shows "in_round k s u"
proof -
  obtain out where t: "icmpd_inv t" "own_fds t = own_fds s" "id_out t = id_out s @ out" "\<forall>i < FD_SETSIZE. entry_ok k s out t i"
    using assms(1) by (auto simp: in_round_def)
  obtain new n where u: "u = t\<lparr>id_out := id_out t @ new, id_nready := n\<rparr>" "\<forall>m \<in> set new. \<exists>e. snd m = Icmp_error e"
    using assms(2) by (auto simp: only_errors_def)
  have "icmpd_inv u" by (rule inv_frame [OF t(1)]) (simp_all add: u(1))
  moreover have "(fd, Registered True) \<notin> set new" for fd using u(2) by auto
  then have "\<forall>i < FD_SETSIZE. entry_ok k s (out @ new) u i" using t(4) by (simp add: entry_ok_def u(1) Let_def)
  ultimately show ?thesis using t(2,3) by (auto simp: in_round_def own_fds_def u(1))
qed

lemma in_round_start: "icmpd_inv s \<Longrightarrow> in_round k s (s\<lparr>id_nready := n\<rparr>)"
  unfolding in_round_def
  by (intro conjI exI [of _ "[]"]) (auto intro: inv_frame simp: own_fds_def entry_ok_def Let_def)

lemma in_round_listen:
  assumes inv: "icmpd_inv s" "icmpd_promise s k" and st: "readable_listen k (s\<lparr>id_nready := n\<rparr>) = Inr u"
  shows "in_round k s u"
proof -
  let ?s = "s\<lparr>id_nready := n\<rparr>"
  have i: "icmpd_inv ?s" "icmpd_promise ?s k" using inv by (auto intro: inv_frame simp: icmpd_promise_def)
  note L = listen_inv [OF i st]
  have "entry_ok k s [] u j" if j: "j < FD_SETSIZE" for j
  proof (cases "live_entry (id_client s ! j)")
    case True
    then show ?thesis using L j by (simp add: entry_ok_def Let_def)
  next
    case False
    have "ic_connfd (id_client u ! j) \<in> set (live u)" if "live_entry (id_client u ! j)"
      using that L j by (auto simp: live_def icmpd_inv_def)
    moreover have "ic_connfd (id_client u ! j) \<noteq> ic_connfd (id_client s ! m)"
      if "m < FD_SETSIZE" "live_entry (id_client s ! m)" "live_entry (id_client u ! j)" for m
    proof
      assume e: "ic_connfd (id_client u ! j) = ic_connfd (id_client s ! m)"
      have "id_client u ! m = id_client s ! m" using L that by simp
      then have "j = m" using distinct_entries [of ic_connfd live_entry "id_client u" j m] L that j e
        by (auto simp: icmpd_inv_def live_def)
      then show False using False that by simp
    qed
    then have "ic_connfd (id_client u ! j) \<notin> set (live s)" if "live_entry (id_client u ! j)"
      using that inv(1) by (auto simp: live_def icmpd_inv_def in_set_conv_nth)
    ultimately have "ic_connfd (id_client u ! j) = ik_accept k" if "live_entry (id_client u ! j)"
      using L that by (auto simp: live_def)
    then show ?thesis by (simp add: entry_ok_def Let_def)
  qed
  then show ?thesis using L unfolding in_round_def by (intro conjI exI [of _ "[]"]) (auto simp: own_fds_def)
qed

lemma handle_if_rule:
  assumes "handle_if b h r s = Inr t" "P s" "\<And>s u. P s \<Longrightarrow> h s = Inr u \<Longrightarrow> P u" "\<And>s. P s \<Longrightarrow> r s = Inr t \<Longrightarrow> P t"
  shows "P t"
  using assms by (auto simp: handle_if_def split: if_splits sum.splits)

lemma in_round_conns:
  assumes "in_round k s t" "icmpd_conns k t = Inr u"
  shows "in_round k s u"
  using assms(2) unfolding icmpd_conns_def
proof (rule scan_inv_ready)
  show "in_round k s t" by (rule assms(1))
  have m: "id_maxi t < int FD_SETSIZE" using assms(1) by (simp add: in_round_def icmpd_inv_def)
  fix v i w
  assume "i \<in> set [0..<nat (id_maxi t + 1)]" "in_round k s v" "conn_ready k v i = Inr True" "readable_conn k v i = Inr w"
  then show "in_round k s w" using m by (intro in_round_conn [of k s v i w]) (auto simp: conn_ready_def live_entry_def Let_def)
qed

lemma round_in_round:
  assumes "icmpd_inv s" "icmpd_promise s k" "icmpd_round k s = Inr t"
  shows "in_round k s t"
proof -
  let ?s = "s\<lparr>id_nready := ik_nready k\<rparr>"
  define r where "r = handle_if (id_fd4 s \<in> set (ik_rset k)) (readable_v4 k)
      (handle_if (id_fd6 s \<in> set (ik_rset k)) (readable_v6 k) (icmpd_conns k))"
  have h: "handle_if (id_listen s \<in> set (ik_rset k)) (readable_listen k) r ?s = Inr t"
    using assms(3) by (simp add: icmpd_round_def r_def split: if_splits)
  have rest: "in_round k s t" if "in_round k s u" "r u = Inr t" for u
    using that(2) unfolding r_def
  proof (rule handle_if_rule [where P = "in_round k s"])
    show "in_round k s t" if "in_round k s v" "handle_if (id_fd6 s \<in> set (ik_rset k)) (readable_v6 k) (icmpd_conns k) v = Inr t" for v
      using that(2,1) by (rule handle_if_rule [where P = "in_round k s"]) (auto intro: in_round_conns in_round_errors readable_errors)
  qed (auto intro: that(1) in_round_errors readable_errors)
  show ?thesis
    using h in_round_listen [OF assms(1,2), of "ik_nready k"] in_round_start [OF assms(1), of k "ik_nready k"] rest
    by (auto simp: handle_if_def split: if_splits sum.splits)
qed

subsection \<open>Registrations\<close>

text \<open>
  Who has registered what, kept beside the run: a client has registered when it was told so; what it registered is
  forgotten when it is gone, and a new client has not registered yet.
\<close>

definition new_reg :: "ikernel \<Rightarrow> icmpd \<Rightarrow> icmpd \<Rightarrow> (int \<Rightarrow> (int \<times> int) option) \<Rightarrow> int \<Rightarrow> (int \<times> int) option" where
  "new_reg k s t reg fd =
     (if fd \<notin> set (live t) then None
      else if (fd, Registered True) \<in> set (drop (length (id_out s)) (id_out t)) then Some (registration k fd)
      else if fd = ik_accept k then None else reg fd)"

inductive icmpd_reach :: "icmpd \<Rightarrow> (int \<Rightarrow> (int \<times> int) option) \<Rightarrow> bool" where
  start: "icmpd_init fd4 fd6 listenfd bound listening = Inr s \<Longrightarrow> icmpd_reach s (\<lambda>_. None)"
| round: "icmpd_reach s reg \<Longrightarrow> icmpd_promise s k \<Longrightarrow> icmpd_round k s = Inr t \<Longrightarrow> icmpd_reach t (new_reg k s t reg)"

definition reg_ok :: "icmpd \<Rightarrow> (int \<Rightarrow> (int \<times> int) option) \<Rightarrow> bool" where
  "reg_ok s reg = ((\<forall>fd. reg fd \<noteq> None \<longrightarrow> fd \<in> set (live s)) \<and>
     (\<forall>c \<in> set (id_client s). \<forall>r. live_entry c \<and> reg (ic_connfd c) = Some r \<longrightarrow> (ic_family c, ic_lport c) = r))"

lemma init_inv: "icmpd_init fd4 fd6 listenfd bound listening = Inr s \<Longrightarrow> icmpd_inv s"
  by (auto simp: icmpd_init_def icmpd_inv_def own_fds_def live_def free_entry_def live_entry_def filter_empty_conv FD_SETSIZE_def
      split: if_splits)

lemma reach_ok: "icmpd_reach s reg \<Longrightarrow> icmpd_inv s \<and> reg_ok s reg"
proof (induction rule: icmpd_reach.induct)
  case (start fd4 fd6 listenfd bound listening s)
  then show ?case using init_inv by (auto simp: reg_ok_def)
next
  case (round s reg k t)
  have R: "in_round k s t" using round_in_round round by blast
  then obtain out where t: "icmpd_inv t" "id_out t = id_out s @ out" "\<forall>i < FD_SETSIZE. entry_ok k s out t i"
    by (auto simp: in_round_def)
  have len: "length (id_client t) = FD_SETSIZE" "length (id_client s) = FD_SETSIZE" using t(1) round.IH by (simp_all add: icmpd_inv_def)
  have "(ic_family c, ic_lport c) = r" if c: "c \<in> set (id_client t)" "live_entry c" "new_reg k s t reg (ic_connfd c) = Some r" for c r
  proof -
    obtain i where i: "i < FD_SETSIZE" "c = id_client t ! i" using c(1) len(1) by (auto simp: in_set_conv_nth)
    have "entry_ok k s out t i" "id_client s ! i \<in> set (id_client s)" using t(3) i(1) len(2) by simp_all
    then show ?thesis
      using c round.IH i by (cases r) (auto simp: entry_ok_def new_reg_def t(2) reg_ok_def Let_def split: if_splits)
  qed
  then show ?case using t(1) by (auto simp: reg_ok_def new_reg_def)
qed

text \<open>
  The entry of a client that is gone keeps its family and port, and \<open>readable_listen\<close> does not clear them: the next
  client of the entry gets the errors of its predecessor until it registers.
\<close>

lemma stale_registration:
  assumes "icmpd_inv s" "find_slot (\<lambda>c. ic_connfd c < 0) (id_client s) = i" "i < FD_SETSIZE" "0 \<le> ik_accept k" "ik_accept k < int FD_SETSIZE"
  obtains t where "readable_listen k s = Inr t" "ic_connfd (id_client t ! i) = ik_accept k"
    "ic_family (id_client t ! i) = ic_family (id_client s ! i)" "ic_lport (id_client t ! i) = ic_lport (id_client s ! i)"
proof -
  have "length (id_client s) = FD_SETSIZE" using assms(1) by (simp add: icmpd_inv_def)
  with assms(2-) that show ?thesis by (simp add: readable_listen_def Let_def)
qed

text \<open>A short message ends the daemon, and a returned header with options may point behind the message.\<close>

lemma short_message_quits:
  "length pkt = 4 * (unat (pkt ! 0) mod 16) + 8 \<Longrightarrow> pkt ! (4 * (unat (pkt ! 0) mod 16)) = ICMP_UNREACH \<Longrightarrow>
     icmp_v4 k pkt s = Inl (Err_quit ''icmplen (8) < 8 + 20 + 8'')"
  by (simp add: icmp_v4_def needs_def Let_def print_int_def) code_simp

lemma short_message_v6_reads_beyond:
  "length pkt = 16 \<Longrightarrow> pkt ! 0 = 1 \<Longrightarrow> icmp_v6 k pkt s = Inl (Undefined Uninit_read)"
  by (simp add: icmp_v6_def needs_def Let_def)

lemma recipients:
  assumes "icmpd_inv s" "reg_ok s reg"
  shows "distinct (map ic_connfd (filter (wants f sport) (id_client s)))"
    and "{fd. reg fd = Some (f, uint sport)} \<subseteq> set (map ic_connfd (filter (wants f sport) (id_client s)))"
    and "set (map ic_connfd (filter (wants f sport) (id_client s))) \<subseteq>
       {fd \<in> set (live s). reg fd = Some (f, uint sport) \<or> reg fd = None}"
proof -
  have w: "filter (wants f sport) (id_client s) = filter (\<lambda>c. ic_family c = f \<and> ic_lport c = uint sport) (filter live_entry (id_client s))"
    unfolding filter_filter by (rule arg_cong [of _ _ "\<lambda>P. filter P (id_client s)"]) (auto simp: fun_eq_iff wants_def live_entry_def)
  have "distinct (live s)" using assms(1) by (simp add: icmpd_inv_def)
  then show "distinct (map ic_connfd (filter (wants f sport) (id_client s)))"
    unfolding w live_def by (rule distinct_map_filter)
  show "{fd. reg fd = Some (f, uint sport)} \<subseteq> set (map ic_connfd (filter (wants f sport) (id_client s)))"
  proof
    fix fd assume "fd \<in> {fd. reg fd = Some (f, uint sport)}"
    then have r: "reg fd = Some (f, uint sport)" by simp
    then have "fd \<in> set (live s)" using assms(2) unfolding reg_ok_def by blast
    then obtain c where c: "c \<in> set (id_client s)" "live_entry c" "fd = ic_connfd c" by (auto simp: live_def)
    with r have "(ic_family c, ic_lport c) = (f, uint sport)" using assms(2) unfolding reg_ok_def by blast
    then show "fd \<in> set (map ic_connfd (filter (wants f sport) (id_client s)))" using c by (auto simp: wants_def live_entry_def)
  qed
  show "set (map ic_connfd (filter (wants f sport) (id_client s))) \<subseteq>
       {fd \<in> set (live s). reg fd = Some (f, uint sport) \<or> reg fd = None}"
  proof
    fix fd assume "fd \<in> set (map ic_connfd (filter (wants f sport) (id_client s)))"
    then obtain c where c: "c \<in> set (id_client s)" "live_entry c" "fd = ic_connfd c" "ic_family c = f" "ic_lport c = uint sport"
      by (auto simp: wants_def live_entry_def)
    then have "reg fd = Some r \<Longrightarrow> r = (f, uint sport)" for r using assms(2) unfolding reg_ok_def by blast
    then show "fd \<in> {fd \<in> set (live s). reg fd = Some (f, uint sport) \<or> reg fd = None}"
      using c by (cases "reg fd") (auto simp: live_def)
  qed
qed

subsection \<open>The claim\<close>

text \<open>
  C13. In every reachable state of the daemon the table, the descriptor set and the bounds \<open>maxi\<close> and \<open>maxfd\<close> agree,
  and an ICMP error for a UDP datagram (IPv4 or IPv6) is sent, with its type, code, destination and the \<open>errno\<close> value
  for them, exactly once to every client that has registered the source port, and to nobody else, except that a client
  that has not registered yet may get it too; nothing else changes. (The message fits into the buffer of \<open>MAXLINE\<close>
  bytes, and the clients are there to be written to.)
\<close>

theorem icmpd_notifies:
  assumes "icmpd_reach s reg" "\<forall>fd. ik_write k fd"
    and "ip4_header hdr" "ip4_header hip" "hip ! 9 = 17" "length rest = 6" "ty4 \<in> {ICMP_UNREACH, ICMP_TIMXCEED, ICMP_SOURCEQUENCH}"
    and "4 \<le> length data" "length hip6 = 40" "hip6 ! 6 = 17" "ty6 \<in> {1, 2, 3}"
    and "ik_recv4 k = Inr (icmp4_packet hdr ty4 code rest hip sport dport data)" "ik_recv6 k = Inr (icmp6_packet ty6 code rest hip6 sport dport data)"
    and "length data \<le> 3900"
  shows "icmpd_inv s \<and>
    (\<exists>fds. readable_v4 k s = Inr (less_ready (s\<lparr>id_out := id_out s @
        map (\<lambda>fd. (fd, Icmp_error \<lparr>icmpd_errno = errno_v4 ty4 code, icmpd_type = ty4, icmpd_code = code, icmpd_len = 16,
          icmpd_dest = SIn \<lparr>sin_port = dport, sin_addr = take 4 (drop 16 hip)\<rparr>\<rparr>)) fds\<rparr>))
      \<and> distinct fds \<and> {fd. reg fd = Some (AF_INET, uint sport)} \<subseteq> set fds
      \<and> set fds \<subseteq> {fd \<in> set (live s). reg fd = Some (AF_INET, uint sport) \<or> reg fd = None}) \<and>
    (\<exists>fds. readable_v6 k s = Inr (less_ready (s\<lparr>id_out := id_out s @
        map (\<lambda>fd. (fd, Icmp_error \<lparr>icmpd_errno = errno_v6 ty6 code, icmpd_type = ty6, icmpd_code = code, icmpd_len = 28,
          icmpd_dest = SIn6 \<lparr>sin6_port = dport, sin6_addr = drop 24 hip6\<rparr>\<rparr>)) fds\<rparr>))
      \<and> distinct fds \<and> {fd. reg fd = Some (AF_INET6, uint sport)} \<subseteq> set fds
      \<and> set fds \<subseteq> {fd \<in> set (live s). reg fd = Some (AF_INET6, uint sport) \<or> reg fd = None})"
proof -
  have inv: "icmpd_inv s" and reg: "reg_ok s reg" using reach_ok [OF assms(1)] by simp_all
  have R: "distinct (map ic_connfd (filter (wants f sport) (id_client s)))"
    "{fd. reg fd = Some (f, uint sport)} \<subseteq> set (map ic_connfd (filter (wants f sport) (id_client s)))"
    "set (map ic_connfd (filter (wants f sport) (id_client s))) \<subseteq>
       {fd \<in> set (live s). reg fd = Some (f, uint sport) \<or> reg fd = None}" for f
    by (rule recipients [OF inv reg])+
  have T: "tell_all k f sport (Inr m) s = Inr (s\<lparr>id_out := id_out s @ map (\<lambda>fd. (fd, Icmp_error m))
      (map ic_connfd (filter (wants f sport) (id_client s)))\<rparr>)" for f m
    using tell_all_ok [OF inv, of k f sport m] assms(2) by (simp add: comp_def)
  have "length hdr < 64" "length hip < 64" using assms(3,4) by (simp_all add: ip4_header_def)
  then have m: "take MAXLINE (icmp4_packet hdr ty4 code rest hip sport dport data) = icmp4_packet hdr ty4 code rest hip sport dport data"
    "take MAXLINE (icmp6_packet ty6 code rest hip6 sport dport data) = icmp6_packet ty6 code rest hip6 sport dport data"
    using assms(6,9,14) ports_load(3) by (simp_all add: icmp4_packet_def icmp6_packet_def MAXLINE_def)
  have v: "readable_v4 k s = map_sum id less_ready (icmp_v4 k (icmp4_packet hdr ty4 code rest hip sport dport data) s)"
    "readable_v6 k s = map_sum id less_ready (icmp_v6 k (icmp6_packet ty6 code rest hip6 sport dport data) s)"
    using assms(12,13) m by (simp_all add: readable_v4_def readable_v6_def)
  show ?thesis
    using inv R [of AF_INET] R [of AF_INET6] icmp_v4_error [OF assms(3-8)] icmp_v6_error [OF assms(9,10,6,11)]
    by (intro conjI exI [of _ "map ic_connfd (filter (wants AF_INET sport) (id_client s))"]
        exI [of _ "map ic_connfd (filter (wants AF_INET6 sport) (id_client s))"]) (simp_all only: v T map_sum.simps)
qed

text \<open>A run for the witness: a client connects and passes a UDP socket that is bound to port 53 of any address.\<close>

definition wit_kernel :: "int list \<Rightarrow> int \<Rightarrow> ikernel" where
  "wit_kernel rset fd =
     \<lparr>ik_rset = rset, ik_nready = 1, ik_accept = fd,
      ik_recv4 = Inr (icmp4_packet (69 # replicate 19 0) 3 3 (replicate 6 0) (69 # replicate 8 0 @ 17 # replicate 10 0) 13568 1 (replicate 4 0)),
      ik_recv6 = Inr (icmp6_packet 1 3 (replicate 6 0) (replicate 6 0 @ 17 # replicate 33 0) 13568 1 (replicate 4 0)),
      ik_message = (\<lambda>_. Received 1 (Some (SOL_SOCKET, SCM_RIGHTS, 7))),
      ik_getsockname = (\<lambda>_. Some (SIn \<lparr>sin_port = 13568, sin_addr = [0, 0, 0, 0]\<rparr>)),
      ik_bind = (\<lambda>_ _. True), ik_bound = (\<lambda>_ _. None), ik_write = (\<lambda>_. True), ik_close = (\<lambda>_. True)\<rparr>"

definition wit_state :: "iclient \<Rightarrow> int \<Rightarrow> int \<Rightarrow> int list \<Rightarrow> (int \<times> imessage) list \<Rightarrow> icmpd" where
  "wit_state c maxi maxfd all out = \<lparr>id_client = c # replicate 1023 free_entry, id_fd4 = 3, id_fd6 = 4, id_listen = 5,
     id_maxi = maxi, id_maxfd = maxfd, id_nready = 0, id_allset = all, id_out = out\<rparr>"

definition wit_end :: icmpd where
  "wit_end = wit_state \<lparr>ic_connfd = 6, ic_family = AF_INET, ic_lport = 13568\<rparr> 0 6 [3, 4, 5, 6] [(6, Registered True)]"

definition wit_reg :: "int \<Rightarrow> (int \<times> int) option" where
  "wit_reg = (\<lambda>fd. if fd = 6 then Some (AF_INET, 13568) else None)"

lemma wit_live: "live (wit_state c maxi maxfd all out) = (if live_entry c then [ic_connfd c] else [])"
  by (simp add: live_def wit_state_def free_entry_def live_entry_def)

lemma wit_reach: "icmpd_reach wit_end wit_reg"
proof -
  let ?s0 = "wit_state free_entry (-1) 5 [3, 4, 5] []"
  let ?s1 = "wit_state \<lparr>ic_connfd = 6, ic_family = 0, ic_lport = 0\<rparr> 0 6 [3, 4, 5, 6] []"
  have "FD_SETSIZE = Suc 1023" by (simp add: FD_SETSIZE_def)
  then have "replicate FD_SETSIZE free_entry = free_entry # replicate 1023 free_entry" by (metis replicate_Suc)
  then have "icmpd_init 3 4 5 True True = Inr ?s0" by (simp add: icmpd_init_def wit_state_def FD_SETSIZE_def)
  then have 0: "icmpd_reach ?s0 (\<lambda>_. None)" by (rule icmpd_reach.start)
  have r1: "icmpd_round (wit_kernel [5] 6) ?s0 = Inr ?s1"
    by (simp add: icmpd_round_def handle_if_def wit_kernel_def wit_state_def readable_listen_def find_slot_def free_entry_def
        less_ready_def FD_SETSIZE_def)
  have "icmpd_reach ?s1 (new_reg (wit_kernel [5] 6) ?s0 ?s1 (\<lambda>_. None))"
    by (rule icmpd_reach.round [OF 0 _ r1]) (simp add: icmpd_promise_def wit_state_def wit_kernel_def)
  moreover have "new_reg (wit_kernel [5] 6) ?s0 ?s1 (\<lambda>_. None) = (\<lambda>_. None)"
    by (rule ext) (simp add: new_reg_def wit_state_def)
  ultimately have 1: "icmpd_reach ?s1 (\<lambda>_. None)" by simp
  have p: "sock_get_port (SIn \<lparr>sin_port = 13568, sin_addr = [0, 0, 0, 0]\<rparr>) = 13568" by code_simp
  have rd: "Read_fd (Received 1 (Some (SOL_SOCKET, SCM_RIGHTS, 7))) (-1) = Inr (1, 7)" by code_simp
  have r2: "icmpd_round (wit_kernel [6] 8) ?s1 = Inr wit_end"
    using p rd
    by (simp add: icmpd_round_def handle_if_def wit_kernel_def wit_state_def wit_end_def icmpd_conns_def conn_ready_def readable_conn_def
        Write_to_def less_ready_def Let_def)
  have "icmpd_reach wit_end (new_reg (wit_kernel [6] 8) ?s1 wit_end (\<lambda>_. None))"
    by (rule icmpd_reach.round [OF 1 _ r2]) (simp add: icmpd_promise_def wit_state_def wit_kernel_def)
  moreover have "registration (wit_kernel [6] 8) 6 = (AF_INET, 13568)" using p rd by (simp add: registration_def wit_kernel_def)
  then have "new_reg (wit_kernel [6] 8) ?s1 wit_end (\<lambda>_. None) = wit_reg"
    by (auto simp: new_reg_def wit_reg_def wit_end_def wit_live live_entry_def fun_eq_iff) (simp_all add: wit_state_def)
  ultimately show ?thesis by simp
qed

theorem icmpd_notifies_witness:
  "icmpd_reach wit_end wit_reg \<and> wit_reg 6 = Some (AF_INET, uint (13568 :: 16 word)) \<and>
    readable_v4 (wit_kernel [3] 8) wit_end = Inr (less_ready (wit_end\<lparr>id_out := id_out wit_end @ [(6, Icmp_error
      \<lparr>icmpd_errno = ECONNREFUSED, icmpd_type = 3, icmpd_code = 3, icmpd_len = 16, icmpd_dest = SIn \<lparr>sin_port = 1, sin_addr = [0, 0, 0, 0]\<rparr>\<rparr>)]\<rparr>)) \<and>
    readable_v6 (wit_kernel [4] 8) wit_end = Inr (less_ready wit_end)"
proof -
  let ?hdr = "69 # replicate 19 0 :: byte list" and ?hip = "69 # replicate 8 0 @ 17 # replicate 10 0 :: byte list"
    and ?hip6 = "replicate 6 0 @ 17 # replicate 33 0 :: byte list"
  have h: "ip4_header ?hdr" "ip4_header ?hip" "?hip ! 9 = 17" "length ?hip6 = 40" "?hip6 ! 6 = 17" by code_simp+
  have l: "live wit_end = [6]" by (simp add: wit_end_def wit_live live_entry_def)
  have T: "icmpd_inv wit_end \<and>
    (\<exists>fds. readable_v4 (wit_kernel rs 8) wit_end = Inr (less_ready (wit_end\<lparr>id_out := id_out wit_end @
        map (\<lambda>fd. (fd, Icmp_error \<lparr>icmpd_errno = errno_v4 3 3, icmpd_type = 3, icmpd_code = 3, icmpd_len = 16,
          icmpd_dest = SIn \<lparr>sin_port = 1, sin_addr = take 4 (drop 16 ?hip)\<rparr>\<rparr>)) fds\<rparr>))
      \<and> distinct fds \<and> {fd. wit_reg fd = Some (AF_INET, uint (13568 :: 16 word))} \<subseteq> set fds
      \<and> set fds \<subseteq> {fd \<in> set (live wit_end). wit_reg fd = Some (AF_INET, uint (13568 :: 16 word)) \<or> wit_reg fd = None}) \<and>
    (\<exists>fds. readable_v6 (wit_kernel rs 8) wit_end = Inr (less_ready (wit_end\<lparr>id_out := id_out wit_end @
        map (\<lambda>fd. (fd, Icmp_error \<lparr>icmpd_errno = errno_v6 1 3, icmpd_type = 1, icmpd_code = 3, icmpd_len = 28,
          icmpd_dest = SIn6 \<lparr>sin6_port = 1, sin6_addr = drop 24 ?hip6\<rparr>\<rparr>)) fds\<rparr>))
      \<and> distinct fds \<and> {fd. wit_reg fd = Some (AF_INET6, uint (13568 :: 16 word))} \<subseteq> set fds
      \<and> set fds \<subseteq> {fd \<in> set (live wit_end). wit_reg fd = Some (AF_INET6, uint (13568 :: 16 word)) \<or> wit_reg fd = None})" for rs
    by (rule icmpd_notifies [OF wit_reach _ h(1-3) _ _ _ h(4,5), where rest = "replicate 6 0" and data = "replicate 4 0"])
      (simp_all add: wit_kernel_def ICMP_UNREACH_def)
  have r: "{fd. wit_reg fd = Some (AF_INET, uint (13568 :: 16 word))} = {6}"
    "{fd \<in> set (live wit_end). wit_reg fd = Some (AF_INET, uint (13568 :: 16 word)) \<or> wit_reg fd = None} = {6}"
    "{fd \<in> set (live wit_end). wit_reg fd = Some (AF_INET6, uint (13568 :: 16 word)) \<or> wit_reg fd = None} = {}"
    by (auto simp: wit_reg_def l AF_INET_def AF_INET6_def)
  have one: "fds = [6]" if "distinct fds" "{6} \<subseteq> set fds" "set fds \<subseteq> {6}" for fds :: "int list"
  proof (cases fds)
    case (Cons x xs)
    then show ?thesis using that by (cases xs) auto
  qed (use that in simp)
  have e: "errno_v4 3 3 = ECONNREFUSED" "take 4 (drop 16 ?hip) = [0, 0, 0, 0]" by code_simp+
  obtain fds where f: "readable_v4 (wit_kernel [3] 8) wit_end = Inr (less_ready (wit_end\<lparr>id_out := id_out wit_end @
        map (\<lambda>fd. (fd, Icmp_error \<lparr>icmpd_errno = errno_v4 3 3, icmpd_type = 3, icmpd_code = 3, icmpd_len = 16,
          icmpd_dest = SIn \<lparr>sin_port = 1, sin_addr = take 4 (drop 16 ?hip)\<rparr>\<rparr>)) fds\<rparr>))"
    "distinct fds" "{6} \<subseteq> set fds" "set fds \<subseteq> {6}"
    using T [of "[3]"] unfolding r by blast
  from one [OF f(2-)] f(1) have v4: "readable_v4 (wit_kernel [3] 8) wit_end = Inr (less_ready (wit_end\<lparr>id_out := id_out wit_end @ [(6, Icmp_error
      \<lparr>icmpd_errno = ECONNREFUSED, icmpd_type = 3, icmpd_code = 3, icmpd_len = 16, icmpd_dest = SIn \<lparr>sin_port = 1, sin_addr = [0, 0, 0, 0]\<rparr>\<rparr>)]\<rparr>))"
    unfolding e by simp
  have v6: "readable_v6 (wit_kernel [4] 8) wit_end = Inr (less_ready wit_end)"
    using T [of "[4]"] unfolding r by auto
  show ?thesis using wit_reach v4 v6 by (simp add: wit_reg_def)
qed

end
