(* ===== verification/Traceroute.thy ===== *)
theory Traceroute
  imports Icmp_Daemon Ping Text_Numbers
begin

text \<open>
  The \<open>traceroute\<close> program (\<open>traceroute/*.c\<close>): \<open>main\<close>, \<open>traceloop\<close>, and \<open>recv_v4\<close> and \<open>recv_v6\<close>, which wait for the
  ICMP message that answers a probe. \<open>tv_sub\<close> is the one of \<open>Timeval\<close>.

  What \<open>recvfrom\<close> answers is a script; each entry also says whether the alarm went off since \<open>gotalarm\<close> was last
  looked at. An empty script means that the call is still blocked. The answers of the other calls are a record, the
  times of \<open>Gettimeofday\<close> by the number of the probe. What is printed is a list of values: an address stands for its
  text, a round-trip time for its milliseconds. \<open>recvbuf\<close> is static; no byte behind the received ones is used.
\<close>

subsection \<open>Texts of ICMP codes\<close>

definition icmpcode_v4 :: "int \<Rightarrow> string" where
  "icmpcode_v4 code =
     (if code = 0 then ''network unreachable''
      else if code = 1 then ''host unreachable''
      else if code = 2 then ''protocol unreachable''
      else if code = 3 then ''port unreachable''
      else if code = 4 then ''fragmentation required but DF bit set''
      else if code = 5 then ''source route failed''
      else if code = 6 then ''destination network unknown''
      else if code = 7 then ''destination host unknown''
      else if code = 8 then ''source host isolated (obsolete)''
      else if code = 9 then ''destination network administratively prohibited''
      else if code = 10 then ''destination host administratively prohibited''
      else if code = 11 then ''network unreachable for TOS''
      else if code = 12 then ''host unreachable for TOS''
      else if code = 13 then ''communication administratively prohibited by filtering''
      else if code = 14 then ''host recedence violation''
      else if code = 15 then ''precedence cutoff in effect''
      else ''[unknown code '' @ print_int code @ '']'')"

definition icmpcode_v6 :: "int \<Rightarrow> string" where
  "icmpcode_v6 code =
     (if code = 0 then ''no route to host''
      else if code = 1 then ''administratively prohibited''
      else if code = 2 then ''not a neighbor''
      else if code = 3 then ''address unreachable''
      else if code = 4 then ''port unreachable''
      else ''[unknown code '' @ print_int code @ '']'')"

subsection \<open>Waiting for an answer\<close>

datatype tprint =
    P_ttl int
  | P_star
  | P_host "string option" sockaddr
  | P_rtt timeval
  | P_icmp string
  | P_newline
  | P_other sockaddr byte byte

text \<open>
  What the body of the loop does with a message: \<open>continue\<close>, fall through to the message for \<open>verbose\<close>, leave the loop
  with a value of \<open>ret\<close>, or leave it with \<open>ret\<close> not set.
\<close>

datatype reply = Skip | Other byte byte | Answer int | Unset

text \<open>
  The returned headers at \<open>hlen1 + 8\<close>: \<open>None\<close> if they are not there, else whether they are those of the probe. The
  comparisons with \<open>sizeof\<close> are unsigned, but \<open>icmplen\<close> is not negative here.
\<close>

definition inner_v4 :: "16 word \<Rightarrow> 16 word \<Rightarrow> int \<Rightarrow> nat \<Rightarrow> byte list \<Rightarrow> bool option" where
  "inner_v4 sport dport seq hlen1 pkt =
     (let icmplen = length pkt - hlen1; hip = drop (hlen1 + 8) pkt in
      if icmplen < 8 + 20 then None
      else
        (let hlen2 = 4 * (unat (hip ! 0) mod 16); udp = drop hlen2 hip in
         if icmplen < 8 + hlen2 + 4 then None
         else Some (hip ! 9 = 17 \<and> load16 (udp ! 0) (udp ! 1) = htons sport \<and>
                load16 (udp ! 2) (udp ! 3) = htons (dport + of_int seq))))"

text \<open>With no byte received, \<open>icmplen\<close> is not positive, whatever header length an old packet left in the buffer.\<close>

definition packet_v4 :: "16 word \<Rightarrow> 16 word \<Rightarrow> int \<Rightarrow> byte list \<Rightarrow> reply" where
  "packet_v4 sport dport seq pkt =
     (let hlen1 = 4 * (unat (pkt ! 0) mod 16); icmplen = int (length pkt) - int hlen1 in
      if pkt = [] \<or> icmplen < 8 then Skip
      else
        (let ty = pkt ! hlen1; code = pkt ! (hlen1 + 1) in
         if ty = ICMP_TIMXCEED \<and> code = 0 then
           (case inner_v4 sport dport seq hlen1 pkt of
              None \<Rightarrow> Skip
            | Some mine \<Rightarrow> if mine then Answer (-2) else Other ty code)
         else if ty = ICMP_UNREACH then
           (case inner_v4 sport dport seq hlen1 pkt of
              None \<Rightarrow> Skip
            | Some mine \<Rightarrow> if mine then Answer (if code = 3 then -1 else uint code) else Other ty code)
         else Other ty code))"

definition inner_v6 :: "16 word \<Rightarrow> 16 word \<Rightarrow> int \<Rightarrow> byte list \<Rightarrow> bool option" where
  "inner_v6 sport dport seq pkt =
     (let hip6 = drop 8 pkt; udp = drop 40 hip6 in
      if length pkt < 8 + 40 + 4 then None
      else Some (hip6 ! 6 = 17 \<and> load16 (udp ! 0) (udp ! 1) = htons sport \<and>
             load16 (udp ! 2) (udp ! 3) = htons (dport + of_int seq)))"

text \<open>
  The \<open>if\<close> for time exceeded has no braces: only the assignment to \<open>ret\<close> is guarded, and the loop is left for every
  such message.
\<close>

definition packet_v6 :: "16 word \<Rightarrow> 16 word \<Rightarrow> int \<Rightarrow> byte list \<Rightarrow> reply" where
  "packet_v6 sport dport seq pkt =
     (if length pkt < 8 then Skip
      else
        (let ty = pkt ! 0; code = pkt ! 1 in
         if ty = 3 \<and> code = 0 then
           (case inner_v6 sport dport seq pkt of
              None \<Rightarrow> Skip
            | Some mine \<Rightarrow> if mine then Answer (-2) else Unset)
         else if ty = 1 then
           (case inner_v6 sport dport seq pkt of
              None \<Rightarrow> Skip
            | Some mine \<Rightarrow> if mine then Answer (if code = 4 then -1 else uint code) else Skip)
         else Other ty code))"

type_synonym tevent = "bool \<times> (errno + sockaddr \<times> byte list)"

text \<open>The value returned, \<open>*pr->sarecv\<close>, what was printed, and the rest of the script.\<close>

type_synonym received = "int \<times> sockaddr \<times> tprint list \<times> tevent list"

fun recv_loop :: "(byte list \<Rightarrow> reply) \<Rightarrow> bool \<Rightarrow> bool \<Rightarrow> sockaddr \<Rightarrow> tprint list \<Rightarrow> tevent list \<Rightarrow> received outcome option" where
  "recv_loop packet verbose gotalarm sarecv out [] = (if gotalarm then Some (Inr (-3, sarecv, out, [])) else None)"
| "recv_loop packet verbose gotalarm sarecv out ((alarm, r) # evs) =
     (if gotalarm then Some (Inr (-3, sarecv, out, (alarm, r) # evs))
      else case r of
        Inl e \<Rightarrow> if e = EINTR then recv_loop packet verbose alarm sarecv out evs else Some (Inl (Err_sys ''recvfrom error''))
      | Inr (from, pkt) \<Rightarrow>
          (case packet (take BUFSIZE pkt) of
             Skip \<Rightarrow> recv_loop packet verbose alarm from out evs
           | Other ty code \<Rightarrow> recv_loop packet verbose alarm from (if verbose then out @ [P_other from ty code] else out) evs
           | Answer ret \<Rightarrow> Some (Inr (ret, from, out, evs))
           | Unset \<Rightarrow> Some (Inl (Undefined Uninit_read))))"

type_synonym receive = "16 word \<Rightarrow> 16 word \<Rightarrow> bool \<Rightarrow> int \<Rightarrow> sockaddr \<Rightarrow> tprint list \<Rightarrow> tevent list \<Rightarrow> received outcome option"

definition recv_v4 :: receive where
  "recv_v4 sport dport verbose seq = recv_loop (packet_v4 sport dport seq) verbose False"

definition recv_v6 :: receive where
  "recv_v6 sport dport verbose seq = recv_loop (packet_v6 sport dport seq) verbose False"

subsection \<open>The loop over the probes\<close>

record rec =
  rec_seq :: "16 word"
  rec_ttl :: "16 word"
  rec_tv :: timeval

text \<open>The structure in memory; the padding before the time is never written.\<close>

definition store_rec :: "rec \<Rightarrow> byte list" where
  "store_rec r = store16le (rec_seq r) @ store16le (rec_ttl r) @ replicate 4 0 @ store_tv (rec_tv r)"

record tproto =
  tp_icmpcode :: "int \<Rightarrow> string"
  tp_recv :: receive

definition proto_v4 :: tproto where
  "proto_v4 = \<lparr>tp_icmpcode = icmpcode_v4, tp_recv = recv_v4\<rparr>"

definition proto_v6 :: tproto where
  "proto_v6 = \<lparr>tp_icmpcode = icmpcode_v6, tp_recv = recv_v6\<rparr>"

definition nprobes :: nat where "nprobes = 3"

definition trace_dport :: "16 word" where "trace_dport = 32768 + 666"

record tkernel =
  tk_recvfd :: int
  tk_sendfd :: int
  tk_pid :: int
  tk_bind :: "sockaddr \<Rightarrow> bool"
  tk_setttl :: "int \<Rightarrow> bool"
  tk_sendto :: "sockaddr \<Rightarrow> byte list \<Rightarrow> bool"
  tk_getnameinfo :: "sockaddr \<Rightarrow> string option"
  tk_sent :: "int \<Rightarrow> timeval"
  tk_arrived :: "int \<Rightarrow> timeval"

record trace =
  tr_seq :: int
  tr_done :: int
  tr_sasend :: sockaddr
  tr_sarecv :: sockaddr
  tr_salast :: sockaddr
  tr_out :: "tprint list"
  tr_sent :: "(sockaddr \<times> int \<times> byte list) list"
  tr_script :: "tevent list"

definition print_line :: "tprint list \<Rightarrow> trace \<Rightarrow> trace" where
  "print_line ps s = s\<lparr>tr_out := tr_out s @ ps\<rparr>"

text \<open>The sender of an answer, when it is not the sender of the last one.\<close>

definition show_host :: "tkernel \<Rightarrow> trace \<Rightarrow> trace" where
  "show_host k s =
     (if sock_cmp_addr (tr_sarecv s) (tr_salast s) \<noteq> 0
      then (print_line [P_host (tk_getnameinfo k (tr_sarecv s)) (tr_sarecv s)] s)\<lparr>tr_salast := tr_sarecv s\<rparr>
      else s)"

definition show_answer :: "tproto \<Rightarrow> tkernel \<Rightarrow> int \<Rightarrow> trace \<Rightarrow> trace" where
  "show_answer pr k code s =
     (let s = print_line [P_rtt (tv_sub (tk_arrived k (tr_seq s)) (tk_sent k (tr_seq s)))] (show_host k s) in
      if code = -1 then s\<lparr>tr_done := tr_done s + 1\<rparr>
      else if code \<ge> 0 then print_line [P_icmp (tp_icmpcode pr code)] s
      else s)"

definition probe :: "tproto \<Rightarrow> tkernel \<Rightarrow> 16 word \<Rightarrow> 16 word \<Rightarrow> bool \<Rightarrow> int \<Rightarrow> trace \<Rightarrow> trace outcome option" where
  "probe pr k sport dport verbose ttl s =
     (let seq = tr_seq s + 1;
          data = store_rec \<lparr>rec_seq = of_int seq, rec_ttl = of_int ttl, rec_tv = tk_sent k seq\<rparr>;
          sasend = sock_set_port (tr_sasend s) (uint (htons (dport + of_int seq)))
      in if \<not> tk_sendto k sasend data then Some (Inl (Err_sys ''sendto error''))
         else (case tp_recv pr sport dport verbose seq (tr_sarecv s) (tr_out s) (tr_script s) of
                 None \<Rightarrow> None
               | Some (Inl e) \<Rightarrow> Some (Inl e)
               | Some (Inr (code, sarecv, out, evs)) \<Rightarrow>
                   (let s = s\<lparr>tr_seq := seq, tr_sasend := sasend, tr_sent := tr_sent s @ [(sasend, ttl, data)],
                              tr_sarecv := sarecv, tr_out := out, tr_script := evs\<rparr>
                    in Some (Inr (if code = -3 then print_line [P_star] s else show_answer pr k code s)))))"

primrec probes :: "tproto \<Rightarrow> tkernel \<Rightarrow> 16 word \<Rightarrow> 16 word \<Rightarrow> bool \<Rightarrow> int \<Rightarrow> nat \<Rightarrow> trace \<Rightarrow> trace outcome option" where
  "probes pr k sport dport verbose ttl 0 s = Some (Inr s)"
| "probes pr k sport dport verbose ttl (Suc n) s =
     (case probe pr k sport dport verbose ttl s of
        None \<Rightarrow> None
      | Some (Inl e) \<Rightarrow> Some (Inl e)
      | Some (Inr s) \<Rightarrow> probes pr k sport dport verbose ttl n s)"

definition hop :: "tproto \<Rightarrow> tkernel \<Rightarrow> 16 word \<Rightarrow> 16 word \<Rightarrow> bool \<Rightarrow> int \<Rightarrow> trace \<Rightarrow> trace outcome option" where
  "hop pr k sport dport verbose ttl s =
     (if \<not> tk_setttl k ttl then Some (Inl (Err_sys ''setsockopt error''))
      else case probes pr k sport dport verbose ttl nprobes (print_line [P_ttl ttl] (s\<lparr>tr_salast := SOther 0\<rparr>)) of
        None \<Rightarrow> None
      | Some (Inl e) \<Rightarrow> Some (Inl e)
      | Some (Inr s) \<Rightarrow> Some (Inr (print_line [P_newline] s)))"

function hops :: "tproto \<Rightarrow> tkernel \<Rightarrow> 16 word \<Rightarrow> 16 word \<Rightarrow> bool \<Rightarrow> int \<Rightarrow> int \<Rightarrow> trace \<Rightarrow> trace outcome option" where
  "hops pr k sport dport verbose max_ttl ttl s =
     (if ttl \<le> max_ttl \<and> tr_done s = 0
      then (case hop pr k sport dport verbose ttl s of
              None \<Rightarrow> None
            | Some (Inl e) \<Rightarrow> Some (Inl e)
            | Some (Inr s) \<Rightarrow> hops pr k sport dport verbose max_ttl (ttl + 1) s)
      else Some (Inr s))"
  by pat_completeness auto
termination
  by (relation "measure (\<lambda>(pr, k, sport, dport, verbose, max_ttl, ttl, s). nat (max_ttl + 1 - ttl))") auto

declare hops.simps [simp del]

text \<open>The zeroed address with the family and the port set.\<close>

definition bind_addr :: "int \<Rightarrow> 16 word \<Rightarrow> sockaddr" where
  "bind_addr family port =
     (if family = AF_INET then SIn \<lparr>sin_port = port, sin_addr = replicate 4 0\<rparr>
      else if family = AF_INET6 then SIn6 \<lparr>sin6_port = port, sin6_addr = replicate 16 0\<rparr>
      else SOther family)"

definition trace_sport :: "int \<Rightarrow> 16 word" where
  "trace_sport pid = of_int pid OR 0x8000"

definition traceloop :: "tproto \<Rightarrow> tkernel \<Rightarrow> bool \<Rightarrow> int \<Rightarrow> sockaddr \<Rightarrow> tevent list \<Rightarrow> trace outcome option" where
  "traceloop pr k verbose max_ttl dest evs =
     (let sport = trace_sport (tk_pid k) in
      if tk_recvfd k < 0 \<or> tk_sendfd k < 0 then Some (Inl (Err_sys ''socket error''))
      else if \<not> tk_bind k (bind_addr (sa_family dest) (htons sport)) then Some (Inl (Err_sys ''bind error''))
      else hops pr k sport trace_dport verbose max_ttl 1
             \<lparr>tr_seq = 0, tr_done = 0, tr_sasend = dest, tr_sarecv = SOther 0, tr_salast = SOther 0, tr_out = [],
              tr_sent = [], tr_script = evs\<rparr>)"

subsection \<open>main\<close>

text \<open>What \<open>getopt\<close> returns, one by one. \<open>atoi\<close> is the \<open>int\<close> in the low bits of the \<open>long\<close> of \<open>strtol\<close>.\<close>

datatype topt = Opt_m string | Opt_v | Opt_unknown

definition atoi_int :: "string \<Rightarrow> int" where
  "atoi_int s = (case scan_long s of None \<Rightarrow> 0 | Some (n, _) \<Rightarrow> sint (of_int (max (- (2 ^ 63)) (min (2 ^ 63 - 1) n)) :: 32 word))"

fun trace_options :: "topt list \<Rightarrow> int \<times> bool \<Rightarrow> (int \<times> bool) outcome" where
  "trace_options [] c = Inr c"
| "trace_options (Opt_m arg # opts) (max_ttl, verbose) =
     (let n = atoi_int arg in if n \<le> 1 then Inl (Err_quit ''invalid -m value'') else trace_options opts (n, verbose))"
| "trace_options (Opt_v # opts) (max_ttl, verbose) = trace_options opts (max_ttl, True)"
| "trace_options (Opt_unknown # opts) c = Inl (Err_quit ''unrecognized option: ?'')"

text \<open>The options, the arguments behind them, the resolver, and the calls of the loop for the first address.\<close>

definition trace_main :: "topt list \<Rightarrow> string list \<Rightarrow> gai \<Rightarrow> tkernel \<Rightarrow> tevent list \<Rightarrow> trace outcome option" where
  "trace_main opts args gai k evs =
     (case trace_options opts (30, False) of
        Inl e \<Rightarrow> Some (Inl e)
      | Inr (max_ttl, verbose) \<Rightarrow>
          if length args \<noteq> 1 then Some (Inl (Err_quit ''usage: traceroute [ -m <maxttl> -v ] <hostname>''))
          else (case Host_serv gai (Some (hd args)) None 0 0 of
                  Inl e \<Rightarrow> Some (Inl e)
                | Inr [] \<Rightarrow> Some (Inl (Undefined Null_deref))
                | Inr (ai # _) \<Rightarrow>
                    (case ai_addr ai of
                       None \<Rightarrow> Some (Inl (Undefined Null_deref))
                     | Some sa \<Rightarrow>
                         if ai_family ai = AF_INET then traceloop proto_v4 k verbose max_ttl sa evs
                         else if ai_family ai = AF_INET6 then
                           (if (case sa of SIn6 s \<Rightarrow> v4mapped (sin6_addr s) | _ \<Rightarrow> False)
                            then Some (Inl (Err_quit ''cannot traceroute IPv4-mapped IPv6 address''))
                            else traceloop proto_v6 k verbose max_ttl sa evs)
                         else Some (Inl (Err_quit (''unknown address family '' @ print_int (ai_family ai)))))))"

subsection \<open>Answers and noise\<close>

text \<open>
  What arrives while a probe is waited for: events that do not concern it, then its answer or the alarm. \<open>answer\<close> and
  \<open>noise\<close> say which messages answer the probe and which are to be ignored.
\<close>

definition quiet :: "(byte list \<Rightarrow> bool) \<Rightarrow> errno + sockaddr \<times> byte list \<Rightarrow> bool" where
  "quiet noise r = (case r of Inl e \<Rightarrow> e = EINTR | Inr (from, pkt) \<Rightarrow> length pkt \<le> BUFSIZE \<and> noise pkt)"

definition segment :: "(byte list \<Rightarrow> bool) \<Rightarrow> (byte list \<Rightarrow> bool) \<Rightarrow> bool \<Rightarrow> sockaddr \<Rightarrow> tevent list \<Rightarrow> bool" where
  "segment noise answer answered host evs =
     (\<exists>before alarm r. evs = map (Pair False) before @ [(alarm, r)] \<and> list_all (quiet noise) before \<and>
       (if answered then \<exists>pkt. r = Inr (host, pkt) \<and> length pkt \<le> BUFSIZE \<and> answer pkt else alarm \<and> quiet noise r))"

text \<open>The number of the hop that probe \<open>i\<close> belongs to, and the datagram it sends.\<close>

definition ttl_of :: "int \<Rightarrow> int" where
  "ttl_of i = (i - 1) div int nprobes + 1"

definition datagram :: "tkernel \<Rightarrow> sockaddr \<Rightarrow> 16 word \<Rightarrow> int \<Rightarrow> int \<Rightarrow> sockaddr \<times> int \<times> byte list" where
  "datagram k dest dport ttl i =
     (sock_set_port dest (uint (htons (dport + of_int i))), ttl,
      store_rec \<lparr>rec_seq = of_int i, rec_ttl = of_int ttl, rec_tv = tk_sent k i\<rparr>)"

text \<open>The line of a hop: the host before its first answer, a time for every answer, a star for none.\<close>

fun probes_text :: "tkernel \<Rightarrow> sockaddr \<Rightarrow> (int \<Rightarrow> bool) \<Rightarrow> bool \<Rightarrow> int list \<Rightarrow> tprint list" where
  "probes_text k host answered shown [] = []"
| "probes_text k host answered shown (i # is) =
     (if answered i
      then (if shown then [] else [P_host (tk_getnameinfo k host) host]) @ [P_rtt (tv_sub (tk_arrived k i) (tk_sent k i))] @
        probes_text k host answered True is
      else P_star # probes_text k host answered shown is)"

definition hop_text :: "tkernel \<Rightarrow> (int \<Rightarrow> sockaddr) \<Rightarrow> (int \<Rightarrow> bool) \<Rightarrow> int \<Rightarrow> tprint list" where
  "hop_text k host answered ttl =
     [P_ttl ttl] @ probes_text k (host ttl) answered False [int nprobes * (ttl - 1) + 1..int nprobes * ttl] @ [P_newline]"

definition inet_host :: "sockaddr \<Rightarrow> bool" where
  "inet_host sa = (case sa of SIn _ \<Rightarrow> True | SIn6 _ \<Rightarrow> True | _ \<Rightarrow> False)"

lemma same_host [simp]: "inet_host sa \<Longrightarrow> sock_cmp_addr sa sa = 0"
  by (cases sa) (simp_all add: inet_host_def sock_cmp_addr_def memcmp_eq_0)

lemma no_host [simp]: "inet_host sa \<Longrightarrow> sock_cmp_addr sa (SOther 0) = -1"
  by (cases sa) (simp_all add: inet_host_def sock_cmp_addr_def AF_INET_def AF_INET6_def)

lemma set_port_twice [simp]: "sock_set_port (sock_set_port sa p) q = sock_set_port sa q"
  by (cases sa) (simp_all add: sock_set_port_def)

locale probe_protocol =
  fixes packet :: "int \<Rightarrow> byte list \<Rightarrow> reply" and answers :: "int \<Rightarrow> int \<Rightarrow> byte list \<Rightarrow> bool" and noise :: "int \<Rightarrow> byte list \<Rightarrow> bool"
    and pr :: tproto and sport dport :: "16 word"
  assumes answer_law: "answers seq code pkt \<Longrightarrow> packet seq pkt = Answer code"
    and noise_law: "noise seq pkt \<Longrightarrow> packet seq pkt = Skip \<or> (\<exists>ty code. packet seq pkt = Other ty code)"
    and recv_law: "tp_recv pr sport dport verbose seq = recv_loop (packet seq) verbose False"
begin

lemma recv_quiet:
  assumes "list_all (quiet (noise seq)) before"
  shows "\<exists>sr. recv_loop (packet seq) False False sarecv out (map (Pair False) before @ evs) = recv_loop (packet seq) False False sr out evs"
  using assms
proof (induction before arbitrary: sarecv)
  case (Cons r before)
  show ?case
  proof (cases r)
    case (Inr fp)
    obtain fr pkt where f: "fp = (fr, pkt)" by (cases fp)
    have "length pkt \<le> BUFSIZE" "noise seq pkt" using Cons.prems Inr f by (simp_all add: quiet_def)
    with noise_law [of seq pkt] Cons.IH [of fr] Cons.prems show ?thesis by (auto simp: Inr f)
  qed (use Cons in \<open>simp add: quiet_def\<close>)
qed auto

lemma recv_segment:
  assumes "segment (noise seq) (answers seq code) ok host evs"
  shows "\<exists>sr. recv_loop (packet seq) False False sarecv out (evs @ rest) = Some (Inr (if ok then code else -3, sr, out, rest)) \<and> (ok \<longrightarrow> sr = host)"
proof -
  obtain before alarm r where e: "evs = map (Pair False) before @ [(alarm, r)]" "list_all (quiet (noise seq)) before"
    and r: "if ok then \<exists>pkt. r = Inr (host, pkt) \<and> length pkt \<le> BUFSIZE \<and> answers seq code pkt else alarm \<and> quiet (noise seq) r"
    using assms unfolding segment_def by blast
  obtain sr where q: "recv_loop (packet seq) False False sarecv out (evs @ rest) = recv_loop (packet seq) False False sr out ((alarm, r) # rest)"
    using recv_quiet [OF e(2), of sarecv out "(alarm, r) # rest"] e(1) by auto
  have stop: "recv_loop (packet seq) False True sa out rest = Some (Inr (-3, sa, out, rest))" for sa
    by (cases rest) auto
  show ?thesis
  proof (cases ok)
    case True
    then obtain pkt where "r = Inr (host, pkt)" "length pkt \<le> BUFSIZE" "answers seq code pkt" using r by auto
    then show ?thesis using answer_law True by (simp add: q)
  next
    case False
    then have a: "alarm" "quiet (noise seq) r" using r by simp_all
    show ?thesis
    proof (cases r)
      case (Inr fp)
      obtain fr pkt where f: "fp = (fr, pkt)" by (cases fp)
      have "length pkt \<le> BUFSIZE" "noise seq pkt" using a Inr f by (simp_all add: quiet_def)
      with noise_law [of seq pkt] show ?thesis using False a stop by (auto simp: q Inr f)
    qed (use a False stop in \<open>simp add: q quiet_def\<close>)
  qed
qed

text \<open>One probe, from a state in which \<open>shown\<close> says whether the host of the hop was printed before.\<close>

lemma probe_step:
  assumes k: "\<forall>sa b. tk_sendto k sa b" and host: "inet_host host" and code: "code = -1 \<or> code = -2"
    and s: "tr_script s = ev @ rest" "i = tr_seq s + 1" "\<forall>q. sock_set_port (tr_sasend s) q = sock_set_port dest q"
      "tr_salast s = (if shown then host else SOther 0)"
    and seg: "segment (noise i) (answers i code) ok host ev"
  shows "\<exists>s'. probe pr k sport dport False ttl s = Some (Inr s') \<and> tr_script s' = rest \<and> tr_seq s' = i \<and>
    (\<forall>q. sock_set_port (tr_sasend s') q = sock_set_port dest q) \<and> tr_salast s' = (if ok \<or> shown then host else SOther 0) \<and>
    tr_out s' = tr_out s @ (if ok then (if shown then [] else [P_host (tk_getnameinfo k host) host]) @
        [P_rtt (tv_sub (tk_arrived k i) (tk_sent k i))] else [P_star]) \<and>
    tr_sent s' = tr_sent s @ [datagram k dest dport ttl i] \<and> tr_done s' = tr_done s + (if ok \<and> code = -1 then 1 else 0)"
proof -
  obtain sr where r: "recv_loop (packet i) False False (tr_sarecv s) (tr_out s) (ev @ rest) =
      Some (Inr (if ok then code else -3, sr, tr_out s, rest))" "ok \<longrightarrow> sr = host"
    using recv_segment [OF seg] by blast
  let ?d = "datagram k dest dport ttl i"
  define t where "t = s\<lparr>tr_seq := i, tr_sasend := fst ?d, tr_sent := tr_sent s @ [?d], tr_sarecv := sr, tr_script := rest\<rparr>"
  have d: "?d = (sock_set_port dest (uint (htons (dport + of_int i))), ttl,
      store_rec \<lparr>rec_seq = of_int i, rec_ttl = of_int ttl, rec_tv = tk_sent k i\<rparr>)" by (simp add: datagram_def)
  have "probe pr k sport dport False ttl s =
      Some (Inr (if ok then show_answer pr k code t else print_line [P_star] t))"
    using code k s(3) by (auto simp: probe_def Let_def recv_law s(1) s(2) [symmetric] r(1) d t_def)
  moreover have "\<forall>q. sock_set_port (fst ?d) q = sock_set_port dest q" by (simp add: d)
  ultimately show ?thesis
    using r(2) host code s(4)
    by (cases ok; cases shown) (auto simp: t_def print_line_def show_answer_def show_host_def Let_def)
qed

lemma probes_run:
  assumes k: "\<forall>sa b. tk_sendto k sa b" and host: "inet_host host" and code: "code = -1 \<or> code = -2"
    and s: "tr_script s = concat (map seg [tr_seq s + 1..tr_seq s + int n]) @ rest"
      "\<forall>q. sock_set_port (tr_sasend s) q = sock_set_port dest q" "tr_salast s = (if shown then host else SOther 0)"
    and seg: "\<And>i. tr_seq s < i \<Longrightarrow> i \<le> tr_seq s + int n \<Longrightarrow> segment (noise i) (answers i code) (answered i) host (seg i)"
  shows "\<exists>s'. probes pr k sport dport False ttl n s = Some (Inr s') \<and> tr_script s' = rest \<and> tr_seq s' = tr_seq s + int n \<and>
    (\<forall>q. sock_set_port (tr_sasend s') q = sock_set_port dest q) \<and>
    tr_out s' = tr_out s @ probes_text k host answered shown [tr_seq s + 1..tr_seq s + int n] \<and>
    tr_sent s' = tr_sent s @ map (datagram k dest dport ttl) [tr_seq s + 1..tr_seq s + int n] \<and>
    tr_done s' = tr_done s + (if code = -1 then int (length (filter answered [tr_seq s + 1..tr_seq s + int n])) else 0)"
  using s seg
proof (induction n arbitrary: s shown)
  case (Suc n)
  let ?i = "tr_seq s + 1" and ?m = "tr_seq s + int (Suc n)"
  have u: "[?i..?m] = ?i # [?i + 1..?i + int n]" by (simp add: upto_rec1 add.assoc)
  have ev: "tr_script s = seg ?i @ (concat (map seg [?i + 1..?i + int n]) @ rest)"
    using Suc.prems(1) by (simp only: u list.map concat.simps append_assoc)
  have "segment (noise ?i) (answers ?i code) (answered ?i) host (seg ?i)" by (rule Suc.prems(4)) simp_all
  from probe_step [OF k host code ev refl Suc.prems(2,3) this, of ttl]
  obtain t where t: "probe pr k sport dport False ttl s = Some (Inr t)" "tr_script t = concat (map seg [?i + 1..?i + int n]) @ rest"
    "tr_seq t = ?i" "\<forall>q. sock_set_port (tr_sasend t) q = sock_set_port dest q"
    "tr_salast t = (if answered ?i \<or> shown then host else SOther 0)"
    "tr_out t = tr_out s @ (if answered ?i then (if shown then [] else [P_host (tk_getnameinfo k host) host]) @
        [P_rtt (tv_sub (tk_arrived k ?i) (tk_sent k ?i))] else [P_star])"
    "tr_sent t = tr_sent s @ [datagram k dest dport ttl ?i]" "tr_done t = tr_done s + (if answered ?i \<and> code = -1 then 1 else 0)"
    by blast
  have "segment (noise i) (answers i code) (answered i) host (seg i)" if "tr_seq t < i" "i \<le> tr_seq t + int n" for i
    using that t(3) by (intro Suc.prems(4)) simp_all
  from Suc.IH [OF _ t(4,5) this] t(2,3)
  obtain s' where s': "probes pr k sport dport False ttl n t = Some (Inr s')" "tr_script s' = rest" "tr_seq s' = ?i + int n"
    "\<forall>q. sock_set_port (tr_sasend s') q = sock_set_port dest q"
    "tr_out s' = tr_out t @ probes_text k host answered (answered ?i \<or> shown) [?i + 1..?i + int n]"
    "tr_sent s' = tr_sent t @ map (datagram k dest dport ttl) [?i + 1..?i + int n]"
    "tr_done s' = tr_done t + (if code = -1 then int (length (filter answered [?i + 1..?i + int n])) else 0)"
    by auto
  show ?case using s' t(1,6-8) unfolding u by (intro exI [of _ s']) (cases shown; auto)
qed simp

lemma hop_run:
  assumes k: "\<forall>sa b. tk_sendto k sa b" "tk_setttl k ttl" and host: "inet_host (host ttl)" and code: "code = -1 \<or> code = -2"
    and s: "tr_script s = concat (map seg [int nprobes * (ttl - 1) + 1..int nprobes * ttl]) @ rest" "tr_seq s = int nprobes * (ttl - 1)"
      "\<forall>q. sock_set_port (tr_sasend s) q = sock_set_port dest q"
    and seg: "\<And>i. ttl_of i = ttl \<Longrightarrow> segment (noise i) (answers i code) (answered i) (host ttl) (seg i)"
  shows "\<exists>s'. hop pr k sport dport False ttl s = Some (Inr s') \<and> tr_script s' = rest \<and> tr_seq s' = int nprobes * ttl \<and>
    (\<forall>q. sock_set_port (tr_sasend s') q = sock_set_port dest q) \<and> tr_out s' = tr_out s @ hop_text k host answered ttl \<and>
    tr_sent s' = tr_sent s @ map (datagram k dest dport ttl) [int nprobes * (ttl - 1) + 1..int nprobes * ttl] \<and>
    tr_done s' = tr_done s + (if code = -1 then int (length (filter answered [int nprobes * (ttl - 1) + 1..int nprobes * ttl])) else 0)"
proof -
  let ?s = "print_line [P_ttl ttl] (s\<lparr>tr_salast := SOther 0\<rparr>)"
  have n: "int nprobes * (ttl - 1) + int nprobes = int nprobes * ttl" by (simp add: algebra_simps)
  have t: "ttl_of i = ttl" if "int nprobes * (ttl - 1) < i" "i \<le> int nprobes * (ttl - 1) + int nprobes" for i
    using that by (simp add: ttl_of_def nprobes_def)
  have p: "tr_script ?s = concat (map seg [tr_seq ?s + 1..tr_seq ?s + int nprobes]) @ rest"
    "\<forall>q. sock_set_port (tr_sasend ?s) q = sock_set_port dest q" "tr_salast ?s = (if False then host ttl else SOther 0)"
    using s by (simp_all add: print_line_def n)
  from probes_run [OF k(1) host code p, of answered ttl] seg t
  obtain t where "probes pr k sport dport False ttl nprobes ?s = Some (Inr t)" "tr_script t = rest" "tr_seq t = int nprobes * ttl"
    "\<forall>q. sock_set_port (tr_sasend t) q = sock_set_port dest q"
    "tr_out t = tr_out s @ P_ttl ttl # probes_text k (host ttl) answered False [int nprobes * (ttl - 1) + 1..int nprobes * ttl]"
    "tr_sent t = tr_sent s @ map (datagram k dest dport ttl) [int nprobes * (ttl - 1) + 1..int nprobes * ttl]"
    "tr_done t = tr_done s + (if code = -1 then int (length (filter answered [int nprobes * (ttl - 1) + 1..int nprobes * ttl])) else 0)"
    by (auto simp: print_line_def s(2) n)
  then show ?thesis using k(2) by (simp add: hop_def hop_text_def print_line_def)
qed

text \<open>All hops up to the one that reaches the destination.\<close>

lemma hops_run:
  assumes k: "\<forall>sa b. tk_sendto k sa b" "\<forall>t. 1 \<le> t \<and> t \<le> d \<longrightarrow> tk_setttl k t" and host: "\<forall>t. inet_host (host t)"
    and t: "1 \<le> ttl" "ttl \<le> d" "d \<le> max_ttl"
    and seg: "\<And>i. 1 \<le> i \<Longrightarrow> i \<le> int nprobes * d \<Longrightarrow> segment (noise i) (answers i (if ttl_of i = d then -1 else -2)) (answered i) (host (ttl_of i)) (seg i)"
    and last_hop: "\<exists>i. ttl_of i = d \<and> answered i"
    and s: "tr_script s = concat (map seg [int nprobes * (ttl - 1) + 1..int nprobes * d]) @ rest" "tr_seq s = int nprobes * (ttl - 1)"
      "\<forall>q. sock_set_port (tr_sasend s) q = sock_set_port dest q" "tr_done s = 0"
  shows "\<exists>s'. hops pr k sport dport False max_ttl ttl s = Some (Inr s') \<and> tr_script s' = rest \<and>
    tr_out s' = tr_out s @ concat (map (hop_text k host answered) [ttl..d]) \<and>
    tr_sent s' = tr_sent s @ map (\<lambda>i. datagram k dest dport (ttl_of i) i) [int nprobes * (ttl - 1) + 1..int nprobes * d] \<and> 0 < tr_done s'"
  using t s
proof (induction "nat (d - ttl)" arbitrary: ttl s rule: less_induct)
  case (less ttl s)
  let ?lo = "int nprobes * (ttl - 1) + 1" and ?mid = "int nprobes * ttl" and ?hi = "int nprobes * d"
  define code :: int where "code = (if ttl = d then -1 else -2)"
  have u: "[?lo..?hi] = [?lo..?mid] @ [?mid + 1..?hi]"
    using less.prems(1,2) by (intro upto_split2) (simp_all add: nprobes_def)
  have in_hop: "ttl_of i = ttl \<Longrightarrow> 1 \<le> i \<and> i \<le> ?hi" "i \<in> set [?lo..?mid] \<longleftrightarrow> ttl_of i = ttl" for i
    using less.prems(1,2) by (auto simp: ttl_of_def nprobes_def)
  have sg: "segment (noise i) (answers i code) (answered i) (host ttl) (seg i)" if "ttl_of i = ttl" for i
    using seg [of i] in_hop(1) [OF that] that by (simp add: code_def)
  have dg: "map (datagram k dest dport ttl) [?lo..?mid] = map (\<lambda>i. datagram k dest dport (ttl_of i) i) [?lo..?mid]"
    using in_hop(2) by (intro map_cong refl) simp
  have script: "tr_script s = concat (map seg [?lo..?mid]) @ (concat (map seg [?mid + 1..?hi]) @ rest)"
    using less.prems(4) by (simp add: u)
  have "tk_setttl k ttl" "inet_host (host ttl)" "code = -1 \<or> code = -2" using k(2) host less.prems(1,2) by (simp_all add: code_def)
  from hop_run [where host = host and answered = answered and dest = dest, OF k(1) this script less.prems(5,6) sg]
  obtain s1 where s1: "hop pr k sport dport False ttl s = Some (Inr s1)" "tr_script s1 = concat (map seg [?mid + 1..?hi]) @ rest"
    "tr_seq s1 = ?mid" "\<forall>q. sock_set_port (tr_sasend s1) q = sock_set_port dest q" "tr_out s1 = tr_out s @ hop_text k host answered ttl"
    "tr_sent s1 = tr_sent s @ map (\<lambda>i. datagram k dest dport (ttl_of i) i) [?lo..?mid]"
    "tr_done s1 = (if code = -1 then int (length (filter answered [?lo..?mid])) else 0)"
    unfolding dg using less.prems(7) by auto
  have step: "hops pr k sport dport False max_ttl ttl s = hops pr k sport dport False max_ttl (ttl + 1) s1"
    using s1(1) less.prems(2,3,7) by (subst hops.simps) simp
  show ?case
  proof (cases "ttl = d")
    case True
    have "\<exists>i \<in> set [?lo..?mid]. answered i" using last_hop in_hop(2) True by blast
    then have "0 < tr_done s1" using s1(7) True by (auto simp: code_def filter_empty_conv simp del: set_upto)
    then show ?thesis using s1 True unfolding step by (subst hops.simps) (simp add: u)
  next
    case False
    then have "tr_done s1 = 0" "ttl + 1 \<le> d" "nat (d - (ttl + 1)) < nat (d - ttl)" "1 \<le> ttl + 1"
      using s1(7) less.prems(1,2) by (simp_all add: code_def)
    from less.hyps [OF this(3,4,2) less.prems(3), of s1] this(1) s1(2-4)
    obtain s' where "hops pr k sport dport False max_ttl (ttl + 1) s1 = Some (Inr s')" "tr_script s' = rest"
      "tr_out s' = tr_out s1 @ concat (map (hop_text k host answered) [ttl + 1..d])"
      "tr_sent s' = tr_sent s1 @ map (\<lambda>i. datagram k dest dport (ttl_of i) i) [?mid + 1..?hi]" "0 < tr_done s'"
      by auto
    moreover have "[ttl..d] = ttl # [ttl + 1..d]" using less.prems(2) by (rule upto_rec1)
    ultimately show ?thesis unfolding step u by (simp add: s1(5,6))
  qed
qed

lemma traceloop_run:
  assumes k: "0 \<le> tk_recvfd k" "0 \<le> tk_sendfd k" "\<forall>sa. tk_bind k sa" "\<forall>sa b. tk_sendto k sa b"
      "\<forall>t. 1 \<le> t \<and> t \<le> d \<longrightarrow> tk_setttl k t"
    and p: "sport = trace_sport (tk_pid k)" "dport = trace_dport"
    and host: "\<forall>t. inet_host (host t)" and d: "1 \<le> d" "d \<le> max_ttl"
    and seg: "\<And>i. 1 \<le> i \<Longrightarrow> i \<le> int nprobes * d \<Longrightarrow>
      segment (noise i) (answers i (if ttl_of i = d then -1 else -2)) (answered i) (host (ttl_of i)) (seg i)"
    and last_hop: "\<exists>i. ttl_of i = d \<and> answered i"
  shows "\<exists>s. traceloop pr k False max_ttl dest (concat (map seg [1..int nprobes * d]) @ rest) = Some (Inr s) \<and> tr_script s = rest \<and>
    tr_out s = concat (map (hop_text k host answered) [1..d]) \<and>
    tr_sent s = map (\<lambda>i. datagram k dest dport (ttl_of i) i) [1..int nprobes * d]"
proof -
  let ?s = "\<lparr>tr_seq = 0, tr_done = 0, tr_sasend = dest, tr_sarecv = SOther 0, tr_salast = SOther 0, tr_out = [],
    tr_sent = [], tr_script = concat (map seg [1..int nprobes * d]) @ rest\<rparr>"
  have "\<exists>s'. hops pr k sport dport False max_ttl 1 ?s = Some (Inr s') \<and> tr_script s' = rest \<and>
    tr_out s' = tr_out ?s @ concat (map (hop_text k host answered) [1..d]) \<and>
    tr_sent s' = tr_sent ?s @ map (\<lambda>i. datagram k dest dport (ttl_of i) i) [int nprobes * (1 - 1) + 1..int nprobes * d] \<and> 0 < tr_done s'"
    by (rule hops_run [OF k(4,5) host order_refl d seg last_hop]) simp_all
  then show ?thesis using k(1-3) by (auto simp: traceloop_def p [symmetric] simp del: hops.simps)
qed

end

subsection \<open>The two protocols\<close>

lemma inner_v4_packet:
  assumes "ip4_header hip" "length rest = 6"
  shows "inner_v4 sport dport seq (length hdr) (icmp4_packet hdr ty c rest hip sp dp data) =
    Some (hip ! 9 = 17 \<and> sp = htons sport \<and> dp = htons (dport + of_int seq))"
proof -
  let ?pkt = "icmp4_packet hdr ty c rest hip sp dp data" and ?udp = "ports sp dp @ data"
  have d: "drop (length hdr + 8) ?pkt = hip @ ?udp" and l: "length ?pkt - length hdr = 8 + length hip + 4 + length data"
    using assms(2) ports_load(3) by (simp_all add: icmp4_packet_def)
  have drop_append_length: "drop (length hip) (hip @ ?udp) = ?udp" by simp
  have h: "(hip @ ?udp) ! 0 = hip ! 0" "(hip @ ?udp) ! 9 = hip ! 9" "4 * (unat (hip ! 0) mod 16) = length hip" "20 \<le> length hip"
    using assms(1) by (auto simp: ip4_header_def nth_append)
  show ?thesis
    unfolding inner_v4_def Let_def d l h(1-3) drop_append_length ports_load(1,2) using h(4) by simp
qed

lemma packet_v4_start:
  assumes "ip4_header hdr" "6 \<le> length r"
  shows "packet_v4 sport dport seq (hdr @ ty # c # r) =
    (if ty = ICMP_TIMXCEED \<and> c = 0 then
       (case inner_v4 sport dport seq (length hdr) (hdr @ ty # c # r) of None \<Rightarrow> Skip | Some mine \<Rightarrow> if mine then Answer (-2) else Other ty c)
     else if ty = ICMP_UNREACH then
       (case inner_v4 sport dport seq (length hdr) (hdr @ ty # c # r) of
          None \<Rightarrow> Skip | Some mine \<Rightarrow> if mine then Answer (if c = 3 then -1 else uint c) else Other ty c)
     else Other ty c)"
proof -
  have h: "(hdr @ ty # c # r) ! 0 = hdr ! 0" "4 * (unat (hdr ! 0) mod 16) = length hdr"
    using assms(1) by (auto simp: ip4_header_def nth_append)
  have t: "(hdr @ ty # c # r) ! length hdr = ty" "(hdr @ ty # c # r) ! (length hdr + 1) = c" by (simp_all add: nth_append)
  show ?thesis unfolding packet_v4_def Let_def h t using assms(2) by simp
qed

text \<open>
  The answers to a probe are the errors for its ports, time exceeded on the way and port unreachable at the end. Errors
  for other datagrams, other messages and short ones are noise.
\<close>

definition answers_v4 :: "16 word \<Rightarrow> 16 word \<Rightarrow> int \<Rightarrow> int \<Rightarrow> byte list \<Rightarrow> bool" where
  "answers_v4 sport dport seq code pkt =
     (\<exists>hdr ty c rest hip data. pkt = icmp4_packet hdr ty c rest hip (htons sport) (htons (dport + of_int seq)) data \<and>
        ip4_header hdr \<and> ip4_header hip \<and> hip ! 9 = 17 \<and> length rest = 6 \<and>
        (code = -2 \<and> ty = ICMP_TIMXCEED \<and> c = 0 \<or> code = -1 \<and> ty = ICMP_UNREACH \<and> c = 3))"

definition noise_v4 :: "16 word \<Rightarrow> 16 word \<Rightarrow> int \<Rightarrow> byte list \<Rightarrow> bool" where
  "noise_v4 sport dport seq pkt =
     ((\<exists>hdr ty c rest hip sp dp data. pkt = icmp4_packet hdr ty c rest hip sp dp data \<and> ip4_header hdr \<and> ip4_header hip \<and>
         length rest = 6 \<and> (hip ! 9 \<noteq> 17 \<or> sp \<noteq> htons sport \<or> dp \<noteq> htons (dport + of_int seq))) \<or>
      (\<exists>hdr ty c r. pkt = hdr @ ty # c # r \<and> ip4_header hdr \<and> 6 \<le> length r \<and> ty \<noteq> ICMP_TIMXCEED \<and> ty \<noteq> ICMP_UNREACH) \<or>
      (\<exists>hdr r. pkt = hdr @ r \<and> ip4_header hdr \<and> length r < 8))"

lemma icmp4_packet_start: "icmp4_packet hdr ty c rest hip sp dp data = hdr @ ty # c # (rest @ hip @ ports sp dp @ data)"
  by (simp add: icmp4_packet_def)

interpretation tr4: probe_protocol "packet_v4 sport dport" "answers_v4 sport dport" "noise_v4 sport dport" proto_v4 sport dport
  for sport dport
proof unfold_locales
  fix seq code pkt assume "answers_v4 sport dport seq code pkt"
  then obtain hdr ty c rest hip data where p: "pkt = icmp4_packet hdr ty c rest hip (htons sport) (htons (dport + of_int seq)) data"
    "ip4_header hdr" "ip4_header hip" "hip ! 9 = 17" "length rest = 6"
    "code = -2 \<and> ty = ICMP_TIMXCEED \<and> c = 0 \<or> code = -1 \<and> ty = ICMP_UNREACH \<and> c = 3"
    unfolding answers_v4_def by blast
  have "packet_v4 sport dport seq pkt = (if ty = ICMP_TIMXCEED \<and> c = 0 then Answer (-2)
      else if ty = ICMP_UNREACH then Answer (if c = 3 then -1 else uint c) else Other ty c)"
    unfolding p(1) icmp4_packet_start
    by (subst packet_v4_start) (use p(2-5) inner_v4_packet [OF p(3,5)] in \<open>simp_all add: icmp4_packet_start\<close>)
  then show "packet_v4 sport dport seq pkt = Answer code"
    using p(6) by (auto simp: ICMP_TIMXCEED_def ICMP_UNREACH_def)
next
  fix seq pkt assume "noise_v4 sport dport seq pkt"
  then consider (error) hdr ty c rest hip sp dp data where "pkt = icmp4_packet hdr ty c rest hip sp dp data" "ip4_header hdr"
      "ip4_header hip" "length rest = 6" "hip ! 9 \<noteq> 17 \<or> sp \<noteq> htons sport \<or> dp \<noteq> htons (dport + of_int seq)"
    | (other) hdr ty c r where "pkt = hdr @ ty # c # r" "ip4_header hdr" "6 \<le> length r" "ty \<noteq> ICMP_TIMXCEED" "ty \<noteq> ICMP_UNREACH"
    | (short) hdr r where "pkt = hdr @ r" "ip4_header hdr" "length r < 8"
    unfolding noise_v4_def by blast
  then show "packet_v4 sport dport seq pkt = Skip \<or> (\<exists>ty code. packet_v4 sport dport seq pkt = Other ty code)"
  proof cases
    case error
    show ?thesis unfolding error(1) icmp4_packet_start
      by (subst (1 2) packet_v4_start) (use error(2-5) inner_v4_packet [OF error(3,4)] in \<open>auto simp: icmp4_packet_start\<close>)
  next
    case other
    then show ?thesis using packet_v4_start by simp
  next
    case short
    have "(hdr @ r) ! 0 = hdr ! 0" "4 * (unat (hdr ! 0) mod 16) = length hdr"
      using short(2) by (auto simp: ip4_header_def nth_append)
    then show ?thesis using short by (simp add: packet_v4_def Let_def)
  qed
qed (simp add: proto_v4_def recv_v4_def)

text \<open>An answer that comes late, for another of the first 65535 probes, is noise.\<close>

lemma late_answer_noise:
  assumes "answers_v4 sport dport j code pkt" "0 \<le> i" "i < 65536" "0 \<le> j" "j < 65536" "i \<noteq> j"
  shows "noise_v4 sport dport i pkt"
proof -
  have "uint (word_of_int x :: 16 word) = x" if "0 \<le> x" "x < 65536" for x using that by (simp add: uint_word_of_int)
  then have "(word_of_int i :: 16 word) \<noteq> word_of_int j" using assms(2-6) by metis
  then have "htons (dport + of_int j) \<noteq> htons (dport + of_int i)"
    by (metis htons_htons add_left_cancel)
  then show ?thesis using assms(1) unfolding answers_v4_def noise_v4_def by blast
qed

lemma inner_v6_packet:
  assumes "length hip6 = 40" "length rest = 6"
  shows "inner_v6 sport dport seq (icmp6_packet ty c rest hip6 sp dp data) =
    Some (hip6 ! 6 = 17 \<and> sp = htons sport \<and> dp = htons (dport + of_int seq))"
proof -
  let ?pkt = "icmp6_packet ty c rest hip6 sp dp data" and ?udp = "ports sp dp @ data"
  have d: "drop 8 ?pkt = hip6 @ ?udp" "drop 40 (hip6 @ ?udp) = ?udp" "(hip6 @ ?udp) ! 6 = hip6 ! 6"
    and l: "\<not> length ?pkt < 8 + 40 + 4"
    using assms ports_load(3) by (simp_all add: icmp6_packet_def nth_append)
  show ?thesis unfolding inner_v6_def Let_def d ports_load(1,2) using l by simp
qed

definition answers_v6 :: "16 word \<Rightarrow> 16 word \<Rightarrow> int \<Rightarrow> int \<Rightarrow> byte list \<Rightarrow> bool" where
  "answers_v6 sport dport seq code pkt =
     (\<exists>ty c rest hip6 data. pkt = icmp6_packet ty c rest hip6 (htons sport) (htons (dport + of_int seq)) data \<and>
        length hip6 = 40 \<and> hip6 ! 6 = 17 \<and> length rest = 6 \<and> (code = -2 \<and> ty = 3 \<and> c = 0 \<or> code = -1 \<and> ty = 1 \<and> c = 4))"

text \<open>Of the messages for other datagrams, only \<open>unreachable\<close> is noise here.\<close>

definition noise_v6 :: "16 word \<Rightarrow> 16 word \<Rightarrow> int \<Rightarrow> byte list \<Rightarrow> bool" where
  "noise_v6 sport dport seq pkt =
     ((\<exists>c rest hip6 sp dp data. pkt = icmp6_packet 1 c rest hip6 sp dp data \<and> length hip6 = 40 \<and>
         length rest = 6 \<and> (hip6 ! 6 \<noteq> 17 \<or> sp \<noteq> htons sport \<or> dp \<noteq> htons (dport + of_int seq))) \<or>
      (\<exists>ty c r. pkt = ty # c # r \<and> ty \<noteq> 1 \<and> ty \<noteq> 3) \<or> length pkt < 8)"

lemma packet_v6_start:
  assumes "length hip6 = 40" "length rest = 6"
  shows "packet_v6 sport dport seq (icmp6_packet ty c rest hip6 sp dp data) =
    (let mine = (hip6 ! 6 = 17 \<and> sp = htons sport \<and> dp = htons (dport + of_int seq)) in
     if ty = 3 \<and> c = 0 then (if mine then Answer (-2) else Unset)
     else if ty = 1 then (if mine then Answer (if c = 4 then -1 else uint c) else Skip)
     else Other ty c)"
proof -
  let ?pkt = "icmp6_packet ty c rest hip6 sp dp data"
  have t: "?pkt ! 0 = ty" "?pkt ! 1 = c" "\<not> length ?pkt < 8" using assms by (simp_all add: icmp6_packet_def)
  show ?thesis unfolding packet_v6_def Let_def t inner_v6_packet [OF assms] using t(3) by simp
qed

interpretation tr6: probe_protocol "packet_v6 sport dport" "answers_v6 sport dport" "noise_v6 sport dport" proto_v6 sport dport
  for sport dport
proof unfold_locales
  fix seq code pkt assume "answers_v6 sport dport seq code pkt"
  then show "packet_v6 sport dport seq pkt = Answer code"
    unfolding answers_v6_def by (elim exE conjE) (auto simp: packet_v6_start Let_def)
next
  fix seq pkt assume "noise_v6 sport dport seq pkt"
  then consider (error) c rest hip6 sp dp data where "pkt = icmp6_packet 1 c rest hip6 sp dp data" "length hip6 = 40" "length rest = 6"
      "hip6 ! 6 \<noteq> 17 \<or> sp \<noteq> htons sport \<or> dp \<noteq> htons (dport + of_int seq)"
    | (other) ty c r where "pkt = ty # c # r" "ty \<noteq> 1" "ty \<noteq> 3" | (short) "length pkt < 8"
    unfolding noise_v6_def by blast
  then show "packet_v6 sport dport seq pkt = Skip \<or> (\<exists>ty code. packet_v6 sport dport seq pkt = Other ty code)"
  proof cases
    case error
    then show ?thesis by (auto simp: packet_v6_start Let_def)
  next
    case other
    then show ?thesis by (simp add: packet_v6_def)
  next
    case short
    then show ?thesis by (simp add: packet_v6_def)
  qed
qed (simp add: proto_v6_def recv_v6_def)

text \<open>
  Over IPv6, time exceeded for any other datagram of the host, a late answer to an earlier probe for instance, ends the
  wait, and \<open>recv_v6\<close> returns a variable that was never set; \<open>recv_v4\<close> ignores such a message.
\<close>

lemma recv_v6_returns_unset:
  assumes "length hip6 = 40" "length rest = 6" "hip6 ! 6 \<noteq> 17 \<or> sp \<noteq> htons sport \<or> dp \<noteq> htons (dport + of_int seq)"
    and "length (icmp6_packet 3 0 rest hip6 sp dp data) \<le> BUFSIZE"
  shows "recv_v6 sport dport verbose seq sarecv out ((alarm, Inr (host, icmp6_packet 3 0 rest hip6 sp dp data)) # evs) =
    Some (Inl (Undefined Uninit_read))"
  using assms packet_v6_start [OF assms(1,2), of sport dport seq 3 0 sp dp data] by (auto simp: recv_v6_def)

lemma traceroute_v6_finds_path:
  assumes "0 \<le> tk_recvfd k" "0 \<le> tk_sendfd k" "\<forall>sa. tk_bind k sa" "\<forall>sa b. tk_sendto k sa b" "\<forall>t. 1 \<le> t \<and> t \<le> d \<longrightarrow> tk_setttl k t"
    and "sport = trace_sport (tk_pid k)" "\<forall>t. inet_host (host t)" "1 \<le> d" "d \<le> max_ttl"
    and "\<And>i. 1 \<le> i \<Longrightarrow> i \<le> int nprobes * d \<Longrightarrow> segment (noise_v6 sport trace_dport i)
      (answers_v6 sport trace_dport i (if ttl_of i = d then -1 else -2)) (answered i) (host (ttl_of i)) (seg i)"
    and "\<exists>i. ttl_of i = d \<and> answered i"
  shows "\<exists>s. traceloop proto_v6 k False max_ttl dest (concat (map seg [1..int nprobes * d]) @ rest) = Some (Inr s) \<and>
    tr_script s = rest \<and> tr_out s = concat (map (hop_text k host answered) [1..d]) \<and>
    tr_sent s = map (\<lambda>i. datagram k dest trace_dport (ttl_of i) i) [1..int nprobes * d]"
  by (rule tr6.traceloop_run [OF assms(1-6) refl assms(7-11)])

subsection \<open>The claim\<close>


text \<open>A run for the witness: two hops; the second probe gets no answer in time, its answer arrives while the third is waited for.\<close>

definition wit_answer :: "int \<Rightarrow> byte \<Rightarrow> byte \<Rightarrow> byte list" where
  "wit_answer i ty c = icmp4_packet (69 # replicate 19 0) ty c (replicate 6 0) (69 # replicate 8 0 @ 17 # replicate 10 0)
     (htons (trace_sport 7)) (htons (trace_dport + of_int i)) []"

definition wit_host :: "int \<Rightarrow> sockaddr" where
  "wit_host t = SIn \<lparr>sin_port = 0, sin_addr = [10, 0, 0, if t = 1 then 1 else 9]\<rparr>"

definition wit_seg :: "int \<Rightarrow> tevent list" where
  "wit_seg i =
     (if i = 2 then [(False, Inl EINTR), (True, Inl EINTR)]
      else (if i = 3 then [(False, Inr (wit_host 1, wit_answer 2 11 0))] else []) @
        [(False, Inr (wit_host (ttl_of i), if i \<le> 3 then wit_answer i 11 0 else wit_answer i 3 3))])"

definition wit_tkernel :: tkernel where
  "wit_tkernel = \<lparr>tk_recvfd = 3, tk_sendfd = 4, tk_pid = 7, tk_bind = (\<lambda>_. True), tk_setttl = (\<lambda>_. True), tk_sendto = (\<lambda>_ _. True),
     tk_getnameinfo = (\<lambda>_. None), tk_sent = (\<lambda>i. \<lparr>tv_sec = i, tv_usec = 999000\<rparr>), tk_arrived = (\<lambda>i. \<lparr>tv_sec = i + 1, tv_usec = 4000\<rparr>)\<rparr>"

lemma wit_headers: "ip4_header (69 # replicate 19 0 :: byte list)" "ip4_header (69 # replicate 8 0 @ 17 # replicate 10 0 :: byte list)"
  "(69 # replicate 8 0 @ 17 # replicate 10 0 :: byte list) ! 9 = 17"
  by code_simp+

lemma wit_answers:
  "answers_v4 (trace_sport 7) trace_dport i (-2) (wit_answer i 11 0)" "answers_v4 (trace_sport 7) trace_dport i (-1) (wit_answer i 3 3)"
  unfolding answers_v4_def wit_answer_def
  by ((rule exI)+, (rule conjI, rule refl), use wit_headers in \<open>simp add: ICMP_TIMXCEED_def ICMP_UNREACH_def\<close>)+

lemma wit_answer_length: "length (wit_answer i ty c) = 52"
  by (simp add: wit_answer_def icmp4_packet_def ports_load(3))

lemma wit_segments:
  assumes "1 \<le> i" "i \<le> 6"
  shows "segment (noise_v4 (trace_sport 7) trace_dport i) (answers_v4 (trace_sport 7) trace_dport i (if ttl_of i = 2 then -1 else -2))
    (i \<noteq> 2) (wit_host (ttl_of i)) (wit_seg i)"
proof -
  have t: "ttl_of i = (if i \<le> 3 then 1 else 2)" using assms by (auto simp: ttl_of_def nprobes_def)
  have n: "noise_v4 (trace_sport 7) trace_dport 3 (wit_answer 2 11 0)" by (rule late_answer_noise [OF wit_answers(1)]) simp_all
  let ?before = "if i = 2 then [Inl EINTR] else if i = 3 then [Inr (wit_host 1, wit_answer 2 11 0)] else []"
  let ?r = "if i = 2 then Inl EINTR else Inr (wit_host (ttl_of i), if i \<le> 3 then wit_answer i 11 0 else wit_answer i 3 3)"
  have "wit_seg i = map (Pair False) ?before @ [(i = 2, ?r)]" by (simp add: wit_seg_def)
  moreover have "list_all (quiet (noise_v4 (trace_sport 7) trace_dport i)) ?before"
    using n by (simp add: quiet_def wit_answer_length BUFSIZE_def)
  ultimately show ?thesis
    unfolding segment_def using wit_answers [of i] t
    by (intro exI [of _ ?before] exI [of _ "i = 2"] exI [of _ ?r]) (auto simp: quiet_def wit_answer_length BUFSIZE_def)
qed


end
