(* ===== verification/Source_Route.thy ===== *)
theory Source_Route
  imports Conn_Setup
begin

text \<open>
  IP source routes: \<open>ipopts/sourceroute.c\<close>, which builds the option byte by byte in a buffer of 44 bytes and prints a
  received one, and its callers \<open>ipopts/tcpcli01.c\<close> (the part before \<open>str_cli\<close>) and \<open>ipopts/tcpserv01.c\<close> (what it does
  with the options of a connection).

  The pointers \<open>optr\<close> and \<open>lenptr\<close> are offsets into the buffer. An access outside the 44 bytes is a buffer overflow.
\<close>

definition IPOPT_NOP :: byte where "IPOPT_NOP = 1"
definition IPOPT_LSRR :: byte where "IPOPT_LSRR = 131"
definition IPOPT_SSRR :: byte where "IPOPT_SSRR = 137"

subsection \<open>Building the option\<close>

record srcrt =
  sr_buf :: "byte list"
  sr_optr :: nat
  sr_lenptr :: nat
  sr_ocnt :: int

definition inet_srcrt_init :: "int \<Rightarrow> srcrt" where
  "inet_srcrt_init ty =
     \<lparr>sr_buf = (replicate 44 0)[0 := IPOPT_NOP, 1 := if ty \<noteq> 0 then IPOPT_SSRR else IPOPT_LSRR, 3 := 4],
      sr_optr = 4, sr_lenptr = 2, sr_ocnt = 0\<rparr>"

text \<open>\<open>memcpy(buf + i, bs, length bs)\<close>.\<close>

definition put_bytes :: "nat \<Rightarrow> byte list \<Rightarrow> byte list \<Rightarrow> byte list outcome" where
  "put_bytes i bs buf =
     (if length buf < i + length bs then Inl (Undefined Buffer_overflow)
      else Inr (take i buf @ bs @ drop (i + length bs) buf))"

text \<open>
  The resolver is asked for \<open>AF_INET\<close>; what the bytes of another structure would be read as is left open by ending
  there.
\<close>

definition sin_bytes :: "addrinfo list \<Rightarrow> byte list outcome" where
  "sin_bytes ais =
     (case ais of
        ai # _ \<Rightarrow> (case ai_addr ai of
            Some (SIn s) \<Rightarrow> Inr (take 4 (sin_addr s))
          | Some _ \<Rightarrow> Inl (Undefined Uninit_read)
          | None \<Rightarrow> Inl (Undefined Null_deref))
      | [] \<Rightarrow> Inl (Undefined Null_deref))"

definition inet_srcrt_add :: "gai \<Rightarrow> string \<Rightarrow> srcrt \<Rightarrow> (int \<times> srcrt) outcome" where
  "inet_srcrt_add gai hostptr s =
     (if sr_ocnt s > 9 then Inl (Err_quit (''too many source routes with: '' @ hostptr))
      else case Host_serv gai (Some hostptr) None AF_INET 0 of
        Inl e \<Rightarrow> Inl e
      | Inr ais \<Rightarrow>
          (case sin_bytes ais of
             Inl e \<Rightarrow> Inl e
           | Inr addr \<Rightarrow>
               (case put_bytes (sr_optr s) addr (sr_buf s) of
                  Inl e \<Rightarrow> Inl e
                | Inr buf \<Rightarrow>
                    (let ocnt = sr_ocnt s + 1; len = 3 + ocnt * 4 in
                     case put_bytes (sr_lenptr s) [of_int len] buf of
                       Inl e \<Rightarrow> Inl e
                     | Inr buf \<Rightarrow> Inr (len + 1, s\<lparr>sr_buf := buf, sr_optr := sr_optr s + 4, sr_ocnt := ocnt\<rparr>)))))"

fun add_all :: "gai \<Rightarrow> string list \<Rightarrow> int \<Rightarrow> srcrt \<Rightarrow> (int \<times> srcrt) outcome" where
  "add_all gai [] len s = Inr (len, s)"
| "add_all gai (host # hosts) len s =
     (case inet_srcrt_add gai host s of Inl e \<Rightarrow> Inl e | Inr (len, s) \<Rightarrow> add_all gai hosts len s)"

subsection \<open>Printing a received option\<close>

definition byte_at :: "byte list \<Rightarrow> nat \<Rightarrow> byte outcome" where
  "byte_at buf i = (if i < length buf then Inr (buf ! i) else Inl (Undefined Buffer_overflow))"

definition addr_text :: "byte list \<Rightarrow> nat \<Rightarrow> string outcome" where
  "addr_text buf i =
     (if length buf < i + 4 then Inl (Undefined Buffer_overflow)
      else case inet_ntop AF_INET (take 4 (drop i buf)) 16 of
        Inl _ \<Rightarrow> Inl (Err_sys ''inet_ntop error'')
      | Inr str \<Rightarrow> Inr (str @ '' ''))"

text \<open>The first byte from \<open>i\<close> on that is not \<open>IPOPT_NOP\<close>, and the offset behind it.\<close>

function skip_nops :: "byte list \<Rightarrow> nat \<Rightarrow> (byte \<times> nat) outcome" where
  "skip_nops buf i =
     (case byte_at buf i of
        Inl e \<Rightarrow> Inl e
      | Inr c \<Rightarrow> if c = IPOPT_NOP then skip_nops buf (i + 1) else Inr (c, i + 1))"
  by pat_completeness auto
termination
  by (relation "measure (\<lambda>(buf, i). length buf - i)") (auto simp: byte_at_def split: if_splits)

declare skip_nops.simps [simp del]

function print_hops :: "byte list \<Rightarrow> nat \<Rightarrow> int \<Rightarrow> string \<Rightarrow> string outcome" where
  "print_hops buf i len out =
     (if len > 0
      then (case addr_text buf i of Inl e \<Rightarrow> Inl e | Inr t \<Rightarrow> print_hops buf (i + 4) (len - 4) (out @ t))
      else Inr out)"
  by pat_completeness auto
termination
  by (relation "measure (\<lambda>(buf, i, len, out). nat len)") auto

declare print_hops.simps [simp del]

text \<open>
  The buffer is the one of the caller. \<open>*ptr++ - sizeof(struct in_addr)\<close> is unsigned, but its value as an \<open>int\<close> is the
  difference.
\<close>

definition inet_srcrt_print :: "byte list \<Rightarrow> string outcome" where
  "inet_srcrt_print buf =
     (if length buf < 4 then Inl (Undefined Buffer_overflow)
      else case skip_nops buf 4 of
        Inl e \<Rightarrow> Inl e
      | Inr (c, i) \<Rightarrow>
          if c \<noteq> IPOPT_LSRR \<and> c \<noteq> IPOPT_SSRR then Inr (''received option type '' @ print_dec (unat c) @ [CHR 0x0A])
          else (case addr_text buf 0 of
                  Inl e \<Rightarrow> Inl e
                | Inr hop1 \<Rightarrow>
                    (case byte_at buf i of
                       Inl e \<Rightarrow> Inl e
                     | Inr l \<Rightarrow>
                         (case print_hops buf (i + 2) (uint l - 4)
                                 ((if c = IPOPT_LSRR then ''received LSRR: '' else ''received SSRR: '') @ hop1) of
                            Inl e \<Rightarrow> Inl e
                          | Inr out \<Rightarrow> Inr (out @ [CHR 0x0A])))))"

subsection \<open>The programs\<close>

text \<open>What the client's \<open>getopt\<close> returns.\<close>

datatype ropt = Opt_g | Opt_G | Opt_other

fun route_options :: "ropt list \<Rightarrow> srcrt option \<Rightarrow> srcrt option outcome" where
  "route_options [] ptr = Inr ptr"
| "route_options (Opt_g # opts) ptr =
     (case ptr of Some _ \<Rightarrow> Inl (Err_quit ''can't use both -g and -G'') | None \<Rightarrow> route_options opts (Some (inet_srcrt_init 0)))"
| "route_options (Opt_G # opts) ptr =
     (case ptr of Some _ \<Rightarrow> Inl (Err_quit ''can't use both -g and -G'') | None \<Rightarrow> route_options opts (Some (inet_srcrt_init 1)))"
| "route_options (Opt_other # opts) ptr = Inl (Err_quit ''unrecognized option: ?'')"

text \<open>The calls that follow for the destination: the socket, the options it is given, and the address to connect to.\<close>

definition route_connect :: "gai \<Rightarrow> kernel \<Rightarrow> string \<Rightarrow> srcrt option \<Rightarrow> (int \<times> byte list option \<times> sockaddr option) outcome" where
  "route_connect gai k dest ptr =
     (case Host_serv gai (Some dest) (Some ''9877'') AF_INET SOCK_STREAM of
        Inl e \<Rightarrow> Inl e
      | Inr [] \<Rightarrow> Inl (Undefined Null_deref)
      | Inr (ai # _) \<Rightarrow>
          (let fd = k_socket k 0 (ai_family ai) (ai_socktype ai) (ai_protocol ai) in
           if fd < 0 then Inl (Err_sys ''socket error'')
           else case (case ptr of
                        None \<Rightarrow> Inr None
                      | Some s \<Rightarrow>
                          (case inet_srcrt_add gai dest s of
                             Inl e \<Rightarrow> Inl e
                           | Inr (len, s) \<Rightarrow>
                               (case Setsockopt k fd of Inl e \<Rightarrow> Inl e | Inr _ \<Rightarrow> Inr (Some (take (nat len) (sr_buf s)))))) of
             Inl e \<Rightarrow> Inl e
           | Inr opts \<Rightarrow> if k_connect k 0 fd (ai_addr ai) then Inr (fd, opts, ai_addr ai) else Inl (Err_sys ''connect error'')))"

text \<open>\<open>args\<close> are the arguments behind the options; \<open>argc < 2\<close> means there is neither.\<close>

definition route_client :: "gai \<Rightarrow> kernel \<Rightarrow> ropt list \<Rightarrow> string list \<Rightarrow> (int \<times> byte list option \<times> sockaddr option) outcome" where
  "route_client gai k opts args =
     (if opts = [] \<and> args = [] then Inl (Err_quit ''usage: tcpcli01 [ -[gG] <hostname> ... ] <hostname>'')
      else case route_options opts None of
        Inl e \<Rightarrow> Inl e
      | Inr ptr \<Rightarrow>
          (case (case ptr of
                   Some s \<Rightarrow> (case add_all gai (butlast args) 0 s of Inl e \<Rightarrow> Inl e | Inr (len, s) \<Rightarrow> Inr (Some s))
                 | None \<Rightarrow> if length args > 1 then Inl (Err_quit ''need -g or -G to specify route'') else Inr None) of
             Inl e \<Rightarrow> Inl e
           | Inr ptr \<Rightarrow>
               if args = [] then Inl (Err_quit ''missing <hostname>'') else route_connect gai k (last args) ptr))"

text \<open>
  The server's buffer \<open>opts\<close> is allocated once; \<open>getsockopt\<close> writes the options of the connection over its beginning.
  The result is what is printed and the buffer.
\<close>

definition route_server :: "byte list \<Rightarrow> byte list \<Rightarrow> (string \<times> byte list) outcome" where
  "route_server opts received =
     (let len = min 44 (length received); opts = take len received @ drop len opts in
      if len > 0
      then (case inet_srcrt_print opts of
              Inl e \<Rightarrow> Inl e
            | Inr out \<Rightarrow> Inr (''received IP options, len = '' @ print_dec len @ [CHR 0x0A] @ out, opts))
      else Inr ([], opts))"

subsection \<open>Well-formed options\<close>

text \<open>The option of type \<open>c\<close> for the addresses \<open>addrs\<close>, with the pointers where the next address goes.\<close>

definition srcrt_header :: "byte \<Rightarrow> nat \<Rightarrow> byte list" where
  "srcrt_header c n = [IPOPT_NOP, c, if n = 0 then 0 else of_nat (3 + 4 * n), 4]"

definition srcrt_ok :: "byte \<Rightarrow> byte list list \<Rightarrow> srcrt \<Rightarrow> bool" where
  "srcrt_ok c addrs s =
     (length addrs \<le> 10 \<and> list_all (\<lambda>a. length a = 4) addrs \<and> sr_optr s = 4 + 4 * length addrs \<and> sr_lenptr s = 2 \<and>
      sr_ocnt s = int (length addrs) \<and>
      sr_buf s = srcrt_header c (length addrs) @ concat addrs @ replicate (40 - 4 * length addrs) 0)"

text \<open>What a resolver that is asked for IPv4 addresses returns.\<close>

definition gai_v4 :: "gai \<Rightarrow> bool" where
  "gai_v4 gai = (\<forall>h sv hints ais. gai h sv hints = Inr ais \<longrightarrow>
     (\<exists>ai rest s. ais = ai # rest \<and> ai_addr ai = Some (SIn s) \<and> length (sin_addr s) = 4))"

definition route_text :: "byte \<Rightarrow> byte list list \<Rightarrow> string" where
  "route_text c addrs = (if c = IPOPT_LSRR then ''received LSRR: '' else ''received SSRR: '') @
     concat (map (\<lambda>a. dotted a @ '' '') addrs) @ [CHR 0x0A]"

lemma length_addrs: "list_all (\<lambda>a. length a = 4) addrs \<Longrightarrow> length (concat addrs) = 4 * length addrs"
  by (induction addrs) simp_all

lemma length_header [simp]: "length (srcrt_header c n) = 4"
  by (simp add: srcrt_header_def)

lemma init_ok: "srcrt_ok (if ty \<noteq> 0 then IPOPT_SSRR else IPOPT_LSRR) [] (inet_srcrt_init ty)"
  by (simp add: srcrt_ok_def inet_srcrt_init_def srcrt_header_def) (simp add: numeral_eq_Suc)

lemma put_bytes_middle:
  "length bs = length ys \<Longrightarrow> put_bytes (length xs) bs (xs @ ys @ zs) = Inr (xs @ bs @ zs)"
  by (simp add: put_bytes_def)

lemma add_ok:
  assumes s: "srcrt_ok c addrs s" "length addrs < 10" and a: "Host_serv gai (Some h) None AF_INET 0 = Inr ais" "sin_bytes ais = Inr a" "length a = 4"
  shows "\<exists>s'. inet_srcrt_add gai h s = Inr (4 + 4 * int (length (addrs @ [a])), s') \<and> srcrt_ok c (addrs @ [a]) s'"
proof -
  let ?n = "length addrs" and ?z = "replicate (36 - 4 * length addrs) 0 :: byte list"
  have l: "length (concat addrs) = 4 * ?n" using s(1) by (simp add: srcrt_ok_def length_addrs)
  have "40 - 4 * ?n = 4 + (36 - 4 * ?n)" using s(2) by simp
  then have z: "replicate (40 - 4 * ?n) (0 :: byte) = replicate 4 0 @ ?z" by (simp only: replicate_add)
  have b: "put_bytes (4 + 4 * ?n) a (sr_buf s) = Inr ((srcrt_header c ?n @ concat addrs) @ a @ ?z)"
    using put_bytes_middle [of a "replicate 4 0" "srcrt_header c ?n @ concat addrs" ?z] s(1) a(3) l by (simp add: srcrt_ok_def z)
  have p: "put_bytes 2 [x] (srcrt_header c ?n @ r) = Inr ([IPOPT_NOP, c] @ [x] @ 4 # r)" for x r
    by (simp add: put_bytes_def srcrt_header_def)
  have h: "[IPOPT_NOP, c] @ [of_int (3 + (int ?n + 1) * 4)] @ 4 # r = srcrt_header c (Suc ?n) @ r" for r
    by (simp add: srcrt_header_def algebra_simps)
  have o: "sr_optr s = 4 + 4 * ?n" "sr_lenptr s = 2" "sr_ocnt s = int ?n" using s(1) by (simp_all add: srcrt_ok_def)
  have "inet_srcrt_add gai h s = Inr (3 + (int ?n + 1) * 4 + 1,
      s\<lparr>sr_buf := srcrt_header c (Suc ?n) @ concat addrs @ a @ ?z, sr_optr := 4 + 4 * ?n + 4, sr_ocnt := int ?n + 1\<rparr>)"
    unfolding inet_srcrt_add_def Let_def o
    using s(2) by (simp only: a sum.case b append_assoc p h) simp
  then show ?thesis using s a(3) l by (simp add: srcrt_ok_def)
qed

lemma print_hops_ok:
  assumes "list_all (\<lambda>a. length a = 4) addrs" "drop i buf = concat addrs @ rest"
  shows "print_hops buf i (4 * int (length addrs) - 1) out = Inr (out @ concat (map (\<lambda>a. dotted a @ '' '') addrs))"
  using assms
proof (induction addrs arbitrary: i out)
  case Nil
  then show ?case by (simp add: print_hops.simps)
next
  case (Cons a addrs)
  have d: "drop (i + 4) buf = concat addrs @ rest"
    using Cons.prems drop_drop [of 4 i buf] by (simp add: add.commute)
  have "length (drop i buf) = 4 + length (concat addrs @ rest)" using Cons.prems by simp
  then have "\<not> length buf < i + 4" by (simp only: length_drop)
  then have "addr_text buf i = Inr (dotted a @ '' '')"
    using Cons.prems by (simp add: addr_text_def inet_ntop_def inet_ntop4_fits)
  then show ?case using Cons.IH [OF _ d] Cons.prems(1) by (subst print_hops.simps) (simp add: algebra_simps)
qed

lemma server_prints:
  assumes s: "srcrt_ok c addrs s" "addrs \<noteq> []" "length addrs \<le> 9" and c: "c = IPOPT_LSRR \<or> c = IPOPT_SSRR"
    and b: "length hop1 = 4" "length opts = 44"
  shows "\<exists>opts'. route_server opts (hop1 @ take (4 + 4 * length addrs) (sr_buf s)) =
    Inr (''received IP options, len = '' @ print_dec (8 + 4 * length addrs) @ [CHR 0x0A] @ route_text c (hop1 # addrs), opts') \<and> length opts' = 44"
proof -
  let ?n = "length addrs"
  have l: "length (concat addrs) = 4 * ?n" "list_all (\<lambda>a. length a = 4) addrs" using s(1) by (simp_all add: srcrt_ok_def length_addrs)
  have t: "take (4 + 4 * ?n) (sr_buf s) = srcrt_header c ?n @ concat addrs" using s(1) l(1) by (simp add: srcrt_ok_def)
  define z where "z = drop (8 + 4 * ?n) opts"
  define buf where "buf = hop1 @ srcrt_header c ?n @ concat addrs @ z"
  have o: "min 44 (length (hop1 @ take (4 + 4 * ?n) (sr_buf s))) = 8 + 4 * ?n"
    "take (8 + 4 * ?n) (hop1 @ take (4 + 4 * ?n) (sr_buf s)) @ drop (8 + 4 * ?n) opts = buf"
    using s(3) b l(1) by (simp_all add: t buf_def z_def)
  have u: "uint (word_of_nat (3 + 4 * ?n) :: byte) = 3 + 4 * int ?n"
    unfolding unsigned_of_nat using s(3) by (simp add: take_bit_nat_eq_self)
  have n4: "buf ! 4 = IPOPT_NOP" "buf ! 5 = c" "buf ! 6 = word_of_nat (3 + 4 * ?n)" "drop 8 buf = concat addrs @ z" "take 4 buf = hop1" "8 \<le> length buf"
    using b(1) s(2,3) by (simp_all add: buf_def srcrt_header_def nth_append)
  have sk: "skip_nops buf 4 = Inr (c, 6)"
    using n4 c by (auto simp: skip_nops.simps [of buf 4] skip_nops.simps [of buf 5] byte_at_def IPOPT_NOP_def IPOPT_LSRR_def IPOPT_SSRR_def)
  have hp: "addr_text buf 0 = Inr (dotted hop1 @ '' '')" using n4 by (simp add: addr_text_def inet_ntop_def inet_ntop4_fits)
  have "uint (buf ! 6) - 4 = 4 * int ?n - 1" using u by (simp only: n4(3))
  then have "inet_srcrt_print buf = Inr (route_text c (hop1 # addrs))"
    using sk hp n4(6) c print_hops_ok [OF l(2) n4(4)] by (auto simp: inet_srcrt_print_def byte_at_def route_text_def)
  then show ?thesis
    using b(2) s(3) unfolding route_server_def Let_def o
    by (simp add: buf_def z_def b(1) l(1))
qed

text \<open>A received length byte is trusted: with a larger one the reading goes on behind the buffer.\<close>

lemma print_overrun:
  "inet_srcrt_print ([10, 0, 0, 1, IPOPT_LSRR, 255, 4] @ replicate 37 0) = Inl (Undefined Buffer_overflow)"
  by code_simp

text \<open>The client passes the route through the given hosts to the destination, which comes last.\<close>

lemma add_all_ok:
  assumes "srcrt_ok c addrs s" "length addrs + length hosts \<le> 10"
    and "\<And>h. Host_serv gai (Some h) None AF_INET 0 = Inr (ais h)" "\<And>h. sin_bytes (ais h) = Inr (addr h)" "\<And>h. length (addr h) = 4"
  shows "\<exists>len' s'. add_all gai hosts len s = Inr (len', s') \<and> srcrt_ok c (addrs @ map addr hosts) s'"
  using assms(1,2)
proof (induction hosts arbitrary: addrs s len)
  case (Cons h hosts)
  from add_ok [OF Cons.prems(1) _ assms(3,4,5), of h] Cons.prems(2)
  obtain s1 where s1: "inet_srcrt_add gai h s = Inr (4 + 4 * int (length (addrs @ [addr h])), s1)" "srcrt_ok c (addrs @ [addr h]) s1"
    by auto
  from Cons.IH [OF s1(2), of "4 + 4 * int (length (addrs @ [addr h]))"] Cons.prems(2) show ?case by (simp add: s1(1))
qed simp

lemma route_client_ok:
  assumes r: "\<And>h. Host_serv gai (Some h) None AF_INET 0 = Inr (ais h)" "\<And>h. sin_bytes (ais h) = Inr (addr h)" "\<And>h. length (addr h) = 4"
    and "length hosts \<le> 9" "Host_serv gai (Some dest) (Some ''9877'') AF_INET SOCK_STREAM = Inr (ai # rest)"
    and "fd = k_socket k 0 (ai_family ai) (ai_socktype ai) (ai_protocol ai)" "0 \<le> fd" "k_setsockopt k fd" "k_connect k 0 fd (ai_addr ai)"
  shows "route_client gai k [Opt_g] (hosts @ [dest]) =
    Inr (fd, Some (srcrt_header IPOPT_LSRR (Suc (length hosts)) @ concat (map addr (hosts @ [dest]))), ai_addr ai)"
proof -
  have i: "srcrt_ok IPOPT_LSRR [] (inet_srcrt_init 0)" using init_ok [of 0] by simp
  from add_all_ok [OF i _ r, where hosts = hosts and len = 0] assms(4)
  obtain len s where s: "add_all gai hosts 0 (inet_srcrt_init 0) = Inr (len, s)" "srcrt_ok IPOPT_LSRR (map addr hosts) s" by auto
  from add_ok [OF s(2) _ r, of dest] assms(4)
  obtain s' where s': "inet_srcrt_add gai dest s = Inr (4 + 4 * int (length (map addr hosts @ [addr dest])), s')"
    "srcrt_ok IPOPT_LSRR (map addr hosts @ [addr dest]) s'" by auto
  have "length (concat (map addr hosts @ [addr dest])) = 4 * Suc (length hosts)"
    using s'(2) length_addrs [of "map addr hosts @ [addr dest]"] by (simp add: srcrt_ok_def)
  then have "take (nat (4 + 4 * int (length (map addr hosts @ [addr dest])))) (sr_buf s') =
      srcrt_header IPOPT_LSRR (Suc (length hosts)) @ concat (map addr (hosts @ [dest]))"
    using s'(2) by (simp add: srcrt_ok_def nat_add_distrib nat_mult_distrib)
  then show ?thesis
    using s(1) s'(1) assms(5-9) by (simp add: route_client_def route_connect_def Setsockopt_def)
qed

subsection \<open>The claim\<close>



end
