(* ===== verification/Thread_Pool.thy ===== *)
theory Thread_Pool
  imports Prefork_Server
begin

text \<open>
  The prethreaded server \<open>server/serv08.c\<close> with \<open>server/pthread08.c\<close> and \<open>server/pthread08.h\<close>: the main thread accepts
  connections and puts them into a ring of 32 entries; the other threads take them out and serve them. A mutex protects
  the ring, a condition variable says that it is not empty.

  Every statement of the two loops is a step of its own, and the steps of the threads interleave freely. A thread is where
  its program counter says. \<open>pthread_cond_wait\<close> gives up the mutex and waits in one step, is woken by a signal or for no
  reason, and takes the mutex again before it returns; a signal wakes one of the waiting threads, if there is one. Connections are
  numbered by the kernel; the lists \<open>arrived\<close> and \<open>handed\<close> are the history of the run. The calls of the thread library and
  \<open>close\<close> do not fail.
\<close>

definition MAXNCLI :: nat where "MAXNCLI = 32"

text \<open>Who holds the mutex, and the places in \<open>main\<close> and \<open>thread_main\<close> with the local variable \<open>connfd\<close>.\<close>

datatype holder = Main | Worker nat

datatype mpc = M_accept | M_lock nat | M_put nat | M_incr nat | M_check | M_signal | M_unlock

datatype wpc = W_lock | W_test | W_wait | W_relock | W_take | W_incr nat | W_unlock nat | W_count nat | W_serve nat | W_close nat

record pool =
  clifd :: "nat list"
  iget :: nat
  iput :: nat
  clifd_mutex :: "holder option"
  mainpc :: mpc
  workers :: "wpc list"
  thread_count :: "int list"
  ended :: "halt option"
  arrived :: "nat list"
  handed :: "(nat \<times> nat) list"

definition pool_start :: "nat \<Rightarrow> pool" where
  "pool_start nthreads =
     \<lparr>clifd = replicate MAXNCLI 0, iget = 0, iput = 0, clifd_mutex = None, mainpc = M_accept,
      workers = replicate nthreads W_lock, thread_count = replicate nthreads 0, ended = None, arrived = [], handed = []\<rparr>"

text \<open>\<open>if (++i == MAXNCLI) i = 0;\<close>\<close>

definition bump :: "nat \<Rightarrow> nat" where
  "bump i = (if i + 1 = MAXNCLI then 0 else i + 1)"

definition waiting :: "pool \<Rightarrow> nat \<Rightarrow> bool" where
  "waiting s i = (i < length (workers s) \<and> workers s ! i = W_wait)"

text \<open>
  The next statement of \<open>main\<close>; \<open>None\<close>: it is blocked. \<open>conn\<close> is what \<open>Accept\<close> returns, \<open>w\<close> the thread that a signal
  wakes.
\<close>

definition main_step :: "nat option \<Rightarrow> nat \<Rightarrow> pool \<Rightarrow> pool option" where
  "main_step conn w s =
     (case mainpc s of
        M_accept \<Rightarrow>
          (case conn of
             None \<Rightarrow> Some (s\<lparr>ended := Some (Err_sys ''accept error'')\<rparr>)
           | Some c \<Rightarrow> Some (s\<lparr>mainpc := M_lock c, arrived := arrived s @ [c]\<rparr>))
      | M_lock c \<Rightarrow> if clifd_mutex s = None then Some (s\<lparr>clifd_mutex := Some Main, mainpc := M_put c\<rparr>) else None
      | M_put c \<Rightarrow> Some (s\<lparr>clifd := (clifd s)[iput s := c], mainpc := M_incr c\<rparr>)
      | M_incr c \<Rightarrow> Some (s\<lparr>iput := bump (iput s), mainpc := M_check\<rparr>)
      | M_check \<Rightarrow> Some (if iput s = iget s then s\<lparr>ended := Some (Err_quit (''iput = iget = '' @ print_dec (iput s)))\<rparr>
                        else s\<lparr>mainpc := M_signal\<rparr>)
      | M_signal \<Rightarrow> if waiting s w then Some (s\<lparr>workers := (workers s)[w := W_relock], mainpc := M_unlock\<rparr>)
                   else if W_wait \<in> set (workers s) then None
                   else Some (s\<lparr>mainpc := M_unlock\<rparr>)
      | M_unlock \<Rightarrow> Some (s\<lparr>clifd_mutex := None, mainpc := M_accept\<rparr>))"

text \<open>The next statement of thread \<open>i\<close>; \<open>lines\<close> is what the client sends to \<open>web_child\<close>, whose \<open>err_quit\<close> ends the process.\<close>

definition worker_step :: "nat \<Rightarrow> string list \<Rightarrow> pool \<Rightarrow> pool option" where
  "worker_step i lines s =
     (case workers s ! i of
        W_lock \<Rightarrow> if clifd_mutex s = None then Some (s\<lparr>clifd_mutex := Some (Worker i), workers := (workers s)[i := W_test]\<rparr>) else None
      | W_test \<Rightarrow> Some (if iget s = iput s then s\<lparr>clifd_mutex := None, workers := (workers s)[i := W_wait]\<rparr>
                      else s\<lparr>workers := (workers s)[i := W_take]\<rparr>)
      | W_wait \<Rightarrow> None
      | W_relock \<Rightarrow> if clifd_mutex s = None then Some (s\<lparr>clifd_mutex := Some (Worker i), workers := (workers s)[i := W_test]\<rparr>) else None
      | W_take \<Rightarrow> Some (s\<lparr>workers := (workers s)[i := W_incr (clifd s ! iget s)]\<rparr>)
      | W_incr c \<Rightarrow> Some (s\<lparr>iget := bump (iget s), workers := (workers s)[i := W_unlock c], handed := handed s @ [(i, c)]\<rparr>)
      | W_unlock c \<Rightarrow> Some (s\<lparr>clifd_mutex := None, workers := (workers s)[i := W_count c]\<rparr>)
      | W_count c \<Rightarrow> Some (s\<lparr>thread_count := (thread_count s)[i := thread_count s ! i + 1], workers := (workers s)[i := W_serve c]\<rparr>)
      | W_serve c \<Rightarrow> Some (case web_child lines of
                            Inl e \<Rightarrow> s\<lparr>ended := Some e\<rparr>
                          | Inr _ \<Rightarrow> s\<lparr>workers := (workers s)[i := W_close c]\<rparr>)
      | W_close c \<Rightarrow> Some (s\<lparr>workers := (workers s)[i := W_lock]\<rparr>))"

text \<open>\<open>pthread_cond_wait\<close> may return without a signal.\<close>

definition spurious :: "nat \<Rightarrow> pool \<Rightarrow> pool" where
  "spurious i s = s\<lparr>workers := (workers s)[i := W_relock]\<rparr>"

inductive pool_step :: "pool \<Rightarrow> pool \<Rightarrow> bool" where
  main: "ended s = None \<Longrightarrow> set_option conn \<inter> set (arrived s) = {} \<Longrightarrow> main_step conn w s = Some t \<Longrightarrow> pool_step s t"
| worker: "ended s = None \<Longrightarrow> i < length (workers s) \<Longrightarrow> worker_step i lines s = Some t \<Longrightarrow> pool_step s t"
| wake: "ended s = None \<Longrightarrow> waiting s i \<Longrightarrow> pool_step s (spurious i s)"

inductive pool_reach :: "nat \<Rightarrow> pool \<Rightarrow> bool" for nthreads where
  start: "pool_reach nthreads (pool_start nthreads)"
| step: "pool_reach nthreads s \<Longrightarrow> pool_step s t \<Longrightarrow> pool_reach nthreads t"

subsection \<open>A ring as a queue\<close>

text \<open>The \<open>n\<close> entries from \<open>g\<close> on.\<close>

definition ring :: "'a list \<Rightarrow> nat \<Rightarrow> nat \<Rightarrow> 'a list" where
  "ring xs g n = map (\<lambda>j. xs ! ((g + j) mod length xs)) [0..<n]"

lemma length_ring [simp]: "length (ring xs g n) = n"
  by (simp add: ring_def)

lemma ring_put:
  assumes "n < length xs" "g < length xs"
  shows "ring (xs[(g + n) mod length xs := c]) g (Suc n) = ring xs g n @ [c]"
proof -
  have "(g + n) mod length xs \<noteq> (g + j) mod length xs" if "j < n" for j
  proof
    assume "(g + n) mod length xs = (g + j) mod length xs"
    then have "length xs dvd (g + n) - (g + j)" using that mod_eq_dvd_iff_nat [of "g + j" "g + n" "length xs"] by (simp del: diff_diff_left)
    then show False using that assms nat_dvd_not_less [of "n - j" "length xs"] by simp
  qed
  moreover have "(g + n) mod length xs < length xs" using assms by (intro mod_less_divisor) linarith
  ultimately show ?thesis by (simp add: ring_def)
qed

lemma ring_take:
  assumes "0 < n" "g < length xs"
  shows "ring xs g n = xs ! g # ring xs (Suc g mod length xs) (n - 1)"
proof -
  obtain m where n: "n = Suc m" using assms(1) by (cases n) auto
  have "(Suc g mod length xs + j) mod length xs = (g + Suc j) mod length xs" for j by (simp add: mod_add_left_eq)
  then show ?thesis using assms(2) by (simp add: ring_def n upt_conv_Cons map_Suc_upt [symmetric] del: upt_Suc)
qed

lemma bump_mod: "i < MAXNCLI \<Longrightarrow> bump i = Suc i mod MAXNCLI" "i < MAXNCLI \<Longrightarrow> bump i < MAXNCLI"
  by (auto simp: bump_def MAXNCLI_def)

subsection \<open>The invariant\<close>

fun main_holds :: "mpc \<Rightarrow> bool" where
  "main_holds M_accept = False"
| "main_holds (M_lock c) = False"
| "main_holds _ = True"

fun worker_holds :: "wpc \<Rightarrow> bool" where
  "worker_holds W_test = True"
| "worker_holds W_take = True"
| "worker_holds (W_incr c) = True"
| "worker_holds (W_unlock c) = True"
| "worker_holds _ = False"

definition lock_inv :: "pool \<Rightarrow> bool" where
  "lock_inv s = ((clifd_mutex s = Some Main \<longleftrightarrow> main_holds (mainpc s)) \<and>
     (\<forall>i. clifd_mutex s = Some (Worker i) \<longleftrightarrow> i < length (workers s) \<and> worker_holds (workers s ! i)))"

text \<open>
  The connections in the ring. Equal indices mean an empty ring, except between the increment in \<open>main\<close> and the test that
  follows it.
\<close>

definition qlen :: "pool \<Rightarrow> nat" where
  "qlen s =
     (if iput s = iget s then if mainpc s = M_check then MAXNCLI else 0
      else (iput s + MAXNCLI - iget s) mod MAXNCLI)"

definition queue :: "pool \<Rightarrow> nat list" where
  "queue s = ring (clifd s) (iget s) (qlen s)"

text \<open>The connection that \<open>main\<close> has accepted and not yet put into the ring.\<close>

definition pending :: "pool \<Rightarrow> nat list" where
  "pending s = (case mainpc s of M_lock c \<Rightarrow> [c] | M_put c \<Rightarrow> [c] | M_incr c \<Rightarrow> [c] | _ \<Rightarrow> [])"

definition ring_inv :: "pool \<Rightarrow> bool" where
  "ring_inv s = (length (clifd s) = MAXNCLI \<and> iget s < MAXNCLI \<and> iput s < MAXNCLI \<and>
     (\<forall>c. mainpc s = M_incr c \<longrightarrow> clifd s ! iput s = c) \<and> (mainpc s = M_signal \<longrightarrow> iput s \<noteq> iget s) \<and>
     (\<forall>w \<in> set (workers s). case w of W_take \<Rightarrow> iget s \<noteq> iput s
        | W_incr c \<Rightarrow> iget s \<noteq> iput s \<and> clifd s ! iget s = c | _ \<Rightarrow> True))"

definition fifo_inv :: "pool \<Rightarrow> bool" where
  "fifo_inv s = (distinct (arrived s) \<and> arrived s = map snd (handed s) @ queue s @ pending s)"

text \<open>No lost wake-up: when all threads wait, there is nothing to do or \<open>main\<close> is about to signal.\<close>

definition wake_inv :: "pool \<Rightarrow> bool" where
  "wake_inv s = ((\<forall>w \<in> set (workers s). w = W_wait) \<longrightarrow> workers s = [] \<or> iput s = iget s \<or> mainpc s = M_check \<or> mainpc s = M_signal)"

definition taken_by :: "nat \<Rightarrow> pool \<Rightarrow> nat" where
  "taken_by i s = length (filter (\<lambda>(j, _). j = i) (handed s))"

definition count_inv :: "pool \<Rightarrow> bool" where
  "count_inv s = (length (thread_count s) = length (workers s) \<and>
     (\<forall>i < length (workers s). int (taken_by i s) = thread_count s ! i +
        (case workers s ! i of W_unlock c \<Rightarrow> 1 | W_count c \<Rightarrow> 1 | _ \<Rightarrow> 0)))"

definition pool_inv :: "pool \<Rightarrow> bool" where
  "pool_inv s = (lock_inv s \<and> ring_inv s \<and> fifo_inv s \<and> wake_inv s \<and> count_inv s)"

lemma pool_start_inv: "pool_inv (pool_start n)"
proof -
  have 1: "lock_inv (pool_start n)" by (auto simp: lock_inv_def pool_start_def)
  have 2: "ring_inv (pool_start n)" by (auto simp: ring_inv_def pool_start_def MAXNCLI_def)
  have 3: "fifo_inv (pool_start n)" by (simp add: fifo_inv_def pool_start_def queue_def qlen_def pending_def ring_def)
  have 4: "wake_inv (pool_start n)" by (simp add: wake_inv_def pool_start_def)
  have 5: "count_inv (pool_start n)" by (simp add: count_inv_def pool_start_def taken_by_def)
  show ?thesis using 1 2 3 4 5 by (simp add: pool_inv_def)
qed

lemma holder_unique:
  assumes "lock_inv s"
  shows "main_holds (mainpc s) \<Longrightarrow> w \<in> set (workers s) \<Longrightarrow> \<not> worker_holds w"
    and "i < length (workers s) \<Longrightarrow> worker_holds (workers s ! i) \<Longrightarrow> \<not> main_holds (mainpc s)"
    and "i < length (workers s) \<Longrightarrow> worker_holds (workers s ! i) \<Longrightarrow> j < length (workers s) \<Longrightarrow> worker_holds (workers s ! j) \<Longrightarrow> i = j"
proof -
  have m: "main_holds (mainpc s) \<longleftrightarrow> clifd_mutex s = Some Main"
    and w: "i < length (workers s) \<and> worker_holds (workers s ! i) \<longleftrightarrow> clifd_mutex s = Some (Worker i)" for i
    using assms by (simp_all add: lock_inv_def)
  show "main_holds (mainpc s) \<Longrightarrow> w \<in> set (workers s) \<Longrightarrow> \<not> worker_holds w" using m w by (fastforce simp: in_set_conv_nth)
  show "i < length (workers s) \<Longrightarrow> worker_holds (workers s ! i) \<Longrightarrow> \<not> main_holds (mainpc s)" using m w [of i] by simp
  show "i < length (workers s) \<Longrightarrow> worker_holds (workers s ! i) \<Longrightarrow> j < length (workers s) \<Longrightarrow> worker_holds (workers s ! j) \<Longrightarrow> i = j"
    using w [of i] w [of j] by simp
qed

lemma qlen_bump:
  assumes "iput s < MAXNCLI" "iget s < MAXNCLI" "mainpc s = M_incr c"
  shows "qlen (s\<lparr>iput := bump (iput s), mainpc := M_check\<rparr>) = Suc (qlen s)" "qlen s < MAXNCLI" "(iget s + qlen s) mod MAXNCLI = iput s"
  using assms by (auto simp: qlen_def bump_def MAXNCLI_def mod_if)

lemma qlen_take:
  assumes "iput s < MAXNCLI" "iget s < MAXNCLI" "mainpc s \<noteq> M_check" "iput s \<noteq> iget s" "mainpc t = mainpc s" "iput t = iput s" "iget t = bump (iget s)"
  shows "qlen t = qlen s - 1" "0 < qlen s"
  using assms by (auto simp: qlen_def bump_def MAXNCLI_def mod_if)

subsection \<open>Steps of main\<close>

lemma wake_holds [simp]: "waiting s w \<Longrightarrow> worker_holds ((workers s)[w := W_relock] ! i) = worker_holds (workers s ! i)"
  by (auto simp: waiting_def nth_list_update)

lemma lock_keep:
  assumes "lock_inv s" "clifd_mutex t = clifd_mutex s" "main_holds (mainpc t) = main_holds (mainpc s)"
    "length (workers t) = length (workers s)" "\<And>i. i < length (workers s) \<Longrightarrow> worker_holds (workers t ! i) = worker_holds (workers s ! i)"
  shows "lock_inv t"
  using assms unfolding lock_inv_def by metis

lemma lock_main:
  assumes "lock_inv s" "workers t = workers s" "clifd_mutex s = None \<and> clifd_mutex t = Some Main \<and> main_holds (mainpc t) \<or>
    main_holds (mainpc s) \<and> clifd_mutex t = None \<and> \<not> main_holds (mainpc t)"
  shows "lock_inv t"
  using assms(3)
proof
  assume a: "clifd_mutex s = None \<and> clifd_mutex t = Some Main \<and> main_holds (mainpc t)"
  then have "\<not> (i < length (workers s) \<and> worker_holds (workers s ! i))" for i using assms(1) unfolding lock_inv_def by (metis option.distinct(1))
  then show ?thesis using a assms(2) by (simp add: lock_inv_def)
next
  assume a: "main_holds (mainpc s) \<and> clifd_mutex t = None \<and> \<not> main_holds (mainpc t)"
  then have "\<not> (i < length (workers s) \<and> worker_holds (workers s ! i))" for i using holder_unique(2) [OF assms(1)] by blast
  then show ?thesis using a assms(2) by (simp add: lock_inv_def)
qed

lemma main_lock:
  assumes "lock_inv s" "main_step conn w s = Some t"
  shows "lock_inv t"
proof (cases "(\<exists>c. mainpc s = M_lock c) \<or> mainpc s = M_unlock")
  case True
  then show ?thesis using assms(2) by (intro lock_main [OF assms(1)]) (auto simp: main_step_def split: if_splits)
next
  case False
  then show ?thesis using assms(2)
    by (intro lock_keep [OF assms(1)]) (auto simp: main_step_def split: mpc.splits if_splits option.splits)
qed

lemma main_ring:
  assumes "lock_inv s" "ring_inv s" "main_step conn w s = Some t"
  shows "ring_inv t"
proof -
  have f: "main_holds (mainpc s) \<Longrightarrow> v \<in> set (workers s) \<Longrightarrow> v \<noteq> W_take \<and> v \<noteq> W_incr c" for v c
    using holder_unique(1) [OF assms(1)] by (metis worker_holds.simps(2,3))
  have wk: "v \<in> set ((workers s)[w := W_relock]) \<Longrightarrow> v = W_relock \<or> v \<in> set (workers s)" for v
    using set_update_subset_insert [of "workers s" w W_relock] by auto
  show ?thesis
  proof (cases "mainpc s")
    case M_accept
    then show ?thesis using assms(2,3) by (auto simp: main_step_def ring_inv_def split: option.splits wpc.splits)
  next
    case (M_lock c)
    then show ?thesis using assms(2,3) by (auto simp: main_step_def ring_inv_def split: if_splits wpc.splits)
  next
    case (M_put c)
    then show ?thesis using assms(2,3) f by (fastforce simp: main_step_def ring_inv_def split: wpc.splits)
  next
    case (M_incr c)
    then show ?thesis using assms(2,3) f bump_mod(2) by (fastforce simp: main_step_def ring_inv_def split: wpc.splits)
  next
    case M_check
    then show ?thesis using assms(2,3) by (auto simp: main_step_def ring_inv_def split: if_splits wpc.splits)
  next
    case M_signal
    then show ?thesis using assms(2,3) wk by (fastforce simp: main_step_def ring_inv_def split: if_splits wpc.splits)
  next
    case M_unlock
    then show ?thesis using assms(2,3) by (auto simp: main_step_def ring_inv_def split: wpc.splits)
  qed
qed

lemma fifo_keep:
  assumes "fifo_inv s" "arrived t = arrived s"
    "map snd (handed t) @ queue t @ pending t = map snd (handed s) @ queue s @ pending s"
  shows "fifo_inv t"
  using assms unfolding fifo_inv_def by metis

lemma main_fifo:
  assumes "ring_inv s" "fifo_inv s" "set_option conn \<inter> set (arrived s) = {}" "main_step conn w s = Some t"
  shows "fifo_inv t"
proof (cases "mainpc s")
  case (M_incr c)
  then have t: "t = s\<lparr>iput := bump (iput s), mainpc := M_check\<rparr>" using assms(4) by (simp add: main_step_def)
  have r: "iput s < MAXNCLI" "iget s < length (clifd s)" "length (clifd s) = MAXNCLI" "clifd s ! iput s = c"
    using assms(1) M_incr by (simp_all add: ring_inv_def)
  then have i: "iget s < MAXNCLI" by simp
  note q = qlen_bump [OF r(1) i M_incr]
  have "(clifd s)[(iget s + qlen s) mod length (clifd s) := c] = clifd s" using q(3) r(3,4) by (simp add: list_update_same_conv r(1))
  then have "queue t = queue s @ [c]"
    using ring_put [of "qlen s" "clifd s" "iget s" c] q(1,2) r(2,3) by (simp add: queue_def t)
  then show ?thesis using M_incr by (intro fifo_keep [OF assms(2)]) (simp_all add: t pending_def)
next
  case (M_put c)
  then have t: "t = s\<lparr>clifd := (clifd s)[iput s := c], mainpc := M_incr c\<rparr>" using assms(4) by (simp add: main_step_def)
  have r: "iput s < MAXNCLI" "iget s < MAXNCLI" "length (clifd s) = MAXNCLI" using assms(1) by (simp_all add: ring_inv_def)
  have ql: "qlen t = qlen s" "mainpc t = M_incr c" "iput t = iput s" "iget t = iget s" using M_put by (simp_all add: qlen_def t)
  have "qlen t < MAXNCLI" "(iget t + qlen t) mod MAXNCLI = iput t" using qlen_bump [of t c] r ql by simp_all
  then have "ring ((clifd s)[iput s := c]) (iget s) (Suc (qlen s)) = ring (clifd s) (iget s) (qlen s) @ [c]"
    using ring_put [of "qlen s" "clifd s" "iget s" c] r ql by simp
  moreover have "ring xs g (Suc n) = ring xs g n @ [xs ! ((g + n) mod length xs)]" for xs :: "nat list" and g n by (simp add: ring_def)
  ultimately have "queue t = queue s" by (simp add: queue_def ql) (simp add: t)
  then show ?thesis using M_put by (intro fifo_keep [OF assms(2)]) (simp_all add: t pending_def)
next
  case M_accept
  then show ?thesis using assms by (auto simp: main_step_def fifo_inv_def queue_def qlen_def pending_def split: option.splits)
next
  case M_check
  then show ?thesis using assms by (auto simp: main_step_def fifo_inv_def queue_def qlen_def pending_def split: if_splits)
qed (use assms in \<open>auto simp: main_step_def fifo_inv_def queue_def qlen_def pending_def split: if_splits\<close>)

lemma main_wake:
  assumes "lock_inv s" "wake_inv s" "main_step conn w s = Some t"
  shows "wake_inv t"
proof (cases "mainpc s")
  case M_signal
  show ?thesis
  proof (cases "waiting s w")
    case True
    then have "W_relock \<in> set ((workers s)[w := W_relock])" by (simp add: waiting_def set_update_memI)
    then show ?thesis using assms(3) True M_signal by (auto simp: main_step_def wake_inv_def)
  next
    case False
    then show ?thesis using assms(2,3) M_signal by (cases "workers s") (auto simp: main_step_def wake_inv_def split: if_splits)
  qed
qed (use assms in \<open>auto simp: main_step_def wake_inv_def split: if_splits option.splits\<close>)

lemma main_count: "count_inv s \<Longrightarrow> main_step conn w s = Some t \<Longrightarrow> count_inv t"
  by (auto simp: main_step_def count_inv_def taken_by_def waiting_def nth_list_update split: mpc.splits if_splits option.splits)

subsection \<open>Steps of the other threads\<close>

lemma lock_worker:
  assumes "lock_inv s" "i < length (workers s)" "workers t = (workers s)[i := v]" "mainpc t = mainpc s"
    "clifd_mutex s = None \<and> clifd_mutex t = Some (Worker i) \<and> worker_holds v \<or>
     worker_holds (workers s ! i) \<and> clifd_mutex t = None \<and> \<not> worker_holds v \<or>
     clifd_mutex t = clifd_mutex s \<and> worker_holds v = worker_holds (workers s ! i)"
  shows "lock_inv t"
  using assms(5)
proof (elim disjE)
  assume a: "clifd_mutex s = None \<and> clifd_mutex t = Some (Worker i) \<and> worker_holds v"
  then have "\<not> (j < length (workers s) \<and> worker_holds (workers s ! j))" "\<not> main_holds (mainpc s)" for j
    using assms(1) unfolding lock_inv_def by (metis option.distinct(1))+
  then show ?thesis using a assms(2-4) by (auto simp: lock_inv_def nth_list_update)
next
  assume a: "worker_holds (workers s ! i) \<and> clifd_mutex t = None \<and> \<not> worker_holds v"
  then have "\<not> main_holds (mainpc s)" "j < length (workers s) \<and> worker_holds (workers s ! j) \<Longrightarrow> j = i" for j
    using holder_unique(2,3) [OF assms(1,2)] by auto
  then show ?thesis using a assms(2-4) by (auto simp: lock_inv_def nth_list_update)
next
  assume "clifd_mutex t = clifd_mutex s \<and> worker_holds v = worker_holds (workers s ! i)"
  then show ?thesis using assms(2-4) by (intro lock_keep [OF assms(1)]) (auto simp: nth_list_update)
qed

lemma worker_lock:
  assumes "lock_inv s" "i < length (workers s)" "worker_step i lines s = Some t"
  shows "lock_inv t"
proof (cases "\<exists>v. workers t = (workers s)[i := v] \<and> (clifd_mutex s = None \<and> clifd_mutex t = Some (Worker i) \<and> worker_holds v \<or>
     worker_holds (workers s ! i) \<and> clifd_mutex t = None \<and> \<not> worker_holds v \<or>
     clifd_mutex t = clifd_mutex s \<and> worker_holds v = worker_holds (workers s ! i))")
  case True
  have "mainpc t = mainpc s" using assms(3) by (auto simp: worker_step_def split: wpc.splits if_splits sum.splits)
  with True show ?thesis using lock_worker [OF assms(1,2)] by blast
next
  case False
  then show ?thesis using assms(2,3)
    by (cases "workers s ! i") (auto simp: worker_step_def list_update_id split: if_splits sum.splits intro!: lock_keep [OF assms(1)])
qed

lemma set_workers: "v \<in> set ((workers s)[i := u]) \<Longrightarrow> v = u \<or> v \<in> set (workers s)"
  using set_update_subset_insert [of "workers s" i u] by auto

text \<open>While thread \<open>i\<close> holds the mutex, \<open>main\<close> is outside its critical section and no other thread is in its own.\<close>

lemma alone:
  assumes "lock_inv s" "i < length (workers s)" "worker_holds (workers s ! i)" "v \<in> set ((workers s)[i := u])" "worker_holds v"
  shows "v = u"
proof -
  obtain j where j: "j < length (workers s)" "v = (workers s)[i := u] ! j" using assms(4) by (auto simp: in_set_conv_nth)
  show ?thesis
  proof (cases "j = i")
    case False
    then have "worker_holds (workers s ! j)" using j assms(5) by simp
    then have "i = j" using holder_unique(3) [OF assms(1-3) j(1)] by simp
    with False show ?thesis by simp
  qed (use j in simp)
qed

lemma worker_ring:
  assumes "lock_inv s" "ring_inv s" "i < length (workers s)" "worker_step i lines s = Some t"
  shows "ring_inv t"
proof (cases "\<exists>c. workers s ! i = W_incr c")
  case True
  then obtain c where c: "workers s ! i = W_incr c" by blast
  then have t: "t = s\<lparr>iget := bump (iget s), workers := (workers s)[i := W_unlock c], handed := handed s @ [(i, c)]\<rparr>"
    using assms(4) by (simp add: worker_step_def)
  have h: "worker_holds (workers s ! i)" by (simp add: c)
  have "v = W_unlock c" if "v \<in> set ((workers s)[i := W_unlock c])" "worker_holds v" for v
    using alone [OF assms(1,3) h that] .
  then have o: "v \<noteq> W_take \<and> v \<noteq> W_incr d" if "v \<in> set ((workers s)[i := W_unlock c])" for v d
    using that by (metis worker_holds.simps(2,3) wpc.distinct)
  have "\<not> main_holds (mainpc s)" using holder_unique(2) [OF assms(1,3) h] .
  then have m: "mainpc s \<noteq> M_signal" "mainpc s \<noteq> M_incr d" for d by auto
  have w: "\<forall>v \<in> set (workers t). case v of W_take \<Rightarrow> iget t \<noteq> iput t | W_incr c \<Rightarrow> iget t \<noteq> iput t \<and> clifd t ! iget t = c | _ \<Rightarrow> True"
    using o by (auto simp: t split: wpc.splits)
  have "length (clifd t) = MAXNCLI \<and> iget t < MAXNCLI \<and> iput t < MAXNCLI \<and>
      (\<forall>c. mainpc t = M_incr c \<longrightarrow> clifd t ! iput t = c) \<and> (mainpc t = M_signal \<longrightarrow> iput t \<noteq> iget t)"
    using assms(2) m bump_mod(2) by (simp add: ring_inv_def t)
  then show ?thesis using w unfolding ring_inv_def by blast
next
  case False
  have e: "clifd t = clifd s" "iget t = iget s" "iput t = iput s" "mainpc t = mainpc s"
    using assms(4) False by (auto simp: worker_step_def split: wpc.splits if_splits sum.splits)
  have "case v of W_take \<Rightarrow> iget s \<noteq> iput s | W_incr c \<Rightarrow> iget s \<noteq> iput s \<and> clifd s ! iget s = c | _ \<Rightarrow> True"
    if "v \<in> set (workers t)" for v
  proof -
    have old: "case v of W_take \<Rightarrow> iget s \<noteq> iput s | W_incr c \<Rightarrow> iget s \<noteq> iput s \<and> clifd s ! iget s = c | _ \<Rightarrow> True"
      if "v \<in> set (workers s)" for v using assms(2) that by (simp add: ring_inv_def)
    have cur: "workers s ! i \<in> set (workers s)" using assms(3) by simp
    show ?thesis
      using that assms(4) False old [of v] old [OF cur]
      by (cases "workers s ! i") (auto simp: worker_step_def dest!: set_workers split: if_splits sum.splits)
  qed
  then show ?thesis using assms(2) unfolding ring_inv_def e by blast
qed

lemma worker_fifo:
  assumes "lock_inv s" "ring_inv s" "fifo_inv s" "i < length (workers s)" "worker_step i lines s = Some t"
  shows "fifo_inv t"
proof (cases "\<exists>c. workers s ! i = W_incr c")
  case True
  then obtain c where c: "workers s ! i = W_incr c" by blast
  then have t: "t = s\<lparr>iget := bump (iget s), workers := (workers s)[i := W_unlock c], handed := handed s @ [(i, c)]\<rparr>"
    using assms(5) by (simp add: worker_step_def)
  have m: "mainpc s \<noteq> M_check" using holder_unique(2) [OF assms(1,4)] c by auto
  have "W_incr c \<in> set (workers s)" using c assms(4) by (metis nth_mem)
  then have r: "iput s < MAXNCLI" "iget s < MAXNCLI" "length (clifd s) = MAXNCLI" "iput s \<noteq> iget s" "clifd s ! iget s = c"
    using assms(2) by (auto simp: ring_inv_def)
  have q: "qlen t = qlen s - 1" "0 < qlen s" using qlen_take [OF r(1,2) m r(4), of t] by (simp_all add: t)
  have "queue s = c # queue t"
    using ring_take [OF q(2), of "iget s" "clifd s"] r q(1) bump_mod(1) [OF r(2)] by (simp add: queue_def) (simp add: t)
  then show ?thesis by (intro fifo_keep [OF assms(3)]) (simp_all add: t pending_def)
next
  case False
  have e: "clifd t = clifd s" "iget t = iget s" "iput t = iput s" "mainpc t = mainpc s" "handed t = handed s" "arrived t = arrived s"
    using assms(5) False by (auto simp: worker_step_def split: wpc.splits if_splits sum.splits)
  then show ?thesis by (intro fifo_keep [OF assms(3)]) (simp_all add: queue_def qlen_def pending_def)
qed

lemma worker_wake:
  assumes "wake_inv s" "i < length (workers s)" "worker_step i lines s = Some t"
  shows "wake_inv t"
proof (cases "iput t = iget t")
  case False
  have "length (workers t) = length (workers s)" "workers t ! i \<noteq> W_wait"
    using assms(2,3) False by (cases "workers s ! i"; auto simp: worker_step_def split: if_splits sum.splits)+
  then have "\<exists>v \<in> set (workers t). v \<noteq> W_wait" using assms(2) by (intro bexI [of _ "workers t ! i"]) simp_all
  then show ?thesis unfolding wake_inv_def by blast
qed (simp add: wake_inv_def)

lemma worker_count:
  assumes "count_inv s" "i < length (workers s)" "worker_step i lines s = Some t"
  shows "count_inv t"
  using assms
  by (cases "workers s ! i")
    (auto simp: worker_step_def count_inv_def taken_by_def nth_list_update split: if_splits sum.splits)

subsection \<open>Every step\<close>

lemma spurious_inv:
  assumes "pool_inv s" "waiting s i"
  shows "pool_inv (spurious i s)"
proof -
  have i: "i < length (workers s)" "workers s ! i = W_wait" using assms(2) by (simp_all add: waiting_def)
  have I: "lock_inv s" "ring_inv s" "fifo_inv s" "count_inv s" using assms(1) unfolding pool_inv_def by blast+
  have e: "clifd (spurious i s) = clifd s" "iget (spurious i s) = iget s" "iput (spurious i s) = iput s" "mainpc (spurious i s) = mainpc s"
    "workers (spurious i s) = (workers s)[i := W_relock]" "arrived (spurious i s) = arrived s" "handed (spurious i s) = handed s"
    "clifd_mutex (spurious i s) = clifd_mutex s" "thread_count (spurious i s) = thread_count s"
    by (simp_all add: spurious_def)
  have L: "lock_inv (spurious i s)" using i by (intro lock_keep [OF I(1)]) (auto simp: e nth_list_update)
  have "case v of W_take \<Rightarrow> iget s \<noteq> iput s | W_incr c \<Rightarrow> iget s \<noteq> iput s \<and> clifd s ! iget s = c | _ \<Rightarrow> True"
    if "v \<in> set ((workers s)[i := W_relock])" for v
    using set_workers [OF that]
  proof
    assume "v \<in> set (workers s)"
    then show ?thesis using I(2) unfolding ring_inv_def by blast
  qed simp
  then have R: "ring_inv (spurious i s)" using I(2) unfolding ring_inv_def e by blast
  have F: "fifo_inv (spurious i s)" by (rule fifo_keep [OF I(3)]) (simp_all add: e queue_def qlen_def pending_def)
  have "W_relock \<in> set (workers (spurious i s))" using i(1) by (simp add: e set_update_memI)
  then have W: "wake_inv (spurious i s)" unfolding wake_inv_def by blast
  have C: "count_inv (spurious i s)" using I(4) i by (auto simp: count_inv_def taken_by_def e nth_list_update)
  show ?thesis using L R F W C by (simp only: pool_inv_def)
qed

lemma step_inv:
  assumes "pool_step s t" "pool_inv s"
  shows "pool_inv t"
  using assms
proof (cases rule: pool_step.cases)
  case (main conn w)
  have I: "lock_inv s" "ring_inv s" "fifo_inv s" "wake_inv s" "count_inv s" using assms(2) by (simp_all add: pool_inv_def)
  show ?thesis
    unfolding pool_inv_def using main_lock [OF I(1) main(3)] main_ring [OF I(1,2) main(3)] main_fifo [OF I(2,3) main(2,3)]
      main_wake [OF I(1,4) main(3)] main_count [OF I(5) main(3)] by simp
next
  case (worker i lines)
  have I: "lock_inv s" "ring_inv s" "fifo_inv s" "wake_inv s" "count_inv s" using assms(2) by (simp_all add: pool_inv_def)
  show ?thesis
    unfolding pool_inv_def using worker_lock [OF I(1) worker(2,3)] worker_ring [OF I(1,2) worker(2,3)]
      worker_fifo [OF I(1-3) worker(2,3)] worker_wake [OF I(4) worker(2,3)] worker_count [OF I(5) worker(2,3)] by simp
next
  case (wake i)
  then show ?thesis using spurious_inv assms(2) by simp
qed

lemma step_workers: "pool_step s t \<Longrightarrow> length (workers t) = length (workers s)"
  by (auto elim!: pool_step.cases simp: main_step_def worker_step_def spurious_def split: mpc.splits wpc.splits if_splits option.splits sum.splits)

lemma reach_inv: "pool_reach n s \<Longrightarrow> pool_inv s \<and> length (workers s) = n"
proof (induction rule: pool_reach.induct)
  case start
  then show ?case using pool_start_inv by (simp add: pool_start_def)
next
  case (step s t)
  then show ?case using step_inv step_workers by simp
qed

text \<open>When a connection waits and nothing has ended the process, some thread that works on the ring can go on.\<close>

lemma can_go_on:
  assumes inv: "pool_inv s" and q: "queue s \<noteq> []" and n: "workers s \<noteq> []"
  shows "(main_holds (mainpc s) \<and> (\<exists>w t. main_step None w s = Some t)) \<or> (\<exists>i < length (workers s). \<exists>t. worker_step i [] s = Some t)"
proof -
  have main: "\<exists>w t. main_step None w s = Some t" if "main_holds (mainpc s)"
  proof (cases "mainpc s = M_signal \<and> W_wait \<in> set (workers s)")
    case True
    then obtain w where "waiting s w" by (auto simp: waiting_def in_set_conv_nth)
    then show ?thesis using True by (auto simp: main_step_def)
  next
    case False
    then show ?thesis using that by (cases "mainpc s") (auto simp: main_step_def waiting_def)
  qed
  have worker: "\<exists>t. worker_step i [] s = Some t" if "workers s ! i \<noteq> W_wait" "clifd_mutex s = None \<or> worker_holds (workers s ! i)" for i
    using that by (cases "workers s ! i") (auto simp: worker_step_def)
  show ?thesis
  proof (cases "clifd_mutex s")
    case (Some h)
    show ?thesis
    proof (cases h)
      case Main
      then have "main_holds (mainpc s)" using inv Some by (simp add: pool_inv_def lock_inv_def)
      then show ?thesis using main by blast
    next
      case (Worker i)
      then have "i < length (workers s)" "worker_holds (workers s ! i)" using inv Some Worker unfolding pool_inv_def lock_inv_def by blast+
      then show ?thesis using worker [of i] by fastforce
    qed
  next
    case None
    then have "\<not> main_holds (mainpc s)" using inv by (simp add: pool_inv_def lock_inv_def)
    then have m: "mainpc s \<noteq> M_check" "mainpc s \<noteq> M_signal" by auto
    have "iput s \<noteq> iget s" using q m by (auto simp: queue_def qlen_def ring_def)
    then have "\<exists>v \<in> set (workers s). v \<noteq> W_wait" using inv m n unfolding pool_inv_def wake_inv_def by blast
    then obtain i where "i < length (workers s)" "workers s ! i \<noteq> W_wait" by (auto simp: in_set_conv_nth)
    then show ?thesis using worker [of i] None by blast
  qed
qed

subsection \<open>The claim\<close>

text \<open>
  C15. In every reachable state of the prethreaded server, however its threads interleave and whenever waiting threads
  wake: at most one thread is in a critical section, and it holds the mutex; the connections were handed to threads in
  the order in which they arrived, each to one thread and only once, and those not handed out yet are in the ring in
  this order, behind them at most the one \<open>main\<close> has in hand; the counters say how many connections each thread took;
  the test of \<open>main\<close> finds equal indices exactly when 32 connections wait; and no wake-up is lost: while a connection
  waits, some thread can go on.
\<close>

theorem pool_fifo:
  assumes "pool_reach n s"
  shows "(main_holds (mainpc s) \<longrightarrow> (\<forall>w \<in> set (workers s). \<not> worker_holds w)) \<and>
    (\<forall>i < n. \<forall>j < n. worker_holds (workers s ! i) \<and> worker_holds (workers s ! j) \<longrightarrow> i = j) \<and>
    distinct (arrived s) \<and> arrived s = map snd (handed s) @ queue s @ pending s \<and> length (pending s) \<le> 1 \<and>
    (\<forall>i < n. int (length (filter (\<lambda>(j, _). j = i) (handed s))) = thread_count s ! i +
       (case workers s ! i of W_unlock c \<Rightarrow> 1 | W_count c \<Rightarrow> 1 | _ \<Rightarrow> 0)) \<and>
    (mainpc s = M_check \<longrightarrow> (iput s = iget s \<longleftrightarrow> length (queue s) = 32)) \<and>
    (0 < n \<and> queue s \<noteq> [] \<longrightarrow> (main_holds (mainpc s) \<and> (\<exists>w t. main_step None w s = Some t)) \<or>
       (\<exists>i < n. \<exists>t. worker_step i [] s = Some t))"
proof -
  have inv: "pool_inv s" and n: "length (workers s) = n" using reach_inv [OF assms] by simp_all
  then have l: "lock_inv s" and r: "ring_inv s" by (simp_all add: pool_inv_def)
  have 1: "main_holds (mainpc s) \<longrightarrow> (\<forall>w \<in> set (workers s). \<not> worker_holds w)" using holder_unique(1) [OF l] by blast
  have 2: "\<forall>i < n. \<forall>j < n. worker_holds (workers s ! i) \<and> worker_holds (workers s ! j) \<longrightarrow> i = j"
    using holder_unique(3) [OF l] n by blast
  have 3: "distinct (arrived s)" "arrived s = map snd (handed s) @ queue s @ pending s"
    using inv unfolding pool_inv_def fifo_inv_def by blast+
  have 4: "length (pending s) \<le> 1" by (simp add: pending_def split: mpc.splits)
  have "count_inv s" using inv by (simp only: pool_inv_def)
  then have 5: "\<forall>i < n. int (length (filter (\<lambda>(j, _). j = i) (handed s))) = thread_count s ! i +
       (case workers s ! i of W_unlock c \<Rightarrow> 1 | W_count c \<Rightarrow> 1 | _ \<Rightarrow> 0)"
    by (simp add: count_inv_def n taken_by_def)
  have 6: "mainpc s = M_check \<longrightarrow> (iput s = iget s \<longleftrightarrow> length (queue s) = 32)"
    using r mod_less_divisor [of 32 "iput s + 32 - iget s"] by (auto simp: queue_def qlen_def MAXNCLI_def)
  have 7: "0 < n \<and> queue s \<noteq> [] \<longrightarrow> (main_holds (mainpc s) \<and> (\<exists>w t. main_step None w s = Some t)) \<or>
       (\<exists>i < n. \<exists>t. worker_step i [] s = Some t)"
    using can_go_on [OF inv] n by (metis length_greater_0_conv)
  show ?thesis using 1 2 3 4 5 6 7 by blast
qed

text \<open>One connection arrives and is put into the ring while the only thread waits.\<close>

lemma one_waits: "\<exists>s. pool_reach 1 s \<and> queue s = [7] \<and> workers s = [W_wait] \<and> mainpc s = M_check"
proof -
  define s0 where "s0 = pool_start 1"
  let ?w = "\<lambda>s. s\<lparr>workers := [W_wait]\<rparr>"
  let ?a = "\<lambda>s. s\<lparr>arrived := [7]\<rparr>"
  have 0: "pool_reach 1 s0" unfolding s0_def by (rule pool_reach.start)
  have e: "ended s0 = None" "workers s0 = [W_lock]" "clifd_mutex s0 = None" "iget s0 = 0" "iput s0 = 0" "mainpc s0 = M_accept" "arrived s0 = []"
      "clifd s0 = replicate MAXNCLI 0"
    by (simp_all add: s0_def pool_start_def)
  have "pool_reach 1 (s0\<lparr>clifd_mutex := Some (Worker 0), workers := [W_test]\<rparr>)"
    by (rule pool_reach.step [OF 0], rule pool_step.worker [of _ 0 "[]"]) (simp_all add: e worker_step_def)
  then have 1: "pool_reach 1 (?w s0)"
    by (rule pool_reach.step, intro pool_step.worker [of _ 0 "[]"]) (simp_all add: e worker_step_def)
  then have 2: "pool_reach 1 (?a (?w s0)\<lparr>mainpc := M_lock 7\<rparr>)"
    by (rule pool_reach.step, intro pool_step.main [of _ "Some 7" 0]) (simp_all add: e main_step_def)
  then have 3: "pool_reach 1 (?a (?w s0)\<lparr>mainpc := M_put 7, clifd_mutex := Some Main\<rparr>)"
    by (rule pool_reach.step, intro pool_step.main [of _ None 0]) (simp_all add: e main_step_def)
  then have 4: "pool_reach 1 (?a (?w s0)\<lparr>mainpc := M_incr 7, clifd_mutex := Some Main, clifd := (clifd s0)[0 := 7]\<rparr>)"
    by (rule pool_reach.step, intro pool_step.main [of _ None 0]) (simp_all add: e main_step_def)
  then have 5: "pool_reach 1 (?a (?w s0)\<lparr>mainpc := M_check, clifd_mutex := Some Main, clifd := (clifd s0)[0 := 7], iput := 1\<rparr>)"
    by (rule pool_reach.step, intro pool_step.main [of _ None 0]) (simp_all add: e main_step_def bump_def MAXNCLI_def)
  then show ?thesis
    by (intro exI conjI, assumption) (simp_all add: queue_def qlen_def ring_def e MAXNCLI_def)
qed

theorem pool_fifo_witness:
  "\<exists>s. pool_reach 1 s \<and> queue s = [7] \<and> distinct (arrived s) \<and> arrived s = map snd (handed s) @ [7] @ pending s"
proof -
  obtain s where s: "pool_reach 1 s" "queue s = [7]" using one_waits by blast
  from pool_fifo [OF s(1)] s show ?thesis by auto
qed

end
