(* ===== verification/Throughput.thy ===== *)
theory Throughput
  imports NP_Prelude
begin

text \<open>
  The throughput test of \<open>np-lab5/dist\<close>: \<open>server.cpp\<close> acknowledges a wake-up message and sends 50 times 1 MiB,
  \<open>client.cpp\<close> measures how long the bytes take. The connection is a stream: a \<open>recv\<close> gets some of the bytes that are
  there. The clock is a parameter: whether a \<open>recv\<close> took less than 5 ms is part of the script. The two quotients of
  floating-point numbers that the client prints at the end are left out, and so is the set-up of the sockets.
\<close>

subsection \<open>The server\<close>

definition MIB :: nat where "MIB = 1024 * 1024"

text \<open>What a call of \<open>send\<close> returns; \<open>None\<close> is an error. The acknowledgement goes out with its NUL.\<close>

definition ack :: string where "ack = ''let me sleep'' @ [CHR 0x00]"

fun send_loop :: "nat \<Rightarrow> nat option list \<Rightarrow> nat \<Rightarrow> nat" where
  "send_loop 0 rs sent_num = sent_num"
| "send_loop (Suc i) [] sent_num = sent_num"
| "send_loop (Suc i) (None # rs) sent_num = sent_num"
| "send_loop (Suc i) (Some num # rs) sent_num = send_loop i rs (sent_num + num)"

datatype served = Served nat nat | Server_ends

text \<open>
  One connection: what \<open>recv\<close> gets (at most 1024 bytes), whether the acknowledgement goes out, and what the calls of
  \<open>send\<close> return. The result is the number of acknowledgement bytes and of data bytes sent.
\<close>

definition serve_conn :: "string option \<Rightarrow> bool \<Rightarrow> nat option list \<Rightarrow> served outcome" where
  "serve_conn received ack_ok sends =
     (case received of
        None \<Rightarrow> Inr Server_ends
      | Some msg \<Rightarrow>
          if 1024 \<le> length msg then Inl (Undefined Buffer_overflow)
          else if takeWhile (\<lambda>c. c \<noteq> CHR 0x00) msg = ''Wake up''
          then (if ack_ok then Inr (Served (length ack) (send_loop 50 sends 0)) else Inr Server_ends)
          else Inr (Served 0 (send_loop 50 sends 0)))"

subsection \<open>The client\<close>

record meter =
  byte_all :: nat
  get_time :: nat
  get_byte :: nat

text \<open>
  The loop: the script says for each \<open>recv\<close> the number of bytes (\<open>None\<close>: an error) and whether it was fast. A \<open>recv\<close>
  that fills the buffer of 1 MiB makes the following store of a NUL overrun it. \<open>None\<close>: the script ends before the loop.
\<close>

fun meter_loop :: "(nat option \<times> bool) list \<Rightarrow> meter \<Rightarrow> meter outcome option" where
  "meter_loop [] m = (if byte_all m < 50 * MIB then None else Some (Inr m))"
| "meter_loop ((r, fast) # rs) m =
     (if byte_all m < 50 * MIB
      then (case r of
              None \<Rightarrow> meter_loop rs m
            | Some n \<Rightarrow>
                if MIB \<le> n then Some (Inl (Undefined Buffer_overflow))
                else meter_loop rs (m\<lparr>get_byte := get_byte m + (if fast then n + 66 else 0),
                       byte_all := byte_all m + n, get_time := get_time m + 1\<rparr>))
      else Some (Inr m))"

text \<open>The client after \<open>connect\<close>: whether the wake-up goes out, the first \<open>recv\<close> of at most 1024 bytes, the loop.\<close>

definition meter_client :: "bool \<Rightarrow> nat option \<Rightarrow> (nat option \<times> bool) list \<Rightarrow> (int + meter) outcome option" where
  "meter_client sent first rs =
     (if \<not> sent \<or> first = None then Some (Inr (Inl (-1)))
      else (case meter_loop rs \<lparr>byte_all = 0, get_time = 0, get_byte = 0\<rparr> of
              None \<Rightarrow> None
            | Some (Inl e) \<Rightarrow> Some (Inl e)
            | Some (Inr m) \<Rightarrow> Some (Inr (Inr m))))"

subsection \<open>When the client ends\<close>

definition script_bytes :: "(nat option \<times> bool) list \<Rightarrow> nat" where
  "script_bytes rs = sum_list (map (\<lambda>(r, _). case r of None \<Rightarrow> 0 | Some n \<Rightarrow> n) rs)"

lemma script_bytes_simps [simp]: "script_bytes [] = 0" "script_bytes ((None, f) # rs) = script_bytes rs"
  "script_bytes ((Some n, f) # rs) = n + script_bytes rs"
  by (simp_all add: script_bytes_def)

lemma send_loop_full: "send_loop n (replicate n (Some b)) t = t + n * b"
  by (induction n arbitrary: t) simp_all

lemma server_sends: "serve_conn (Some ''Wake up'') True (replicate 50 (Some MIB)) = Inr (Served 13 (50 * MIB))"
  using send_loop_full [of 50 MIB 0] by (simp add: serve_conn_def ack_def)

lemma meter_loop_never:
  "byte_all m + script_bytes rs < 50 * MIB \<Longrightarrow> \<forall>(r, f) \<in> set rs. \<forall>n. r = Some n \<longrightarrow> n < MIB \<Longrightarrow> meter_loop rs m = None"
proof (induction rs arbitrary: m)
  case (Cons x rs)
  obtain r f where x: "x = (r, f)" by (cases x)
  show ?case using Cons by (cases r) (auto simp: x)
qed simp

lemma meter_loop_ends:
  assumes "50 * MIB \<le> byte_all m + script_bytes rs" "\<forall>(r, f) \<in> set rs. \<forall>n. r = Some n \<longrightarrow> n < MIB"
  shows "\<exists>m'. meter_loop rs m = Some (Inr m') \<and> 50 * MIB \<le> byte_all m' \<and> byte_all m' \<le> byte_all m + script_bytes rs"
  using assms
proof (induction rs arbitrary: m)
  case (Cons x rs)
  obtain r f where x: "x = (r, f)" by (cases x)
  show ?case
  proof (cases "byte_all m < 50 * MIB")
    case True
    show ?thesis
    proof (cases r)
      case None
      then show ?thesis using Cons True by (auto simp: x)
    next
      case (Some n)
      have "n < MIB" using Cons.prems(2) x Some by auto
      then show ?thesis
        using Cons.IH [of "m\<lparr>get_byte := get_byte m + (if f then n + 66 else 0), byte_all := byte_all m + n, get_time := get_time m + 1\<rparr>"]
          Cons.prems True by (auto simp: x Some add.assoc)
    qed
  qed (use x in simp)
qed simp

text \<open>
  The server sends 13 bytes and then exactly 50 MiB. The client ends if its first \<open>recv\<close> takes no more than the
  acknowledgement; if it takes one byte of the data too, which a stream may do, the client reads zeros for ever.
\<close>

lemma client_ends:
  assumes "first \<le> 13" "first + script_bytes rs = 13 + 50 * MIB" "\<forall>(r, f) \<in> set rs. \<forall>n. r = Some n \<longrightarrow> n < MIB"
  shows "\<exists>m. meter_client True (Some first) rs = Some (Inr (Inr m)) \<and> 50 * MIB \<le> byte_all m"
proof -
  have "50 * MIB \<le> script_bytes rs" using assms(1,2) by linarith
  then show ?thesis
    using meter_loop_ends [of "\<lparr>byte_all = 0, get_time = 0, get_byte = 0\<rparr>" rs] assms(3) by (auto simp: meter_client_def)
qed

lemma client_never_ends:
  assumes "13 < first" "first + script_bytes rs \<le> 13 + 50 * MIB" "\<forall>(r, f) \<in> set rs. \<forall>n. r = Some n \<longrightarrow> n < MIB"
  shows "meter_client True (Some first) rs = None"
proof -
  have "script_bytes rs < 50 * MIB" using assms(1,2) by linarith
  then show ?thesis using meter_loop_never [of "\<lparr>byte_all = 0, get_time = 0, get_byte = 0\<rparr>" rs] assms(3) by (simp add: meter_client_def)
qed

end
