(* ===== verification/Otp_Client.thy ===== *)
theory Otp_Client
  imports Conn_Setup
begin

text \<open>
  The HTTP client of \<open>np-lab4/4.cpp\<close>: it asks for a one-time password on one connection and uploads what it found as a
  file on another. What the calls on the sockets answer are arguments; \<open>send\<close> sends all it is given. A C++ exception is an
  \<open>Abort\<close>.
\<close>

definition crlf :: string where "crlf = [CHR 0x0D, CHR 0x0A]"

definition quoted :: "string \<Rightarrow> string" where "quoted s = [CHR 0x22] @ s @ [CHR 0x22]"

definition getOTP :: string where
  "getOTP = ''GET /otp?name=110550158 HTTP/1.1'' @ crlf @ ''Host: 172.21.0.4:10001'' @ crlf @
     ''Connection: Keep-Alive'' @ crlf @ crlf"

subsection \<open>Fetching\<close>

text \<open>\<open>recv\<close> into the beginning of a buffer.\<close>

definition recv_into :: "string \<Rightarrow> string \<Rightarrow> string" where
  "recv_into bs buf = bs @ drop (length bs) buf"

text \<open>
  The loop after the first \<open>recv\<close>, over the blocks that follow until the server closes: each overwrites the beginning of the
  buffer, and a NUL is stored at \<open>bytesRead\<close>, the length of the \<^emph>\<open>first\<close> block (-1 if that failed). The buffer has 4096 bytes.
\<close>

fun otp_loop :: "int \<Rightarrow> string list \<Rightarrow> string \<Rightarrow> string list \<Rightarrow> (string \<times> string list) outcome" where
  "otp_loop bytesRead [] buf out = Inr (buf, out)"
| "otp_loop bytesRead (b # bs) buf out =
     (let buf = recv_into b buf in
      if bytesRead < 0 \<or> 4096 \<le> bytesRead then Inl (Undefined Buffer_overflow)
      else (let buf = buf[nat bytesRead := CHR 0x00]
            in otp_loop bytesRead bs buf (out @ [takeWhile (\<lambda>c. c \<noteq> CHR 0x00) buf])))"

text \<open>\<open>buff.substr(0, buff.find("charset"))\<close>: \<open>npos\<close> becomes -1 in an \<open>int\<close> and a very large count again.\<close>

fun find_text :: "string \<Rightarrow> string \<Rightarrow> nat option" where
  "find_text pat [] = (if pat = [] then Some 0 else None)"
| "find_text pat (c # cs) = (if take (length pat) (c # cs) = pat then Some 0 else map_option Suc (find_text pat cs))"

definition otp_of :: "string \<Rightarrow> string" where
  "otp_of buff = (case find_text ''charset'' buff of None \<Rightarrow> buff | Some i \<Rightarrow> take i buff)"

text \<open>
  The first half: the blocks received, \<open>None\<close> for a first \<open>recv\<close> that fails. The buffer is not initialised (\<open>garbage\<close>); without a
  NUL in it the string runs beyond it.
\<close>

definition fetch_otp :: "string \<Rightarrow> string option \<Rightarrow> string list \<Rightarrow> string outcome" where
  "fetch_otp garbage first rest =
     (let bytesRead = (case first of None \<Rightarrow> -1 | Some b \<Rightarrow> int (length b));
          buf = (case first of None \<Rightarrow> garbage | Some b \<Rightarrow> recv_into b garbage)
      in case otp_loop bytesRead rest buf [] of
           Inl e \<Rightarrow> Inl e
         | Inr (buf, out) \<Rightarrow>
             if CHR 0x00 \<notin> set buf then Inl (Undefined Buffer_overflow)
             else Inr (otp_of (takeWhile (\<lambda>c. c \<noteq> CHR 0x00) buf)))"

subsection \<open>Uploading\<close>

definition boundary :: string where "boundary = ''------------------------23jrofmwl4oqdfeb2''"

definition upload_body :: "string \<Rightarrow> string" where
  "upload_body otp =
     ''--'' @ boundary @ crlf @ ''Content-Disposition: form-data; name='' @ quoted ''file'' @ ''; filename='' @ quoted ''otp.txt'' @ crlf @ crlf @
     otp @ crlf @ ''--'' @ boundary @ ''--'' @ crlf"

definition upload_header :: "nat \<Rightarrow> string" where
  "upload_header n =
     ''POST /upload HTTP/1.1'' @ crlf @ ''Host: inp.zoolab.org:10314'' @ crlf @ ''Connection: Keep-Alive'' @ crlf @
     ''Content-Length: '' @ print_dec n @ crlf @ ''Content-Type: multipart/form-data; boundary='' @ boundary @ crlf @ crlf"

definition upload :: "string \<Rightarrow> string" where
  "upload otp = upload_header (length (upload_body otp)) @ upload_body otp"

text \<open>The last loop prints the answer; a block that fills the 1024 bytes of \<open>buf\<close> makes the store of the NUL overrun it.\<close>

definition print_answer :: "string list \<Rightarrow> string list outcome" where
  "print_answer bs = (if \<exists>b \<in> set bs. 1024 \<le> length b then Inl (Undefined Buffer_overflow)
     else Inr (map (takeWhile (\<lambda>c. c \<noteq> CHR 0x00)) bs))"

subsection \<open>Lemmas\<close>

lemma takeWhile_until: "(\<And>x. x \<in> set xs \<Longrightarrow> P x) \<Longrightarrow> \<not> P y \<Longrightarrow> takeWhile P (xs @ y # zs) = xs"
  by (induction xs) simp_all

text \<open>
  When the answer comes in two blocks, the text is that of the second, cut at the length of the first: a password in a longer
  second block is lost in part.
\<close>

lemma second_block_cut:
  assumes "length garbage = 4096" "length a < length b" "length b < 4096" "CHR 0x00 \<notin> set b"
  shows "fetch_otp garbage (Some a) [b] = Inr (otp_of (take (length a) b))"
proof -
  define buf where "buf = recv_into b (recv_into a garbage)"
  define r where "r = drop (Suc (length a)) buf"
  have l: "length a < length buf" "length buf = 4096" and t: "take (length a) buf = take (length a) b"
    using assms by (simp_all add: buf_def recv_into_def)
  have u: "buf[length a := CHR 0x00] = take (length a) b @ CHR 0x00 # r" using upd_conv_take_nth_drop [OF l(1)] t by (simp add: r_def)
  have "c \<noteq> CHR 0x00" if "c \<in> set (take (length a) b)" for c using assms(4) in_set_takeD [OF that] by blast
  then have w: "takeWhile (\<lambda>c. c \<noteq> CHR 0x00) (take (length a) b @ CHR 0x00 # r) = take (length a) b" by (rule takeWhile_until) simp_all
  have "otp_loop (int (length a)) [b] (recv_into a garbage) [] = Inr (take (length a) b @ CHR 0x00 # r, [take (length a) b])"
    using assms(2,3) by (simp add: Let_def buf_def [symmetric] u w)
  then show ?thesis by (simp add: fetch_otp_def w)
qed

end
