(* ===== verification/Bcast_Timer.thy ===== *)
theory Bcast_Timer
  imports Sock_Addr Echo_Service
begin

text \<open>
  The five clients of \<open>bcast/\<close> that send a line to a broadcast address and print the replies until a timer of five
  seconds ends the wait: \<open>dgclibcast1.c\<close>, \<open>dgclibcast3.c\<close>, \<open>dgclibcast4.c\<close> with the \<open>pselect\<close> of the kernel or with that of
  \<open>lib/pselect.c\<close>, \<open>dgclibcast5.c\<close> and \<open>dgclibcast6.c\<close>. They differ in how the signal of the timer ends the loop.

  The state has a program counter for the places between two calls, because the signal can come anywhere. Beside the steps of the
  program there are two of its surroundings: a datagram arrives, and the timer goes off. A program that is blocked has no step. The
  calls before the loop of the lines, \<open>alarm\<close>, \<open>Sigprocmask\<close>, \<open>printf\<close> and reading and writing the pipe do not fail.
\<close>

subsection \<open>State\<close>

type_synonym sender = "sockaddr \<times> int"
type_synonym message = "errno + sender \<times> byte list"

datatype version = Bcast1 | Bcast3 | Bcast4 | Bcast4_lib | Bcast5 | Bcast6

datatype bpc =
    B_fgets | B_send "byte list" | B_block | B_alarm | B_setjmp | B_unblock | B_recv | B_asleep | B_reblock message
  | B_print sender "byte list" | B_select | B_unmask | B_sel_call | B_sel_asleep | B_remask bool | B_test_sock | B_test_pipe
  | B_read_pipe | B_done

text \<open>
  The rest of the input, the messages at the socket (with pending errors), the timer, whether its signal is blocked and whether it is
  pending, the bytes in the pipe, whether \<open>jmpbuf\<close> is set, the two bits of \<open>rset\<close>, and what was sent and printed; \<open>bc_arrived\<close> is the
  history of the socket.
\<close>

record bcast =
  bc_input :: "byte list"
  bc_sock :: "message list"
  bc_armed :: bool
  bc_blocked :: bool
  bc_pending :: bool
  bc_pipe :: nat
  bc_jmp :: bool
  bc_rsock :: bool
  bc_rpipe :: bool
  bc_sent :: "byte list list"
  bc_out :: "byte list list"
  bc_pc :: bpc
  bc_ended :: "halt option"
  bc_arrived :: "message list"

definition bc_start :: "byte list \<Rightarrow> bcast" where
  "bc_start inp =
     \<lparr>bc_input = inp, bc_sock = [], bc_armed = False, bc_blocked = False, bc_pending = False, bc_pipe = 0, bc_jmp = False,
      bc_rsock = False, bc_rpipe = False, bc_sent = [], bc_out = [], bc_pc = B_fgets, bc_ended = None, bc_arrived = []\<rparr>"

subsection \<open>What the versions share\<close>

definition goto :: "bpc \<Rightarrow> bcast \<Rightarrow> bcast" where "goto p s = s\<lparr>bc_pc := p\<rparr>"

definition ends :: "halt \<Rightarrow> bcast \<Rightarrow> bcast" where "ends e s = s\<lparr>bc_ended := Some e\<rparr>"

text \<open>\<open>while (Fgets(...) != NULL)\<close>\<close>

definition next_line :: "bcast \<Rightarrow> bcast" where
  "next_line s =
     (case fgets MAXLINE (bc_input s) of
        None \<Rightarrow> goto B_done s
      | Some (line, rest) \<Rightarrow> goto (B_send line) (s\<lparr>bc_input := rest\<rparr>))"

text \<open>\<open>Sendto\<close>, which succeeds or not, and the place after it.\<close>

definition send_line :: "byte list \<Rightarrow> bpc \<Rightarrow> bool \<Rightarrow> bcast \<Rightarrow> bcast" where
  "send_line line next ok s =
     (if ok then goto next (s\<lparr>bc_sent := bc_sent s @ [c_string line]\<rparr>) else ends (Err_sys ''sendto error'') s)"

definition set_alarm :: "bpc \<Rightarrow> bcast \<Rightarrow> bcast" where "set_alarm next s = goto next (s\<lparr>bc_armed := True\<rparr>)"

text \<open>\<open>recvfrom\<close> into \<open>recvline\<close>: without a message it sleeps; \<open>got\<close> is what is done with the answer.\<close>

definition receive :: "(message \<Rightarrow> bcast \<Rightarrow> bcast) \<Rightarrow> bcast \<Rightarrow> bcast option" where
  "receive got s =
     (case bc_sock s of
        [] \<Rightarrow> if bc_pc s = B_asleep then None else Some (goto B_asleep s)
      | m # q \<Rightarrow> Some (got (case m of Inl e \<Rightarrow> Inl e | Inr (a, d) \<Rightarrow> Inr (a, take MAXLINE d)) (s\<lparr>bc_sock := q\<rparr>)))"

text \<open>The tests after \<open>recvfrom\<close>, and those in \<open>Recvfrom\<close>.\<close>

definition got_or_break :: "message \<Rightarrow> bcast \<Rightarrow> bcast" where
  "got_or_break m s =
     (case m of
        Inl e \<Rightarrow> if e = EINTR then goto B_fgets s else ends (Err_sys ''recvfrom error'') s
      | Inr (a, d) \<Rightarrow> goto (B_print a d) s)"

definition got_or_end :: "message \<Rightarrow> bcast \<Rightarrow> bcast" where
  "got_or_end m s = (case m of Inl e \<Rightarrow> ends (Err_sys ''recvfrom error'') s | Inr (a, d) \<Rightarrow> goto (B_print a d) s)"

text \<open>\<open>printf("from %s: %s", Sock_ntop_host(preply_addr, len), recvline)\<close>\<close>

definition reply_text :: "sender \<Rightarrow> byte list \<Rightarrow> byte list outcome" where
  "reply_text a d =
     (case Sock_ntop_host (fst a) (snd a) '''' of
        Inl e \<Rightarrow> Inl e
      | Inr (_, host) \<Rightarrow> Inr (bytes_of (''from '' @ host @ '': '') @ c_string d))"

definition print_reply :: "sender \<Rightarrow> byte list \<Rightarrow> bpc \<Rightarrow> bcast \<Rightarrow> bcast" where
  "print_reply a d next s =
     (case reply_text a d of Inl e \<Rightarrow> ends e s | Inr t \<Rightarrow> goto next (s\<lparr>bc_out := bc_out s @ [t]\<rparr>))"

subsection \<open>The signal handlers\<close>

text \<open>
  The handler of each version and what it does to a call that sleeps: \<open>recvfrom\<close>, \<open>select\<close> and \<open>pselect\<close> are interrupted
  (\<open>lib/signal.c\<close> asks for no restart after \<open>SIGALRM\<close>). That of \<open>dgclibcast5.c\<close> jumps to \<open>sigsetjmp\<close>, which then leaves the loop; \<open>k\<close> is the number of
  bytes that an interrupted \<open>printf\<close> has written.
\<close>

definition interrupted :: "version \<Rightarrow> bcast \<Rightarrow> bcast" where
  "interrupted v s =
     (case bc_pc s of
        B_asleep \<Rightarrow>
          (case v of
             Bcast1 \<Rightarrow> got_or_break (Inl EINTR) s
           | Bcast3 \<Rightarrow> goto (B_reblock (Inl EINTR)) s
           | _ \<Rightarrow> got_or_end (Inl EINTR) s)
      | B_sel_asleep \<Rightarrow>
          (case v of
             Bcast4 \<Rightarrow> goto B_fgets (s\<lparr>bc_blocked := True\<rparr>)
           | Bcast4_lib \<Rightarrow> goto (B_remask False) s
           | _ \<Rightarrow> goto B_select s)
      | _ \<Rightarrow> s)"

definition cut_print :: "nat \<Rightarrow> bcast \<Rightarrow> bcast" where
  "cut_print k s =
     (case bc_pc s of
        B_print a d \<Rightarrow> (case reply_text a d of Inl e \<Rightarrow> s | Inr t \<Rightarrow> s\<lparr>bc_out := bc_out s @ [take k t]\<rparr>)
      | _ \<Rightarrow> s)"

definition recvfrom_alarm :: "version \<Rightarrow> nat \<Rightarrow> bcast \<Rightarrow> bcast" where
  "recvfrom_alarm v k s =
     (case v of
        Bcast5 \<Rightarrow> if bc_jmp s then goto B_fgets (cut_print k s) else ends (Undefined Uninit_read) s
      | Bcast6 \<Rightarrow> interrupted v (s\<lparr>bc_pipe := bc_pipe s + 1\<rparr>)
      | _ \<Rightarrow> interrupted v s)"

definition fire :: "version \<Rightarrow> nat \<Rightarrow> bcast \<Rightarrow> bcast" where
  "fire v k s =
     (let s = s\<lparr>bc_armed := False\<rparr> in if bc_blocked s then s\<lparr>bc_pending := True\<rparr> else recvfrom_alarm v k s)"

text \<open>\<open>Sigprocmask(SIG_UNBLOCK, ...)\<close> delivers a pending signal before it returns.\<close>

definition unblock :: "version \<Rightarrow> bcast \<Rightarrow> bcast" where
  "unblock v s =
     (let t = s\<lparr>bc_blocked := False, bc_pending := False\<rparr> in if bc_pending s then recvfrom_alarm v 0 t else t)"

subsection \<open>The programs\<close>

text \<open>The next step at a place; \<open>b\<close> tells whether \<open>Sendto\<close> succeeds.\<close>

definition dg_cli_bcast1 :: "bool \<Rightarrow> bcast \<Rightarrow> bcast option" where
  "dg_cli_bcast1 b s =
     (case bc_pc s of
        B_fgets \<Rightarrow> Some (next_line s)
      | B_send line \<Rightarrow> Some (send_line line B_alarm b s)
      | B_alarm \<Rightarrow> Some (set_alarm B_recv s)
      | B_recv \<Rightarrow> receive got_or_break s
      | B_asleep \<Rightarrow> receive got_or_break s
      | B_print a d \<Rightarrow> Some (print_reply a d B_recv s)
      | _ \<Rightarrow> None)"

definition dg_cli_bcast3 :: "bool \<Rightarrow> bcast \<Rightarrow> bcast option" where
  "dg_cli_bcast3 b s =
     (case bc_pc s of
        B_fgets \<Rightarrow> Some (next_line s)
      | B_send line \<Rightarrow> Some (send_line line B_alarm b s)
      | B_alarm \<Rightarrow> Some (set_alarm B_unblock s)
      | B_unblock \<Rightarrow> Some (goto B_recv (unblock Bcast3 s))
      | B_recv \<Rightarrow> receive (\<lambda>m. goto (B_reblock m)) s
      | B_asleep \<Rightarrow> receive (\<lambda>m. goto (B_reblock m)) s
      | B_reblock m \<Rightarrow> Some (got_or_break m (s\<lparr>bc_blocked := True\<rparr>))
      | B_print a d \<Rightarrow> Some (print_reply a d B_unblock s)
      | _ \<Rightarrow> None)"

text \<open>
  The \<open>pselect\<close> of the kernel changes the mask and sleeps in one step. With a pending signal and a readable socket it may do
  either (\<open>b\<close>). One descriptor is watched, so that a positive answer is 1.
\<close>

definition kernel_pselect :: "bool \<Rightarrow> bcast \<Rightarrow> bcast option" where
  "kernel_pselect b s =
     (if bc_pending s \<and> (b \<or> bc_sock s = []) then Some (goto B_fgets (s\<lparr>bc_pending := False\<rparr>))
      else if bc_sock s \<noteq> [] then Some (goto B_recv (s\<lparr>bc_blocked := True\<rparr>))
      else if bc_pc s = B_sel_asleep then None
      else Some (goto B_sel_asleep (s\<lparr>bc_blocked := False\<rparr>)))"

definition dg_cli_bcast4 :: "bool \<Rightarrow> bcast \<Rightarrow> bcast option" where
  "dg_cli_bcast4 b s =
     (case bc_pc s of
        B_fgets \<Rightarrow> Some (next_line s)
      | B_send line \<Rightarrow> Some (send_line line B_block b s)
      | B_block \<Rightarrow> Some (goto B_alarm (s\<lparr>bc_blocked := True\<rparr>))
      | B_alarm \<Rightarrow> Some (set_alarm B_select s)
      | B_select \<Rightarrow> kernel_pselect b s
      | B_sel_asleep \<Rightarrow> kernel_pselect b s
      | B_recv \<Rightarrow> receive got_or_end s
      | B_asleep \<Rightarrow> receive got_or_end s
      | B_print a d \<Rightarrow> Some (print_reply a d B_select s)
      | _ \<Rightarrow> None)"

text \<open>The same with \<open>lib/pselect.c\<close>: \<open>sigprocmask\<close>, \<open>select\<close>, \<open>sigprocmask\<close>.\<close>

definition lib_select :: "bcast \<Rightarrow> bcast option" where
  "lib_select s =
     (if bc_sock s \<noteq> [] then Some (goto (B_remask True) s)
      else if bc_pc s = B_sel_asleep then None
      else Some (goto B_sel_asleep s))"

definition dg_cli_bcast4_lib :: "bool \<Rightarrow> bcast \<Rightarrow> bcast option" where
  "dg_cli_bcast4_lib b s =
     (case bc_pc s of
        B_fgets \<Rightarrow> Some (next_line s)
      | B_send line \<Rightarrow> Some (send_line line B_block b s)
      | B_block \<Rightarrow> Some (goto B_alarm (s\<lparr>bc_blocked := True\<rparr>))
      | B_alarm \<Rightarrow> Some (set_alarm B_unmask s)
      | B_unmask \<Rightarrow> Some (goto B_sel_call (unblock Bcast4_lib s))
      | B_sel_call \<Rightarrow> lib_select s
      | B_sel_asleep \<Rightarrow> lib_select s
      | B_remask ready \<Rightarrow> Some (goto (if ready then B_recv else B_fgets) (s\<lparr>bc_blocked := True\<rparr>))
      | B_recv \<Rightarrow> receive got_or_end s
      | B_asleep \<Rightarrow> receive got_or_end s
      | B_print a d \<Rightarrow> Some (print_reply a d B_unmask s)
      | _ \<Rightarrow> None)"

definition dg_cli_bcast5 :: "bool \<Rightarrow> bcast \<Rightarrow> bcast option" where
  "dg_cli_bcast5 b s =
     (case bc_pc s of
        B_fgets \<Rightarrow> Some (next_line s)
      | B_send line \<Rightarrow> Some (send_line line B_alarm b s)
      | B_alarm \<Rightarrow> Some (set_alarm B_setjmp s)
      | B_setjmp \<Rightarrow> Some (goto B_recv (s\<lparr>bc_jmp := True\<rparr>))
      | B_recv \<Rightarrow> receive got_or_end s
      | B_asleep \<Rightarrow> receive got_or_end s
      | B_print a d \<Rightarrow> Some (print_reply a d B_setjmp s)
      | _ \<Rightarrow> None)"

text \<open>\<open>select\<close> on the socket and the pipe.\<close>

definition pipe_select :: "bcast \<Rightarrow> bcast option" where
  "pipe_select s =
     (if bc_sock s \<noteq> [] \<or> bc_pipe s > 0
      then Some (goto B_test_sock (s\<lparr>bc_rsock := bc_sock s \<noteq> [], bc_rpipe := bc_pipe s > 0\<rparr>))
      else if bc_pc s = B_sel_asleep then None
      else Some (goto B_sel_asleep s))"

definition dg_cli_bcast6 :: "bool \<Rightarrow> bcast \<Rightarrow> bcast option" where
  "dg_cli_bcast6 b s =
     (case bc_pc s of
        B_fgets \<Rightarrow> Some (next_line s)
      | B_send line \<Rightarrow> Some (send_line line B_alarm b s)
      | B_alarm \<Rightarrow> Some (set_alarm B_select s)
      | B_select \<Rightarrow> pipe_select s
      | B_sel_asleep \<Rightarrow> pipe_select s
      | B_test_sock \<Rightarrow> Some (goto (if bc_rsock s then B_recv else B_test_pipe) s)
      | B_recv \<Rightarrow> receive got_or_end s
      | B_asleep \<Rightarrow> receive got_or_end s
      | B_print a d \<Rightarrow> Some (print_reply a d B_test_pipe s)
      | B_test_pipe \<Rightarrow> Some (goto (if bc_rpipe s then B_read_pipe else B_select) s)
      | B_read_pipe \<Rightarrow> if bc_pipe s = 0 then None else Some (goto B_fgets (s\<lparr>bc_pipe := bc_pipe s - 1\<rparr>))
      | _ \<Rightarrow> None)"

fun dg_cli_bcast :: "version \<Rightarrow> bool \<Rightarrow> bcast \<Rightarrow> bcast option" where
  "dg_cli_bcast Bcast1 = dg_cli_bcast1"
| "dg_cli_bcast Bcast3 = dg_cli_bcast3"
| "dg_cli_bcast Bcast4 = dg_cli_bcast4"
| "dg_cli_bcast Bcast4_lib = dg_cli_bcast4_lib"
| "dg_cli_bcast Bcast5 = dg_cli_bcast5"
| "dg_cli_bcast Bcast6 = dg_cli_bcast6"

text \<open>The steps of the program and of its surroundings. A pending error of a socket is not \<open>EINTR\<close>.\<close>

inductive bc_step :: "version \<Rightarrow> bcast \<Rightarrow> bcast \<Rightarrow> bool" for v where
  prog: "bc_ended s = None \<Longrightarrow> dg_cli_bcast v b s = Some t \<Longrightarrow> bc_step v s t"
| arrive: "bc_ended s = None \<Longrightarrow> m \<noteq> Inl EINTR \<Longrightarrow> bc_step v s (s\<lparr>bc_sock := bc_sock s @ [m], bc_arrived := bc_arrived s @ [m]\<rparr>)"
| timer: "bc_ended s = None \<Longrightarrow> bc_armed s \<Longrightarrow> bc_step v s (fire v k s)"

inductive bc_reach :: "version \<Rightarrow> bcast \<Rightarrow> bcast \<Rightarrow> bool" for v s where
  refl: "bc_reach v s s"
| step: "bc_reach v s t \<Longrightarrow> bc_step v t u \<Longrightarrow> bc_reach v s u"

text \<open>The program alone, over the choices.\<close>

fun run_steps :: "(bool \<Rightarrow> 's \<Rightarrow> 's option) \<Rightarrow> bool list \<Rightarrow> 's \<Rightarrow> 's option" where
  "run_steps nxt [] s = Some s"
| "run_steps nxt (b # bs) s = (case nxt b s of None \<Rightarrow> None | Some t \<Rightarrow> run_steps nxt bs t)"

text \<open>The places inside the loop that waits for replies.\<close>

fun in_loop :: "bpc \<Rightarrow> bool" where
  "in_loop B_fgets = False"
| "in_loop (B_send line) = False"
| "in_loop B_block = False"
| "in_loop B_alarm = False"
| "in_loop B_done = False"
| "in_loop _ = True"

subsection \<open>A wait that a signal ends\<close>

text \<open>
  What a loop needs to be left for certain once the timer has gone off: the program always has a step, which leaves the loop or
  makes a measure smaller.
\<close>

locale timer_loop =
  fixes nxt :: "bool \<Rightarrow> 's \<Rightarrow> 's option"
    and over :: "'s \<Rightarrow> bool"
    and left :: "'s \<Rightarrow> bool"
    and m :: "'s \<Rightarrow> nat"
  assumes progress: "over s \<Longrightarrow> \<not> left s \<Longrightarrow> \<exists>t. nxt b s = Some t \<and> (left t \<or> over t \<and> m t < m s)"
begin

lemma leaves: "over s \<Longrightarrow> m s < length bs \<Longrightarrow> \<exists>k t. k \<le> length bs \<and> run_steps nxt (take k bs) s = Some t \<and> left t"
proof (induction bs arbitrary: s)
  case (Cons b bs)
  show ?case
  proof (cases "left s")
    case True
    then show ?thesis by (intro exI [of _ 0] exI [of _ s]) simp
  next
    case False
    then obtain t where t: "nxt b s = Some t" "left t \<or> over t \<and> m t < m s" using progress Cons.prems(1) by blast
    show ?thesis
    proof (cases "left t")
      case True
      then show ?thesis using t(1) by (intro exI [of _ 1] exI [of _ t]) simp
    next
      case False
      then have "over t" "m t < length bs" using t(2) Cons.prems(2) by auto
      from Cons.IH [OF this] obtain k u where "k \<le> length bs" "run_steps nxt (take k bs) t = Some u" "left u" by blast
      then show ?thesis using t(1) by (intro exI [of _ "Suc k"] exI [of _ u]) simp
    qed
  qed
qed simp

end

subsection \<open>Invariants\<close>

text \<open>In \<open>dgclibcast4.c\<close> the signal is blocked but while \<open>pselect\<close> sleeps, so that in the loop the timer is running or its signal is kept.\<close>

definition inv4 :: "bcast \<Rightarrow> bool" where
  "inv4 s =
     (if in_loop (bc_pc s)
      then bc_armed s \<noteq> bc_pending s \<and> bc_blocked s = (bc_pc s \<noteq> B_sel_asleep) \<and> (bc_pc s = B_sel_asleep \<longrightarrow> bc_armed s) \<and>
        (bc_pc s = B_recv \<longrightarrow> bc_sock s \<noteq> []) \<and> (bc_pc s \<in> {B_select, B_sel_asleep, B_recv} \<or> (\<exists>a d. bc_pc s = B_print a d))
      else \<not> bc_armed s \<and> \<not> bc_pending s \<and> (bc_pc s = B_alarm \<longrightarrow> bc_blocked s))"

text \<open>In \<open>dgclibcast6.c\<close> the timer is running or its byte is in the pipe; what \<open>rset\<close> says is true.\<close>

definition inv6 :: "bcast \<Rightarrow> bool" where
  "inv6 s =
     (\<not> bc_blocked s \<and>
      (if in_loop (bc_pc s)
       then bc_pipe s = (if bc_armed s then 0 else 1) \<and> (bc_pc s = B_recv \<longrightarrow> bc_sock s \<noteq> []) \<and>
         (bc_pc s = B_test_sock \<and> bc_rsock s \<longrightarrow> bc_sock s \<noteq> []) \<and> (bc_pc s = B_read_pipe \<longrightarrow> \<not> bc_armed s) \<and>
         (bc_pc s \<notin> {B_select, B_sel_asleep} \<and> bc_rpipe s \<longrightarrow> \<not> bc_armed s) \<and>
         (bc_pc s \<in> {B_select, B_sel_asleep, B_test_sock, B_recv, B_test_pipe, B_read_pipe} \<or> (\<exists>a d. bc_pc s = B_print a d))
       else \<not> bc_armed s \<and> bc_pipe s = 0))"

definition inv5 :: "bcast \<Rightarrow> bool" where
  "inv5 s = (\<not> bc_blocked s \<and> bc_armed s = in_loop (bc_pc s))"

lemmas program_defs = goto_def ends_def next_line_def send_line_def set_alarm_def receive_def got_or_break_def got_or_end_def
  print_reply_def kernel_pselect_def lib_select_def pipe_select_def

lemmas handler_defs = fire_def recvfrom_alarm_def interrupted_def unblock_def Let_def

lemma inv4_prog:
  "inv4 s \<Longrightarrow> dg_cli_bcast4 b s = Some t \<Longrightarrow> bc_ended t = None \<Longrightarrow> inv4 t"
  by (auto simp: inv4_def dg_cli_bcast4_def program_defs split: bpc.splits if_splits option.splits sum.splits list.splits prod.splits)

lemma inv6_prog:
  "inv6 s \<Longrightarrow> dg_cli_bcast6 b s = Some t \<Longrightarrow> bc_ended t = None \<Longrightarrow> inv6 t"
  by (auto simp: inv6_def dg_cli_bcast6_def program_defs split: bpc.splits if_splits option.splits sum.splits list.splits prod.splits)

lemma inv5_prog:
  "inv5 s \<Longrightarrow> dg_cli_bcast5 b s = Some t \<Longrightarrow> bc_ended t = None \<Longrightarrow> inv5 t"
  by (auto simp: inv5_def dg_cli_bcast5_def program_defs split: bpc.splits if_splits option.splits sum.splits list.splits prod.splits)

lemma inv4_fire: "inv4 s \<Longrightarrow> bc_armed s \<Longrightarrow> inv4 (fire Bcast4 k s)"
  by (cases "bc_pc s") (simp_all add: inv4_def handler_defs goto_def)

lemma inv6_fire: "inv6 s \<Longrightarrow> bc_armed s \<Longrightarrow> inv6 (fire Bcast6 k s)"
  by (cases "bc_pc s") (simp_all add: inv6_def handler_defs goto_def)

lemma cut_print_same [simp]:
  "bc_blocked (cut_print k s) = bc_blocked s" "bc_armed (cut_print k s) = bc_armed s" "bc_ended (cut_print k s) = bc_ended s"
  by (auto simp: cut_print_def split: bpc.split sum.split)

lemma inv5_fire: "inv5 s \<Longrightarrow> bc_ended (fire Bcast5 k s) = None \<Longrightarrow> inv5 (fire Bcast5 k s)"
  by (auto simp: inv5_def handler_defs goto_def ends_def split: if_splits)

lemma inv_arrive:
  "inv4 s \<Longrightarrow> inv4 (s\<lparr>bc_sock := bc_sock s @ [x], bc_arrived := y\<rparr>)"
  "inv6 s \<Longrightarrow> inv6 (s\<lparr>bc_sock := bc_sock s @ [x], bc_arrived := y\<rparr>)"
  "inv5 s \<Longrightarrow> inv5 (s\<lparr>bc_sock := bc_sock s @ [x], bc_arrived := y\<rparr>)"
  by (auto simp: inv4_def inv6_def inv5_def)

lemma reach_invariant:
  assumes "bc_reach v s0 s" "bc_ended s = None" "P s0"
    and "\<And>s b t. P s \<Longrightarrow> dg_cli_bcast v b s = Some t \<Longrightarrow> bc_ended t = None \<Longrightarrow> P t"
    and "\<And>s m. P s \<Longrightarrow> m \<noteq> Inl EINTR \<Longrightarrow> P (s\<lparr>bc_sock := bc_sock s @ [m], bc_arrived := bc_arrived s @ [m]\<rparr>)"
    and "\<And>s k. P s \<Longrightarrow> bc_armed s \<Longrightarrow> bc_ended (fire v k s) = None \<Longrightarrow> P (fire v k s)"
  shows "P s"
  using assms(1,2,3)
proof induction
  case (step t u)
  then have "bc_ended t = None" by (auto elim: bc_step.cases)
  with step have "P t" by simp
  from step(2) show ?case
  proof cases
    case (prog b)
    then show ?thesis using assms(4) \<open>P t\<close> step.prems by blast
  next
    case (arrive m)
    then show ?thesis using assms(5) \<open>P t\<close> by blast
  next
    case (timer k)
    then show ?thesis using assms(6) \<open>P t\<close> step.prems by blast
  qed
qed simp

lemma reach_inv4: "bc_reach Bcast4 (bc_start inp) s \<Longrightarrow> bc_ended s = None \<Longrightarrow> inv4 s"
  by (erule reach_invariant) (simp_all add: inv4_prog inv4_fire inv_arrive, simp add: inv4_def bc_start_def)

lemma reach_inv6: "bc_reach Bcast6 (bc_start inp) s \<Longrightarrow> bc_ended s = None \<Longrightarrow> inv6 s"
  by (erule reach_invariant) (simp_all add: inv6_prog inv6_fire inv_arrive, simp add: inv6_def bc_start_def)

lemma reach_inv5: "bc_reach Bcast5 (bc_start inp) s \<Longrightarrow> bc_ended s = None \<Longrightarrow> inv5 s"
  by (erule reach_invariant) (simp_all add: inv5_prog inv5_fire inv_arrive, simp add: inv5_def bc_start_def)

subsection \<open>The timer ends the wait\<close>

text \<open>The loop was left, or the program has ended.\<close>

definition out_of_loop :: "bcast \<Rightarrow> bool" where
  "out_of_loop s = (\<not> in_loop (bc_pc s) \<or> bc_ended s \<noteq> None)"

text \<open>The steps that are left when the timer has gone off: three for each message at the socket, and at most two rounds of \<open>select\<close>.\<close>

fun left4 :: "bpc \<Rightarrow> nat \<Rightarrow> nat" where
  "left4 B_select n = 3 * n + 1"
| "left4 B_recv n = 3 * n"
| "left4 _ n = 3 * n + 2"

fun left6 :: "bpc \<Rightarrow> bool \<Rightarrow> nat" where
  "left6 B_test_sock r = (if r then 5 else 11)"
| "left6 B_recv r = (if r then 4 else 10)"
| "left6 (B_print a d) r = (if r then 3 else 9)"
| "left6 B_test_pipe r = (if r then 2 else 8)"
| "left6 B_read_pipe r = 1"
| "left6 _ r = 6"

lemma enabled4: "inv4 s \<Longrightarrow> \<not> bc_armed s \<Longrightarrow> \<not> out_of_loop s \<Longrightarrow> dg_cli_bcast4 b s \<noteq> None"
  by (auto simp: inv4_def out_of_loop_def dg_cli_bcast4_def program_defs split: list.splits if_splits)

lemma decreases4:
  "inv4 s \<Longrightarrow> \<not> bc_armed s \<Longrightarrow> \<not> out_of_loop s \<Longrightarrow> dg_cli_bcast4 b s = Some t \<Longrightarrow> \<not> out_of_loop t \<Longrightarrow>
    \<not> bc_armed t \<and> left4 (bc_pc t) (length (bc_sock t)) < left4 (bc_pc s) (length (bc_sock s))"
  by (auto simp: inv4_def out_of_loop_def dg_cli_bcast4_def program_defs split: option.splits sum.splits list.splits prod.splits if_splits)

interpretation timer4: timer_loop dg_cli_bcast4 "\<lambda>s. inv4 s \<and> \<not> bc_armed s" out_of_loop "\<lambda>s. left4 (bc_pc s) (length (bc_sock s))"
proof
  fix s b
  assume s: "inv4 s \<and> \<not> bc_armed s" "\<not> out_of_loop s"
  then obtain t where t: "dg_cli_bcast4 b s = Some t" using enabled4 by blast
  have "\<not> out_of_loop t \<Longrightarrow> inv4 t" using inv4_prog [OF _ t] s(1) by (simp add: out_of_loop_def)
  then show "\<exists>t. dg_cli_bcast4 b s = Some t \<and> (out_of_loop t \<or> (inv4 t \<and> \<not> bc_armed t) \<and> left4 (bc_pc t) (length (bc_sock t)) < left4 (bc_pc s) (length (bc_sock s)))"
    using t decreases4 [OF _ _ s(2) t] s(1) by blast
qed

lemma enabled6: "inv6 s \<Longrightarrow> \<not> bc_armed s \<Longrightarrow> \<not> out_of_loop s \<Longrightarrow> dg_cli_bcast6 b s \<noteq> None"
  by (auto simp: inv6_def out_of_loop_def dg_cli_bcast6_def program_defs split: list.splits if_splits)

lemma decreases6:
  "inv6 s \<Longrightarrow> \<not> bc_armed s \<Longrightarrow> \<not> out_of_loop s \<Longrightarrow> dg_cli_bcast6 b s = Some t \<Longrightarrow> \<not> out_of_loop t \<Longrightarrow>
    \<not> bc_armed t \<and> left6 (bc_pc t) (bc_rpipe t) < left6 (bc_pc s) (bc_rpipe s)"
  by (auto simp: inv6_def out_of_loop_def dg_cli_bcast6_def program_defs split: option.splits sum.splits list.splits prod.splits if_splits)

interpretation timer6: timer_loop dg_cli_bcast6 "\<lambda>s. inv6 s \<and> \<not> bc_armed s" out_of_loop "\<lambda>s. left6 (bc_pc s) (bc_rpipe s)"
proof
  fix s b
  assume s: "inv6 s \<and> \<not> bc_armed s" "\<not> out_of_loop s"
  then obtain t where t: "dg_cli_bcast6 b s = Some t" using enabled6 by blast
  have "\<not> out_of_loop t \<Longrightarrow> inv6 t" using inv6_prog [OF _ t] s(1) by (simp add: out_of_loop_def)
  then show "\<exists>t. dg_cli_bcast6 b s = Some t \<and> (out_of_loop t \<or> (inv6 t \<and> \<not> bc_armed t) \<and> left6 (bc_pc t) (bc_rpipe t) < left6 (bc_pc s) (bc_rpipe s))"
    using t decreases6 [OF _ _ s(2) t] s(1) by blast
qed

subsection \<open>The lost signal\<close>

text \<open>In the loop with no timer and no signal to come: only a message wakes the program, and not for long.\<close>

definition lost :: "bcast \<Rightarrow> bool" where
  "lost s = (in_loop (bc_pc s) \<and> \<not> bc_armed s \<and> \<not> bc_pending s \<and> Inl EINTR \<notin> set (bc_sock s) \<and>
     bc_pc s \<noteq> B_reblock (Inl EINTR) \<and> bc_pc s \<noteq> B_remask False)"

lemma lost1: "lost s \<Longrightarrow> dg_cli_bcast1 b s = Some t \<Longrightarrow> bc_ended t = None \<Longrightarrow> lost t"
  by (auto simp: lost_def dg_cli_bcast1_def program_defs split: bpc.splits if_splits option.splits sum.splits list.splits prod.splits)

lemma lost3: "lost s \<Longrightarrow> dg_cli_bcast3 b s = Some t \<Longrightarrow> bc_ended t = None \<Longrightarrow> lost t"
  by (auto simp: lost_def dg_cli_bcast3_def program_defs unblock_def split: bpc.splits if_splits option.splits sum.splits list.splits prod.splits)

lemma lost4: "lost s \<Longrightarrow> dg_cli_bcast4_lib b s = Some t \<Longrightarrow> bc_ended t = None \<Longrightarrow> lost t"
  by (auto simp: lost_def dg_cli_bcast4_lib_def program_defs unblock_def split: bpc.splits if_splits option.splits sum.splits list.splits prod.splits)

lemma lost_forever:
  assumes "bc_reach v s t" "bc_ended t = None" "lost s" "v \<in> {Bcast1, Bcast3, Bcast4_lib}"
  shows "lost t"
  using assms(1,2,3)
proof (rule reach_invariant)
  show "lost u" if "lost s" "dg_cli_bcast v b s = Some u" "bc_ended u = None" for s b u
    using that assms(4) by (auto intro: lost1 lost3 lost4)
qed (auto simp: lost_def)

text \<open>For every input with a line the three versions can lose the signal: it comes between two calls.\<close>

lemma reach_prog: "bc_reach v s t \<Longrightarrow> bc_ended t = None \<Longrightarrow> dg_cli_bcast v b t = Some u \<Longrightarrow> bc_reach v s u"
  by (blast intro: bc_reach.step bc_step.prog)

lemma reach_timer: "bc_reach v s t \<Longrightarrow> bc_ended t = None \<Longrightarrow> bc_armed t \<Longrightarrow> bc_reach v s (fire v k t)"
  by (blast intro: bc_reach.step bc_step.timer)

lemma reach_alarm:
  assumes "fgets MAXLINE inp = Some (line, rest)" "v = Bcast1 \<or> v = Bcast3 \<or> v = Bcast5"
  shows "bc_reach v (bc_start inp) (goto B_alarm ((bc_start inp)\<lparr>bc_input := rest, bc_sent := [c_string line]\<rparr>))"
proof -
  have "dg_cli_bcast v True (bc_start inp) = Some (goto (B_send line) ((bc_start inp)\<lparr>bc_input := rest\<rparr>))"
    using assms by (auto simp: dg_cli_bcast1_def dg_cli_bcast3_def dg_cli_bcast5_def next_line_def bc_start_def)
  from reach_prog [OF bc_reach.refl _ this] have
    "bc_reach v (bc_start inp) (goto (B_send line) ((bc_start inp)\<lparr>bc_input := rest\<rparr>))" by (simp add: bc_start_def)
  then show ?thesis
    by (rule reach_prog [where b = True])
      (use assms(2) in \<open>auto simp: dg_cli_bcast1_def dg_cli_bcast3_def dg_cli_bcast5_def send_line_def goto_def bc_start_def\<close>)
qed

lemma can_lose1:
  assumes "fgets MAXLINE inp = Some (line, rest)" "v = Bcast1 \<or> v = Bcast3"
  shows "\<exists>s. bc_reach v (bc_start inp) s \<and> bc_ended s = None \<and> lost s"
proof -
  let ?a = "goto B_alarm ((bc_start inp)\<lparr>bc_input := rest, bc_sent := [c_string line]\<rparr>)"
  let ?s = "set_alarm (if v = Bcast1 then B_recv else B_unblock) ?a"
  have "bc_reach v (bc_start inp) ?s"
    by (rule reach_prog [OF reach_alarm [OF assms(1)], where b = True])
      (use assms(2) in \<open>auto simp: dg_cli_bcast1_def dg_cli_bcast3_def goto_def bc_start_def\<close>)
  then have "bc_reach v (bc_start inp) (fire v 0 ?s)"
    by (rule reach_timer) (simp_all add: set_alarm_def goto_def bc_start_def)
  moreover have "lost (fire v 0 ?s) \<and> bc_ended (fire v 0 ?s) = None"
    using assms(2) by (auto simp: lost_def handler_defs set_alarm_def goto_def bc_start_def)
  ultimately show ?thesis by blast
qed

lemma can_lose4:
  assumes "fgets MAXLINE inp = Some (line, rest)"
  shows "\<exists>s. bc_reach Bcast4_lib (bc_start inp) s \<and> bc_ended s = None \<and> lost s"
proof -
  let ?s0 = "(bc_start inp)\<lparr>bc_input := rest\<rparr>"
  let ?s1 = "?s0\<lparr>bc_sent := [c_string line], bc_blocked := True\<rparr>"
  have "bc_reach Bcast4_lib (bc_start inp) (goto (B_send line) ?s0)"
    by (rule reach_prog [OF bc_reach.refl, where b = True])
      (simp_all add: dg_cli_bcast4_lib_def next_line_def bc_start_def assms)
  then have "bc_reach Bcast4_lib (bc_start inp) (goto B_block (?s0\<lparr>bc_sent := [c_string line]\<rparr>))"
    by (rule reach_prog [where b = True]) (simp_all add: dg_cli_bcast4_lib_def send_line_def goto_def bc_start_def)
  then have "bc_reach Bcast4_lib (bc_start inp) (goto B_alarm ?s1)"
    by (rule reach_prog [where b = True]) (simp_all add: dg_cli_bcast4_lib_def goto_def bc_start_def)
  then have "bc_reach Bcast4_lib (bc_start inp) (set_alarm B_unmask ?s1)"
    by (rule reach_prog [where b = True]) (simp_all add: dg_cli_bcast4_lib_def set_alarm_def goto_def bc_start_def)
  then have "bc_reach Bcast4_lib (bc_start inp) (fire Bcast4_lib 0 (set_alarm B_unmask ?s1))"
    by (rule reach_timer) (simp_all add: set_alarm_def goto_def bc_start_def)
  then have "bc_reach Bcast4_lib (bc_start inp) (goto B_sel_call (unblock Bcast4_lib (fire Bcast4_lib 0 (set_alarm B_unmask ?s1))))"
    by (rule reach_prog [where b = True]) (simp_all add: dg_cli_bcast4_lib_def fire_def set_alarm_def goto_def bc_start_def)
  moreover have "lost (goto B_sel_call (unblock Bcast4_lib (fire Bcast4_lib 0 (set_alarm B_unmask ?s1))))"
    "bc_ended (goto B_sel_call (unblock Bcast4_lib (fire Bcast4_lib 0 (set_alarm B_unmask ?s1)))) = None"
    by (simp_all add: lost_def handler_defs set_alarm_def goto_def bc_start_def)
  ultimately show ?thesis by blast
qed

lemma can_lose:
  assumes "inp \<noteq> []" "v \<in> {Bcast1, Bcast3, Bcast4_lib}"
  shows "\<exists>s. bc_reach v (bc_start inp) s \<and> bc_ended s = None \<and> lost s"
proof -
  obtain line rest where "fgets MAXLINE inp = Some (line, rest)" using assms(1) by (simp add: fgets_def Let_def)
  then show ?thesis using can_lose1 can_lose4 assms(2) by blast
qed

text \<open>\<open>dgclibcast5.c\<close>: the signal can come before the first \<open>sigsetjmp\<close>, and it can cut a line of the output.\<close>

lemma jump_unset:
  assumes "inp \<noteq> []"
  shows "\<exists>s. bc_reach Bcast5 (bc_start inp) s \<and> bc_ended s = Some (Undefined Uninit_read)"
proof -
  obtain line rest where f: "fgets MAXLINE inp = Some (line, rest)" using assms by (simp add: fgets_def Let_def)
  let ?s = "set_alarm B_setjmp (goto B_alarm ((bc_start inp)\<lparr>bc_input := rest, bc_sent := [c_string line]\<rparr>))"
  have "bc_reach Bcast5 (bc_start inp) ?s"
    by (rule reach_prog [OF reach_alarm [OF f], where b = True]) (simp_all add: dg_cli_bcast5_def goto_def bc_start_def)
  then have "bc_reach Bcast5 (bc_start inp) (fire Bcast5 0 ?s)"
    by (rule reach_timer) (simp_all add: set_alarm_def goto_def bc_start_def)
  moreover have "bc_ended (fire Bcast5 0 ?s) = Some (Undefined Uninit_read)"
    by (simp add: handler_defs ends_def set_alarm_def goto_def bc_start_def)
  ultimately show ?thesis by blast
qed

lemma output_cut:
  "bc_jmp s \<Longrightarrow> \<not> bc_blocked s \<Longrightarrow> bc_pc s = B_print a d \<Longrightarrow> reply_text a d = Inr t \<Longrightarrow>
    bc_out (fire Bcast5 k s) = bc_out s @ [take k t] \<and> bc_pc (fire Bcast5 k s) = B_fgets"
  by (simp add: fire_def recvfrom_alarm_def cut_print_def goto_def)

subsection \<open>No reply is lost\<close>

definition replies :: "message list \<Rightarrow> (sender \<times> byte list) list" where
  "replies ms = concat (map (case_sum (\<lambda>e. []) (\<lambda>(a, d). [(a, take MAXLINE d)])) ms)"

lemma replies_simps [simp]:
  "replies [] = []" "replies (Inl e # ms) = replies ms" "replies (Inr (a, d) # ms) = (a, take MAXLINE d) # replies ms"
  "replies (ms @ ms') = replies ms @ replies ms'"
  by (simp_all add: replies_def)

fun in_hand :: "bpc \<Rightarrow> (sender \<times> byte list) list" where
  "in_hand (B_print a d) = [(a, d)]"
| "in_hand (B_reblock (Inr (a, d))) = [(a, d)]"
| "in_hand _ = []"

text \<open>What arrived has been printed, is about to be printed, or waits at the socket, in this order.\<close>

definition conserved :: "bcast \<Rightarrow> bool" where
  "conserved s = (map (\<lambda>(a, d). reply_text a d) (replies (bc_arrived s)) =
     map Inr (bc_out s) @ map (\<lambda>(a, d). reply_text a d) (in_hand (bc_pc s) @ replies (bc_sock s)))"

lemma unblock_same [simp]:
  "v \<noteq> Bcast5 \<Longrightarrow> bc_arrived (unblock v s) = bc_arrived s" "v \<noteq> Bcast5 \<Longrightarrow> bc_out (unblock v s) = bc_out s"
  "v \<noteq> Bcast5 \<Longrightarrow> bc_sock (unblock v s) = bc_sock s"
  by (simp_all add: handler_defs goto_def got_or_break_def got_or_end_def ends_def split: version.split bpc.split)

lemma conserved_fire: "conserved s \<Longrightarrow> v \<noteq> Bcast5 \<Longrightarrow> conserved (fire v k s)"
  by (cases "bc_pc s"; cases v) (simp_all add: conserved_def handler_defs goto_def got_or_break_def got_or_end_def ends_def)

lemma conserved1: "conserved s \<Longrightarrow> dg_cli_bcast1 b s = Some t \<Longrightarrow> bc_ended t = None \<Longrightarrow> conserved t"
  by (auto simp: conserved_def dg_cli_bcast1_def program_defs split: bpc.splits if_splits option.splits sum.splits list.splits prod.splits)

lemma conserved3: "conserved s \<Longrightarrow> dg_cli_bcast3 b s = Some t \<Longrightarrow> bc_ended t = None \<Longrightarrow> conserved t"
  by (auto simp: conserved_def dg_cli_bcast3_def program_defs split: bpc.splits if_splits option.splits sum.splits list.splits prod.splits)

lemma conserved4: "conserved s \<Longrightarrow> dg_cli_bcast4 b s = Some t \<Longrightarrow> bc_ended t = None \<Longrightarrow> conserved t"
  by (auto simp: conserved_def dg_cli_bcast4_def program_defs split: bpc.splits if_splits option.splits sum.splits list.splits prod.splits)

lemma conserved4_lib: "conserved s \<Longrightarrow> dg_cli_bcast4_lib b s = Some t \<Longrightarrow> bc_ended t = None \<Longrightarrow> conserved t"
  by (auto simp: conserved_def dg_cli_bcast4_lib_def program_defs split: bpc.splits if_splits option.splits sum.splits list.splits prod.splits)

lemma conserved6: "conserved s \<Longrightarrow> dg_cli_bcast6 b s = Some t \<Longrightarrow> bc_ended t = None \<Longrightarrow> conserved t"
  by (auto simp: conserved_def dg_cli_bcast6_def program_defs split: bpc.splits if_splits option.splits sum.splits list.splits prod.splits)

lemma reach_conserved:
  assumes "bc_reach v (bc_start inp) s" "bc_ended s = None" "v \<noteq> Bcast5"
  shows "conserved s"
  using assms(1,2)
proof (rule reach_invariant)
  show "conserved (bc_start inp)" by (simp add: conserved_def bc_start_def)
  show "conserved u" if "conserved t" "dg_cli_bcast v b t = Some u" "bc_ended u = None" for t b u
    using that assms(3) by (cases v) (auto intro: conserved1 conserved3 conserved4 conserved4_lib conserved6)
  show "conserved (t\<lparr>bc_sock := bc_sock t @ [m], bc_arrived := bc_arrived t @ [m]\<rparr>)" if "conserved t" for t m
    using that by (cases m) (auto simp: conserved_def)
qed (simp add: conserved_fire assms(3))

subsection \<open>Properties\<close>

text \<open>
  C21. Racing a signal with a system call. With the atomic \<open>pselect\<close>, with \<open>siglongjmp\<close> and with the pipe (versions 4, 5 and 6), from every reachable
  state in which the timer is not running, wherever the signal came, the program by itself is out of the loop within 3 steps for each message at the socket
  and 12 more: it is never left asleep. In versions 1 and 3, and in version 4 with \<open>lib/pselect.c\<close>, for every input with a line a state is reachable from
  which the loop is never left again, whatever arrives: the signal was lost between two calls. Apart from version 5, all versions print every reply that
  arrived once and in order.
\<close>

theorem broadcast_timer:
  assumes "bc_reach v (bc_start inp) s" and "bc_ended s = None"
  shows "(v \<in> {Bcast4, Bcast5, Bcast6} \<longrightarrow> \<not> bc_armed s \<longrightarrow> (\<forall>bs. 3 * length (bc_sock s) + 12 \<le> length bs \<longrightarrow>
      (\<exists>k t. k \<le> length bs \<and> run_steps (dg_cli_bcast v) (take k bs) s = Some t \<and> out_of_loop t))) \<and>
    (v \<in> {Bcast1, Bcast3, Bcast4_lib} \<longrightarrow> inp \<noteq> [] \<longrightarrow>
      (\<exists>s'. bc_reach v (bc_start inp) s' \<and> bc_ended s' = None \<and> (\<forall>t. bc_reach v s' t \<and> bc_ended t = None \<longrightarrow> in_loop (bc_pc t)))) \<and>
    (v \<noteq> Bcast5 \<longrightarrow> map (\<lambda>(a, d). reply_text a d) (replies (bc_arrived s)) =
      map Inr (bc_out s) @ map (\<lambda>(a, d). reply_text a d) (in_hand (bc_pc s) @ replies (bc_sock s)))"
proof (intro conjI impI allI)
  fix bs :: "bool list"
  assume v: "v \<in> {Bcast4, Bcast5, Bcast6}" and a: "\<not> bc_armed s" and l: "3 * length (bc_sock s) + 12 \<le> length bs"
  have b4: "left4 (bc_pc s) (length (bc_sock s)) < length bs" and b6: "left6 (bc_pc s) (bc_rpipe s) < length bs"
    using l by (cases "bc_pc s"; simp)+
  consider (pselect) "v = Bcast4" | (jump) "v = Bcast5" | (pipe) "v = Bcast6" using v by blast
  then show "\<exists>k t. k \<le> length bs \<and> run_steps (dg_cli_bcast v) (take k bs) s = Some t \<and> out_of_loop t"
  proof cases
    case pselect
    then show ?thesis using timer4.leaves [OF _ b4] reach_inv4 assms a by simp
  next
    case jump
    then have "\<not> in_loop (bc_pc s)" using reach_inv5 assms a by (auto simp: inv5_def)
    then show ?thesis by (intro exI [of _ 0] exI [of _ s]) (simp add: out_of_loop_def)
  next
    case pipe
    then show ?thesis using timer6.leaves [OF _ b6] reach_inv6 assms a by simp
  qed
next
  assume v: "v \<in> {Bcast1, Bcast3, Bcast4_lib}" and "inp \<noteq> []"
  then obtain s' where s: "bc_reach v (bc_start inp) s'" "bc_ended s' = None" "lost s'" using can_lose by blast
  have "in_loop (bc_pc t)" if "bc_reach v s' t" "bc_ended t = None" for t
    using lost_forever [OF that s(3) v] by (simp add: lost_def)
  with s show "\<exists>s'. bc_reach v (bc_start inp) s' \<and> bc_ended s' = None \<and> (\<forall>t. bc_reach v s' t \<and> bc_ended t = None \<longrightarrow> in_loop (bc_pc t))"
    by blast
next
  assume "v \<noteq> Bcast5"
  then show "map (\<lambda>(a, d). reply_text a d) (replies (bc_arrived s)) =
      map Inr (bc_out s) @ map (\<lambda>(a, d). reply_text a d) (in_hand (bc_pc s) @ replies (bc_sock s))"
    using reach_conserved [OF assms] by (simp add: conserved_def)
qed

text \<open>Version 6 with the empty line, when the timer has gone off before the first \<open>select\<close>.\<close>

definition wit_bcast :: bcast where
  "wit_bcast = (bc_start [])\<lparr>bc_sent := [[10]], bc_pipe := 1, bc_pc := B_select\<rparr>"

lemma wit_bcast_reach: "bc_reach Bcast6 (bc_start [10]) wit_bcast"
proof -
  have f: "fgets MAXLINE [10] = Some ([10], [])" by (simp add: fgets_def MAXLINE_def Let_def numeral_eq_Suc)
  have "bc_reach Bcast6 (bc_start [10]) (goto (B_send [10]) (bc_start []))"
    by (rule reach_prog [OF bc_reach.refl, where b = True]) (simp_all add: dg_cli_bcast6_def next_line_def goto_def bc_start_def f)
  then have "bc_reach Bcast6 (bc_start [10]) (goto B_alarm ((bc_start [])\<lparr>bc_sent := [[10]]\<rparr>))"
    by (rule reach_prog [where b = True]) (simp_all add: dg_cli_bcast6_def send_line_def c_string_def goto_def bc_start_def)
  then have "bc_reach Bcast6 (bc_start [10]) (set_alarm B_select ((bc_start [])\<lparr>bc_sent := [[10]]\<rparr>))"
    by (rule reach_prog [where b = True]) (simp_all add: dg_cli_bcast6_def set_alarm_def goto_def bc_start_def)
  then have "bc_reach Bcast6 (bc_start [10]) (fire Bcast6 0 (set_alarm B_select ((bc_start [])\<lparr>bc_sent := [[10]]\<rparr>)))"
    by (rule reach_timer) (simp_all add: set_alarm_def goto_def bc_start_def)
  then show ?thesis by (simp add: wit_bcast_def handler_defs set_alarm_def goto_def bc_start_def)
qed

theorem broadcast_timer_witness:
  "\<exists>k t. k \<le> 12 \<and> run_steps (dg_cli_bcast Bcast6) (take k (replicate 12 True)) wit_bcast = Some t \<and> out_of_loop t"
proof -
  have w: "bc_ended wit_bcast = None" "\<not> bc_armed wit_bcast" "bc_sock wit_bcast = []" by (simp_all add: wit_bcast_def bc_start_def)
  have "\<forall>bs. 3 * length (bc_sock wit_bcast) + 12 \<le> length bs \<longrightarrow>
      (\<exists>k t. k \<le> length bs \<and> run_steps (dg_cli_bcast Bcast6) (take k bs) wit_bcast = Some t \<and> out_of_loop t)"
    using broadcast_timer [OF wit_bcast_reach w(1)] w(2) by blast
  from spec [OF this, of "replicate 12 True"] show ?thesis using w(3) by (simp del: take_replicate)
qed

end
