(* ===== verification/Fd_Passing.thy ===== *)
theory Fd_Passing
  imports Icmp_Daemon Traceroute Echo_Service
begin

text \<open>
  The sending side of descriptor passing, \<open>lib/write_fd.c\<close>, and its two users: \<open>unixdomain/mycat.c\<close> with \<open>myopen.c\<close>, which opens
  a file in a child process that runs \<open>openfile.c\<close> and takes the descriptor from it, and the registration of a client with the
  ICMP daemon (\<open>icmpd/dgcli01.c\<close>). The receiving side is \<open>read_fd\<close> of \<open>Icmp_Daemon\<close>.

  A descriptor that is passed gets a new number in the receiver, which the kernel chooses.
\<close>

subsection \<open>Sending a descriptor\<close>

text \<open>The message handed to \<open>sendmsg\<close>: the number of data bytes and the control message.\<close>

definition write_fd_msg :: "nat \<Rightarrow> int \<Rightarrow> nat \<times> int \<times> int \<times> int" where
  "write_fd_msg nbytes sendfd = (nbytes, SOL_SOCKET, SCM_RIGHTS, sendfd)"

definition Write_fd :: "bool \<Rightarrow> nat \<Rightarrow> int \<Rightarrow> (nat \<times> int \<times> int \<times> int) outcome" where
  "Write_fd sendmsg_ok nbytes sendfd = (if sendmsg_ok then Inr (write_fd_msg nbytes sendfd) else Inl (Err_sys ''write_fd error''))"

text \<open>What \<open>recvmsg\<close> gets of it at the other end of the stream pipe.\<close>

definition delivered :: "int \<Rightarrow> nat \<times> int \<times> int \<times> int \<Rightarrow> fd_message" where
  "delivered newfd msg = (case msg of (n, level, ty, fd) \<Rightarrow> Received n (Some (level, ty, newfd)))"

lemma read_write_fd: "0 < n \<Longrightarrow> Read_fd (delivered newfd (write_fd_msg n fd)) old = Inr (int n, newfd)"
  by (simp add: Read_fd_def read_fd_def delivered_def write_fd_msg_def)

subsection \<open>openfile and my\_open\<close>

text \<open>
  \<open>openfile\<close>: what \<open>open\<close> of the file and mode answers (an \<open>errno\<close> or a descriptor) and the \<open>errno\<close> of a failing \<open>sendmsg\<close>. The
  result is the argument of \<open>exit\<close>, or the exit of \<open>err_quit\<close>, and the message sent on the descriptor it was told.
\<close>

definition openfile :: "(string \<Rightarrow> int \<Rightarrow> int + int) \<Rightarrow> int option \<Rightarrow> string list \<Rightarrow> (int \<times> (int \<times> nat \<times> int \<times> int \<times> int) option) outcome" where
  "openfile open_file send_errno argv =
     (if length argv \<noteq> 4 then Inl (Err_quit ''openfile <sockfd#> <filename> <mode>'')
      else case open_file (argv ! 2) (atoi_int (argv ! 3)) of
        Inl errno \<Rightarrow> Inr (if errno > 0 then errno else 255, None)
      | Inr fd \<Rightarrow>
          (case send_errno of
             Some errno \<Rightarrow> Inr (if errno > 0 then errno else 255, None)
           | None \<Rightarrow> Inr (0, Some (atoi_int (argv ! 1), write_fd_msg 1 fd))))"

text \<open>
  How the child ended. The child's end of the socket pair is \<open>sock1\<close>; \<open>newfd\<close> is the number the passed descriptor gets in the parent. The exit status
  has 8 bits; \<open>err_quit\<close> and a failing \<open>execl\<close> exit with 1. When the child ended well and nothing was sent to the pair, \<open>fd\<close> was
  never set. The result is the descriptor and what was stored into \<open>errno\<close>.
\<close>

datatype child_end = Killed | Exec_failed | Ran

definition child_status :: "int \<Rightarrow> int" where "child_status code = code mod 256"

definition my_open :: "child_end \<Rightarrow> (string \<Rightarrow> int \<Rightarrow> int + int) \<Rightarrow> int option \<Rightarrow> int \<Rightarrow> int \<Rightarrow> string \<Rightarrow> int \<Rightarrow> (int \<times> int) outcome" where
  "my_open child open_file send_errno sock1 newfd pathname mode =
     (let argv = [''openfile'', snprintf_buf 10 (print_int sock1), pathname, snprintf_buf 10 (print_int mode)];
          (code, msg) = (if child = Exec_failed then (1, None)
                         else case openfile open_file send_errno argv of Inl _ \<Rightarrow> (1, None) | Inr r \<Rightarrow> r);
          status = child_status code
      in if child = Killed then Inl (Err_quit ''child did not terminate'')
         else if status \<noteq> 0 then Inr (-1, status)
         else (case msg of
                 Some (sock, m) \<Rightarrow>
                   if sock = sock1 then (case Read_fd (delivered newfd m) (-1) of Inl e \<Rightarrow> Inl e | Inr (n, fd) \<Rightarrow> Inr (fd, 0))
                   else Inl (Undefined Uninit_read)
               | None \<Rightarrow> Inl (Undefined Uninit_read)))"

text \<open>\<open>mycat\<close>: the answers of \<open>read\<close> on a descriptor (\<open>None\<close> is an error), an empty block at the end of the file; what is written.\<close>

fun copy_blocks :: "byte list option list \<Rightarrow> byte list \<Rightarrow> byte list outcome" where
  "copy_blocks [] out = Inr out"
| "copy_blocks (None # rs) out = Inl (Err_sys ''read error'')"
| "copy_blocks (Some b # rs) out = (if b = [] then Inr out else copy_blocks rs (out @ b))"

definition mycat ::
  "child_end \<Rightarrow> (string \<Rightarrow> int \<Rightarrow> int + int) \<Rightarrow> int option \<Rightarrow> int \<Rightarrow> int \<Rightarrow> (int \<Rightarrow> byte list option list) \<Rightarrow> string list \<Rightarrow> byte list outcome" where
  "mycat child open_file send_errno sock1 newfd contents argv =
     (if length argv \<noteq> 2 then Inl (Err_quit ''usage: mycat <pathname>'')
      else case my_open child open_file send_errno sock1 newfd (argv ! 1) 0 of
        Inl e \<Rightarrow> Inl e
      | Inr (fd, err) \<Rightarrow> if fd < 0 then Inl (Err_sys (''cannot open '' @ argv ! 1)) else copy_blocks (contents fd) [])"

subsection \<open>A client of the ICMP daemon\<close>

text \<open>
  \<open>dg_cli\<close> of \<open>icmpd/dgcli01.c\<close> up to its loop: what \<open>bind\<close> and \<open>getsockname\<close> answer for the datagram socket, whether \<open>Socket\<close>, \<open>Connect\<close>
  and \<open>sendmsg\<close> succeed, and the bytes of the daemon's answer (\<open>None\<close> is an error of \<open>read\<close>). The result is the message that was sent.
\<close>

definition dgcli_register ::
  "(sockaddr \<Rightarrow> bool) \<Rightarrow> (sockaddr \<Rightarrow> 16 word option) \<Rightarrow> int \<Rightarrow> bool \<Rightarrow> bool \<Rightarrow> bool \<Rightarrow> byte list option \<Rightarrow> int \<Rightarrow>
    (nat \<times> int \<times> int \<times> int) outcome" where
  "dgcli_register bind getsockname family made conn_ok sent answer sockfd =
     (case Sock_bind_wild bind getsockname family of
        Inl e \<Rightarrow> Inl e
      | Inr port \<Rightarrow>
          if \<not> made then Inl (Err_sys ''socket error'')
          else if \<not> conn_ok then Inl (Err_sys ''connect error'')
          else (case Write_fd sent 1 sockfd of
                  Inl e \<Rightarrow> Inl e
                | Inr m \<Rightarrow>
                    (case answer of
                       None \<Rightarrow> Inl (Err_sys ''read error'')
                     | Some recvline \<Rightarrow>
                         if length recvline \<noteq> 1 \<or> recvline ! 0 \<noteq> 49 then Inl (Err_quit ''error creating icmp socket'') else Inr m)))"

text \<open>The byte the daemon writes for the answer to a registration.\<close>

definition answer_byte :: "bool \<Rightarrow> byte list" where "answer_byte ok = (if ok then [49] else [48])"

text \<open>What the calls answer after a line was sent, and what is shown.\<close>

datatype dgselect = Sel_failed | Sel_timeout | Sel_ready bool bool
datatype icmp_read = Icmp_failed | Icmp_eof | Icmp_part nat | Icmp_whole icmpd_err
datatype shown = Reply_line "byte list" | Timeout_line | Icmp_line string

record dground =
  dr_send :: bool
  dr_select :: dgselect
  dr_recv :: "byte list option"
  dr_icmp :: icmp_read

text \<open>\<open>%d\<close> of a signed \<open>char\<close>.\<close>

definition icmp_line :: "(int \<Rightarrow> string) \<Rightarrow> icmpd_err \<Rightarrow> shown outcome" where
  "icmp_line strerror m =
     (case Sock_ntop (icmpd_dest m) (int (icmpd_len m)) [] of
        Inl e \<Rightarrow> Inl e
      | Inr (_, dest) \<Rightarrow>
          Inr (Icmp_line (''ICMP error: dest = '' @ dest @ '', '' @ strerror (icmpd_errno m) @ '', type = '' @
            print_int (sint (icmpd_type m)) @ '', code = '' @ print_int (sint (icmpd_code m)))))"

definition dgcli_answers :: "(int \<Rightarrow> string) \<Rightarrow> dground \<Rightarrow> shown list outcome" where
  "dgcli_answers strerror r =
     (case dr_select r of
        Sel_failed \<Rightarrow> Inl (Err_sys ''select error'')
      | Sel_timeout \<Rightarrow> Inr [Timeout_line]
      | Sel_ready sock icmp \<Rightarrow>
          (case (if sock then (case dr_recv r of None \<Rightarrow> Inl (Err_sys ''recvfrom error'')
                               | Some d \<Rightarrow> Inr [Reply_line (c_string (take MAXLINE d))]) else Inr []) of
             Inl e \<Rightarrow> Inl e
           | Inr out \<Rightarrow>
               if \<not> icmp then Inr out
               else (case dr_icmp r of
                       Icmp_failed \<Rightarrow> Inl (Err_sys ''read error'')
                     | Icmp_eof \<Rightarrow> Inl (Err_quit ''ICMP daemon terminated'')
                     | Icmp_part n \<Rightarrow> Inl (Err_quit (''n = '' @ print_dec n))
                     | Icmp_whole m \<Rightarrow> (case icmp_line strerror m of Inl e \<Rightarrow> Inl e | Inr l \<Rightarrow> Inr (out @ [l])))))"

text \<open>The loop over the lines of the input; \<open>None\<close>: there is no answer for the line.\<close>

fun dgcli_loop ::
  "(int \<Rightarrow> string) \<Rightarrow> byte list \<Rightarrow> dground list \<Rightarrow> byte list list \<Rightarrow> shown list \<Rightarrow> (byte list list \<times> shown list) outcome option" where
  "dgcli_loop strerror inp [] sent out = (if fgets MAXLINE inp = None then Some (Inr (sent, out)) else None)"
| "dgcli_loop strerror inp (r # rs) sent out =
     (case fgets MAXLINE inp of
        None \<Rightarrow> Some (Inr (sent, out))
      | Some (sendline, rest) \<Rightarrow>
          if \<not> dr_send r then Some (Inl (Err_sys ''sendto error''))
          else (case dgcli_answers strerror r of
                  Inl e \<Rightarrow> Some (Inl e)
                | Inr shows_now \<Rightarrow> dgcli_loop strerror rest rs (sent @ [c_string sendline]) (out @ shows_now)))"

subsection \<open>Lemmas\<close>

lemma atoi_print:
  assumes "0 \<le> i" "i < 2 ^ 31"
  shows "atoi_int (print_int i) = i"
proof -
  have p: "print_int i = print_dec (nat i)" using assms(1) by (simp add: print_int_def)
  have "scan_long (print_dec (nat i) @ []) = Some (int (nat i), [])" using scan_long_print [of "[]" "nat i"] by simp
  moreover have "sint (word_of_int i :: 32 word) = i" using assms by (simp add: sint_word_ariths signed_take_bit_int_eq_self sint_sbintrunc')
  ultimately show ?thesis using assms by (simp add: atoi_int_def p)
qed

lemma print_int_short:
  assumes "0 \<le> i" "i < 10 ^ 9"
  shows "snprintf_buf 10 (print_int i) = print_int i"
proof -
  have "nat i < 10 ^ 9" using assms by simp
  then have "length (print_dec (nat i)) \<le> 9"
    using length_digits_of [of 10 "nat i" 9] by (simp add: print_dec_def print_base_digits)
  then show ?thesis using assms(1) by (intro snprintf_buf_fits) (simp add: print_int_def)
qed

text \<open>\<open>my_open\<close> opens the file as \<open>open\<close> would in the process itself, errors included.\<close>

theorem my_open_opens:
  assumes "0 \<le> sock1" "sock1 < 10 ^ 9" "0 \<le> mode" "mode < 10 ^ 9"
    and "\<And>err. open_file pathname mode = Inl err \<Longrightarrow> 0 < err \<and> err < 256"
  shows "my_open Ran open_file None sock1 newfd pathname mode =
    Inr (case open_file pathname mode of Inr fd \<Rightarrow> (newfd, 0) | Inl err \<Rightarrow> (-1, err))"
proof -
  have a: "atoi_int (snprintf_buf 10 (print_int i)) = i" if "0 \<le> i" "i < 10 ^ 9" for i
    using print_int_short [OF that] atoi_print [of i] that by simp
  show ?thesis
  proof (cases "open_file pathname mode")
    case (Inl err)
    then show ?thesis using assms(5) a [OF assms(3,4)]
      by (simp add: my_open_def openfile_def Let_def child_status_def)
  next
    case (Inr fd)
    then show ?thesis using a [OF assms(3,4)] a [OF assms(1,2)] read_write_fd [of 1]
      by (simp add: my_open_def openfile_def Let_def child_status_def)
  qed
qed

lemma copy_blocks_ok: "[] \<notin> set bs \<Longrightarrow> copy_blocks (map Some bs @ Some [] # rs) out = Inr (out @ concat bs)"
  by (induction bs arbitrary: out) auto

theorem mycat_prints:
  assumes "0 \<le> sock1" "sock1 < 10 ^ 9" "0 \<le> newfd" "open_file path 0 = Inr fd" "[] \<notin> set bs" "contents newfd = map Some bs @ [Some []]"
  shows "mycat Ran open_file None sock1 newfd contents [''mycat'', path] = Inr (concat bs)"
  using my_open_opens [of sock1 0 open_file path newfd] copy_blocks_ok [OF assms(5), of "[]" "[]"] assms by (simp add: mycat_def)

text \<open>A child that could not be started looks like the error 1, \<open>EPERM\<close>, of \<open>open\<close>.\<close>

lemma exec_failed_is_EPERM: "my_open Exec_failed open_file send_errno sock1 newfd pathname mode = Inr (-1, 1)"
  by (simp add: my_open_def child_status_def)

lemma dgcli_goes_on:
  "Sock_bind_wild bind getsockname family = Inr port \<Longrightarrow>
    dgcli_register bind getsockname family True True True (Some (answer_byte ok)) sockfd = Inr (write_fd_msg 1 sockfd) \<longleftrightarrow> ok"
  by (cases ok) (simp_all add: dgcli_register_def Write_fd_def answer_byte_def)

text \<open>Both ends of a registration: the client goes on exactly when the daemon has entered its socket.\<close>

theorem registration_agrees:
  assumes st: "readable_conn k s i = Inr t" and l: "i < length (id_client s)"
    and m: "ik_message k (ic_connfd (id_client s ! i)) = delivered newfd (write_fd_msg 1 sockfd)" and fd: "0 \<le> newfd"
    and b: "Sock_bind_wild bind getsockname family = Inr port"
  shows "\<exists>ok. id_out t = id_out s @ [(ic_connfd (id_client s ! i), Registered ok)] \<and>
    (dgcli_register bind getsockname family True True True (Some (answer_byte ok)) sockfd = Inr (write_fd_msg 1 sockfd) \<longleftrightarrow> ok) \<and>
    (ok \<longrightarrow> (\<exists>ss. ik_getsockname k newfd = Some ss \<and> ic_family (id_client t ! i) = sa_family ss \<and>
      (sock_get_port ss \<noteq> 0 \<longrightarrow> ic_lport (id_client t ! i) = sock_get_port ss)))"
proof -
  have rd: "Read_fd (ik_message k (ic_connfd (id_client s ! i))) (-1) = Inr (1, newfd)" using read_write_fd [of 1] m by simp
  have err: "id_out t = id_out u @ [(fd, Registered False)]" if "client_err k i fd recvfd u = Inr t" for fd recvfd u
    using that by (auto simp: client_err_def client_done_def Write_to_def less_ready_def Let_def split: if_splits)
  have "\<exists>ok. id_out t = id_out s @ [(ic_connfd (id_client s ! i), Registered ok)] \<and>
    (ok \<longrightarrow> (\<exists>ss. ik_getsockname k newfd = Some ss \<and> ic_family (id_client t ! i) = sa_family ss \<and>
      (sock_get_port ss \<noteq> 0 \<longrightarrow> ic_lport (id_client t ! i) = sock_get_port ss)))"
  proof (cases "ik_getsockname k newfd")
    case None
    then have "client_err k i (ic_connfd (id_client s ! i)) newfd s = Inr t" using st rd fd by (simp add: readable_conn_def Let_def)
    from err [OF this] show ?thesis by blast
  next
    case (Some ss)
    define p where "p = (if sock_get_port ss = 0 then sock_bind_wild (ik_bind k newfd) (ik_bound k newfd) (sa_family ss) else sock_get_port ss)"
    let ?u = "s\<lparr>id_client := (id_client s)[i := (id_client s ! i)\<lparr>ic_family := sa_family ss, ic_lport := p\<rparr>]\<rparr>"
    have e: "readable_conn k s i = (if sock_get_port ss = 0 \<and> p \<le> 0 then client_err k i (ic_connfd (id_client s ! i)) newfd ?u
        else case Write_to k (ic_connfd (id_client s ! i)) (Registered True) ?u of Inl e \<Rightarrow> Inl e
             | Inr s \<Rightarrow> if ik_close k newfd then Inr (less_ready s) else Inl (Err_sys ''close error''))"
      using rd fd Some by (simp add: readable_conn_def Let_def p_def)
    show ?thesis
    proof (cases "sock_get_port ss = 0 \<and> p \<le> 0")
      case True
      with st e err [of "ic_connfd (id_client s ! i)" newfd ?u] show ?thesis by (intro exI [of _ False]) simp
    next
      case False
      have "(case Write_to k (ic_connfd (id_client s ! i)) (Registered True) ?u of Inl e \<Rightarrow> Inl e
             | Inr s \<Rightarrow> if ik_close k newfd then Inr (less_ready s) else Inl (Err_sys ''close error'')) = Inr t"
        using st unfolding e by (simp only: False if_False)
      then have "less_ready (?u\<lparr>id_out := id_out s @ [(ic_connfd (id_client s ! i), Registered True)]\<rparr>) = t"
        by (simp add: Write_to_def split: if_splits)
      then show ?thesis using Some l by (intro exI [of _ True]) (auto simp: less_ready_def p_def)
    qed
  qed
  then show ?thesis by (simp only: dgcli_goes_on [OF b]) blast
qed

text \<open>What is shown is what the answers are, round by round, and every line of the input is sent.\<close>

lemma dgcli_loop_shows:
  "dgcli_loop strerror inp rs sent out = Some (Inr (sent', out')) \<Longrightarrow>
    \<exists>k outs. k \<le> length rs \<and> map (dgcli_answers strerror) (take k rs) = map Inr outs \<and> out' = out @ concat outs \<and> length sent' = length sent + k"
proof (induction strerror inp rs sent out rule: dgcli_loop.induct)
  case (2 strerror inp r rs sent out)
  show ?case
  proof (cases "fgets MAXLINE inp")
    case None
    then show ?thesis using "2.prems" by (intro exI [of _ 0] exI [of _ "[]"]) simp
  next
    case (Some p)
    obtain line rest where p: "p = (line, rest)" by (cases p)
    with Some obtain o1 where o: "dgcli_answers strerror r = Inr o1" "dr_send r" using "2.prems" by (auto split: if_splits sum.splits)
    with Some p "2.prems" have "dgcli_loop strerror rest rs (sent @ [c_string line]) (out @ o1) = Some (Inr (sent', out'))" by simp
    from "2.IH" [OF Some p [symmetric] _ o(1) this] o(2) obtain k outs where
      "k \<le> length rs" "map (dgcli_answers strerror) (take k rs) = map Inr outs" "out' = (out @ o1) @ concat outs"
      "length sent' = length (sent @ [c_string line]) + k" by auto
    then show ?thesis using o by (intro exI [of _ "Suc k"] exI [of _ "o1 # outs"]) simp
  qed
qed (auto split: if_splits)

end
