(* ===== verification/Timed_Clients.thy ===== *)
theory Timed_Clients
  imports Echo_Service
begin

text \<open>
  Calls with a time-out: \<open>lib/connect_nonb.c\<close> against \<open>lib/connect_timeo.c\<close>, \<open>lib/readable_timeo.c\<close> and \<open>lib/writable_timeo.c\<close>, and the clients of
  the datagram echo server (\<open>lib/dg_echo.c\<close>) that give up after five seconds, by \<open>select\<close> (\<open>advio/dgclitimeo.c\<close>), by a socket option
  (\<open>advio/dgclitimeo2.c\<close>) and by a signal (\<open>advio/dgclitimeo3.c\<close>), beside \<open>udpcliserv/dgcliaddr.c\<close>, which looks at the sender.

  What the kernel answers follows from what happens within the time: that is a value, and the answers of \<open>connect\<close>, \<open>select\<close>, \<open>getsockopt\<close> and
  \<open>recvfrom\<close> are functions of it.
\<close>

subsection \<open>Connecting with a time-out\<close>

text \<open>The socket: whether it is open, and its status flags. A result is the value returned, with \<open>errno\<close> after -1.\<close>

record csock =
  cs_open :: bool
  cs_flags :: int

definition O_NONBLOCK :: int where "O_NONBLOCK = 2048"

datatype select_result = Select_failed | Select_timeout | Select_ready bool bool

text \<open>What \<open>connect\<close>, \<open>select\<close> and \<open>getsockopt\<close> (\<open>Some None\<close>: no error is pending) answer; \<open>fcntl\<close> and \<open>close\<close> do not fail.\<close>

definition connect_nonb ::
  "(errno + unit) \<Rightarrow> select_result \<Rightarrow> errno option option \<Rightarrow> csock \<Rightarrow> ((int \<times> errno option) \<times> csock) outcome" where
  "connect_nonb conn sel so_error s =
     (let flags = cs_flags s;
          t = s\<lparr>cs_flags := flags OR O_NONBLOCK\<rparr>;
          finish = (\<lambda>error. let t = t\<lparr>cs_flags := flags\<rparr> in
            case error of None \<Rightarrow> Inr ((0, None), t) | Some e \<Rightarrow> Inr ((-1, Some e), t\<lparr>cs_open := False\<rparr>))
      in case conn of
           Inr _ \<Rightarrow> finish None
         | Inl e \<Rightarrow>
             if e \<noteq> EINPROGRESS then Inr ((-1, Some e), t)
             else (case sel of
                     Select_failed \<Rightarrow> Inl (Err_sys ''select error'')
                   | Select_timeout \<Rightarrow> Inr ((-1, Some ETIMEDOUT), t\<lparr>cs_open := False\<rparr>)
                   | Select_ready r w \<Rightarrow>
                       if r \<or> w
                       then (case so_error of None \<Rightarrow> Inr ((-1, None), t) | Some error \<Rightarrow> finish error)
                       else Inl (Err_quit ''select error: sockfd not set'')))"

text \<open>The version with \<open>alarm\<close>; the alarm that was set before is given up, with a message.\<close>

definition connect_timeo ::
  "(errno + unit) \<Rightarrow> bool \<Rightarrow> csock \<Rightarrow> (int \<times> errno option) \<times> csock \<times> string list" where
  "connect_timeo conn alarm_set s =
     (let msgs = (if alarm_set then [''connect_timeo: alarm was already set''] else [])
      in case conn of
           Inl e \<Rightarrow> ((-1, Some (if e = EINTR then ETIMEDOUT else e)), s\<lparr>cs_open := False\<rparr>, msgs)
         | Inr _ \<Rightarrow> ((0, None), s, msgs))"

definition Connect_timeo :: "(errno + unit) \<Rightarrow> bool \<Rightarrow> csock \<Rightarrow> csock outcome" where
  "Connect_timeo conn alarm_set s =
     (case connect_timeo conn alarm_set s of (r, t, _) \<Rightarrow> if fst r < 0 then Inl (Err_sys ''connect_timeo error'') else Inr t)"

text \<open>What becomes of the connection within the time, and what the calls answer then.\<close>

datatype attempt = Up_at_once | Up | Refused_at_once errno | Refused errno | Silent

fun nonb_connect :: "attempt \<Rightarrow> errno + unit" where
  "nonb_connect Up_at_once = Inr ()"
| "nonb_connect (Refused_at_once e) = Inl e"
| "nonb_connect _ = Inl EINPROGRESS"

fun nonb_select :: "attempt \<Rightarrow> select_result" where
  "nonb_select Up = Select_ready False True"
| "nonb_select (Refused e) = Select_ready True True"
| "nonb_select _ = Select_timeout"

fun nonb_error :: "attempt \<Rightarrow> errno option option" where
  "nonb_error (Refused e) = Some (Some e)"
| "nonb_error _ = Some None"

fun timed_connect :: "attempt \<Rightarrow> errno + unit" where
  "timed_connect (Refused_at_once e) = Inl e"
| "timed_connect (Refused e) = Inl e"
| "timed_connect Silent = Inl EINTR"
| "timed_connect _ = Inr ()"

subsection \<open>Waiting for a datagram\<close>

text \<open>Within five seconds a datagram comes, nothing comes, the socket has an error, or another signal is caught while the process sleeps.\<close>

datatype in_time = Datagram "byte list" | Nothing | Sock_error errno | Signalled

fun select_answer :: "in_time \<Rightarrow> int" where
  "select_answer (Datagram d) = 1"
| "select_answer Nothing = 0"
| "select_answer (Sock_error e) = 1"
| "select_answer Signalled = -1"

text \<open>\<open>readable_timeo\<close> and \<open>writable_timeo\<close> return what \<open>select\<close> returns.\<close>

definition Readable_timeo :: "int \<Rightarrow> int outcome" where
  "Readable_timeo n = (if n < 0 then Inl (Err_sys ''readable_timeo error'') else Inr n)"

definition Writable_timeo :: "int \<Rightarrow> int outcome" where
  "Writable_timeo n = (if n < 0 then Inl (Err_sys ''writable_timeo error'') else Inr n)"

text \<open>\<open>recvfrom\<close>, where \<open>timeo\<close> is the error at the end of the time.\<close>

fun recv_answer :: "errno \<Rightarrow> in_time \<Rightarrow> errno + byte list" where
  "recv_answer timeo (Datagram d) = Inr (take MAXLINE d)"
| "recv_answer timeo Nothing = Inl timeo"
| "recv_answer timeo (Sock_error e) = Inl e"
| "recv_answer timeo Signalled = Inl EINTR"

datatype dgshown = Reply_text "byte list" | Socket_timeout | Ignored_from "byte list"

definition show_reply :: "byte list \<Rightarrow> dgshown list" where "show_reply d = [Reply_text (c_string d)]"

text \<open>The three ways to wait, from \<open>Sendto\<close> to the end of the loop's body.\<close>

definition wait_select :: "in_time \<Rightarrow> dgshown list outcome" where
  "wait_select w =
     (case Readable_timeo (select_answer w) of
        Inl e \<Rightarrow> Inl e
      | Inr n \<Rightarrow>
          if n = 0 then Inr [Socket_timeout]
          else (case recv_answer EWOULDBLOCK w of Inl e \<Rightarrow> Inl (Err_sys ''recvfrom error'') | Inr d \<Rightarrow> Inr (show_reply d)))"

definition wait_rcvtimeo :: "in_time \<Rightarrow> dgshown list outcome" where
  "wait_rcvtimeo w =
     (case recv_answer EWOULDBLOCK w of
        Inl e \<Rightarrow> if e = EWOULDBLOCK then Inr [Socket_timeout] else Inl (Err_sys ''recvfrom error'')
      | Inr d \<Rightarrow> Inr (show_reply d))"

definition wait_alarm :: "in_time \<Rightarrow> dgshown list outcome" where
  "wait_alarm w =
     (case recv_answer EINTR w of
        Inl e \<Rightarrow> if e = EINTR then Inr [Socket_timeout] else Inl (Err_sys ''recvfrom error'')
      | Inr d \<Rightarrow> Inr (show_reply d))"

text \<open>
  The loop over the lines of the input, for one of these waits; each round has whether \<open>Sendto\<close> succeeds and what comes. \<open>None\<close>: the
  rounds ran out.
\<close>

fun dg_cli_timeo ::
  "('a \<Rightarrow> dgshown list outcome) \<Rightarrow> byte list \<Rightarrow> (bool \<times> 'a) list \<Rightarrow> byte list list \<Rightarrow> dgshown list \<Rightarrow>
    (byte list list \<times> dgshown list) outcome option" where
  "dg_cli_timeo wait inp [] sent out = (if fgets MAXLINE inp = None then Some (Inr (sent, out)) else None)"
| "dg_cli_timeo wait inp ((ok, w) # ws) sent out =
     (case fgets MAXLINE inp of
        None \<Rightarrow> Some (Inr (sent, out))
      | Some (sendline, rest) \<Rightarrow>
          if \<not> ok then Some (Inl (Err_sys ''sendto error''))
          else (case wait w of
                  Inl e \<Rightarrow> Some (Inl e)
                | Inr shows_now \<Rightarrow> dg_cli_timeo wait rest ws (sent @ [c_string sendline]) (out @ shows_now)))"

text \<open>
  \<open>lib/dg_cli.c\<close> waits as long as it takes: a datagram or an error. \<open>udpcliserv/dgcliaddr.c\<close> compares the address behind the
  datagram with that of the server, length and bytes.
\<close>

definition wait_plain :: "errno + byte list \<Rightarrow> dgshown list outcome" where
  "wait_plain a = (case a of Inl e \<Rightarrow> Inl (Err_sys ''recvfrom error'') | Inr d \<Rightarrow> Inr (show_reply (take MAXLINE d)))"

definition wait_addr :: "byte list \<Rightarrow> errno + byte list \<times> byte list \<Rightarrow> dgshown list outcome" where
  "wait_addr servaddr a =
     (case a of
        Inl e \<Rightarrow> Inl (Err_sys ''recvfrom error'')
      | Inr (reply_addr, d) \<Rightarrow>
          if length reply_addr \<noteq> length servaddr \<or> reply_addr \<noteq> servaddr then Inr [Ignored_from reply_addr]
          else Inr (show_reply (take MAXLINE d)))"

text \<open>One datagram at the server.\<close>

definition dg_echo :: "byte list \<Rightarrow> byte list" where "dg_echo d = take MAXLINE d"

text \<open>
  The network between a client and the server, for each line: the reply comes in time, it or the request is lost, or the reply comes
  after the time-out and before the next line is sent. Replies wait in the queue of the socket.
\<close>

datatype net = Deliver | Lose | Delay

fun echo_net :: "byte list list \<Rightarrow> byte list \<Rightarrow> net list \<Rightarrow> (bool \<times> in_time) list" where
  "echo_net q inp [] = []"
| "echo_net q inp (n # ns) =
     (case fgets MAXLINE inp of
        None \<Rightarrow> []
      | Some (line, rest) \<Rightarrow>
          (let r = dg_echo (c_string line); av = q @ (if n = Deliver then [r] else [])
           in (True, case av of [] \<Rightarrow> Nothing | d # _ \<Rightarrow> Datagram d) # echo_net (tl av @ (if n = Delay then [r] else [])) rest ns))"

subsection \<open>The two ways to connect agree\<close>

text \<open>
  Same result and same \<open>errno\<close>, and after success the socket is open with its flags as before. After a failure the version with \<open>alarm\<close> has closed the
  socket; the other one has closed it but when the connection is refused at once, and then it leaves it nonblocking.
\<close>

theorem connect_variants_agree:
  assumes "\<And>e. a \<in> {Refused_at_once e, Refused e} \<Longrightarrow> e \<noteq> EINPROGRESS \<and> e \<noteq> EINTR" and "cs_open s"
  shows "\<exists>r t t' msgs. connect_nonb (nonb_connect a) (nonb_select a) (nonb_error a) s = Inr (r, t) \<and>
    connect_timeo (timed_connect a) al s = (r, t', msgs) \<and>
    (if a \<in> {Up_at_once, Up} then r = (0, None) \<and> t = s \<and> t' = s
     else fst r = -1 \<and> \<not> cs_open t' \<and> (cs_open t \<longleftrightarrow> (\<exists>e. a = Refused_at_once e))) \<and>
    (a = Silent \<longrightarrow> snd r = Some ETIMEDOUT)"
  using assms by (cases a) (auto simp: connect_nonb_def connect_timeo_def Let_def)

lemma connect_nonb_left_open:
  "e \<noteq> EINPROGRESS \<Longrightarrow> connect_nonb (Inl e) sel err s = Inr ((-1, Some e), s\<lparr>cs_flags := cs_flags s OR O_NONBLOCK\<rparr>)"
  by (simp add: connect_nonb_def Let_def)

subsection \<open>The three ways to wait agree\<close>

locale timed_wait =
  fixes wait :: "in_time \<Rightarrow> dgshown list outcome"
  assumes wait_datagram: "wait (Datagram d) = Inr [Reply_text (c_string (take MAXLINE d))]"
    and wait_nothing: "wait Nothing = Inr [Socket_timeout]"
    and wait_error: "e \<notin> {EINTR, EWOULDBLOCK} \<Longrightarrow> wait (Sock_error e) = Inl (Err_sys ''recvfrom error'')"
begin

lemma wait_available:
  "wait (case av of [] \<Rightarrow> Nothing | d # _ \<Rightarrow> Datagram d) =
    Inr [case av of [] \<Rightarrow> Socket_timeout | d # _ \<Rightarrow> Reply_text (c_string (take MAXLINE d))]"
  by (simp add: wait_datagram wait_nothing split: list.split)

end

interpretation by_select: timed_wait wait_select
  by unfold_locales (simp_all add: wait_select_def Readable_timeo_def show_reply_def)

interpretation by_option: timed_wait wait_rcvtimeo
  by unfold_locales (simp_all add: wait_rcvtimeo_def show_reply_def)

interpretation by_alarm: timed_wait wait_alarm
  by unfold_locales (simp_all add: wait_alarm_def show_reply_def)

text \<open>They differ when another signal is caught: two end the program, that with \<open>alarm\<close> takes it for its time-out.\<close>

lemma signalled:
  "wait_select Signalled = Inl (Err_sys ''readable_timeo error'')" "wait_rcvtimeo Signalled = Inl (Err_sys ''recvfrom error'')"
  "wait_alarm Signalled = Inr [Socket_timeout]"
  by (simp_all add: wait_select_def wait_rcvtimeo_def wait_alarm_def Readable_timeo_def)

lemma echoed:
  assumes "fgets MAXLINE inp = Some (line, rest)"
  shows "c_string (take MAXLINE (dg_echo (c_string line))) = c_string line"
proof -
  have "length line \<le> MAXLINE - 1" using fgets_line(3) [OF assms] length_upto_nl [of "MAXLINE - 1" line] by simp
  then have "length (c_string line) \<le> MAXLINE" unfolding c_string_def using length_takeWhile_le [of _ line] by (meson diff_le_self order_trans)
  then show ?thesis by (simp add: dg_echo_def) (simp add: c_string_def)
qed

context timed_wait
begin

lemma no_delay:
  "dg_cli_timeo wait inp (echo_net [] inp ns) sent out = Some (Inr (sent', out')) \<Longrightarrow> Delay \<notin> set ns \<Longrightarrow>
    \<exists>ls. sent' = sent @ ls \<and> length ls \<le> length ns \<and>
      out' = out @ map2 (\<lambda>l n. if n = Deliver then Reply_text l else Socket_timeout) ls ns"
proof (induction ns arbitrary: inp sent out)
  case Nil
  then show ?case by (auto split: if_splits)
next
  case (Cons n ns)
  show ?case
  proof (cases "fgets MAXLINE inp")
    case None
    then show ?thesis using Cons.prems by auto
  next
    case (Some p)
    obtain line rest where p: "p = (line, rest)" by (cases p)
    let ?o = "if n = Deliver then Reply_text (c_string line) else Socket_timeout"
    have "dg_cli_timeo wait rest (echo_net [] rest ns) (sent @ [c_string line]) (out @ [?o]) = Some (Inr (sent', out'))"
      using Cons.prems Some p echoed [of inp line rest] by (auto simp: wait_datagram wait_nothing Let_def split: if_splits)
    from Cons.IH [OF this] Cons.prems(2) obtain ls where "sent' = (sent @ [c_string line]) @ ls" "length ls \<le> length ns"
      "out' = (out @ [?o]) @ map2 (\<lambda>l n. if n = Deliver then Reply_text l else Socket_timeout) ls ns" by auto
    then show ?thesis by (intro exI [of _ "c_string line # ls"]) simp
  qed
qed

text \<open>With a reply in the queue every later one is taken for the answer to the next line.\<close>

lemma lags:
  "dg_cli_timeo wait inp (echo_net [r] inp (replicate k Deliver)) sent out = Some (Inr (sent', out')) \<Longrightarrow>
    \<exists>ls. sent' = sent @ ls \<and> out' = out @ map Reply_text (take (length ls) (c_string (take MAXLINE r) # ls))"
proof (induction k arbitrary: inp sent out r)
  case 0
  then show ?case by (auto split: if_splits)
next
  case (Suc k)
  show ?case
  proof (cases "fgets MAXLINE inp")
    case None
    then show ?thesis using Suc.prems by auto
  next
    case (Some p)
    obtain line rest where p: "p = (line, rest)" by (cases p)
    let ?o = "Reply_text (c_string (take MAXLINE r))"
    have "dg_cli_timeo wait rest (echo_net [dg_echo (c_string line)] rest (replicate k Deliver)) (sent @ [c_string line]) (out @ [?o]) =
        Some (Inr (sent', out'))"
      using Suc.prems Some p by (auto simp: wait_datagram Let_def)
    from Suc.IH [OF this] echoed [of inp line rest] Some p obtain ls where "sent' = (sent @ [c_string line]) @ ls"
      "out' = (out @ [?o]) @ map Reply_text (take (length ls) (c_string line # ls))" by auto
    then show ?thesis by (intro exI [of _ "c_string line # ls"]) simp
  qed
qed

end

text \<open>
  The datagram echo service with a time-out, whichever way to wait. Without late replies, every line is answered by its echo, or by the message of
  the time-out when its datagrams are lost. After one late reply every line is answered by the echo of the line before it, for ever.
\<close>

theorem timed_echo:
  assumes w: "wait \<in> {wait_select, wait_rcvtimeo, wait_alarm}"
  shows "dg_cli_timeo wait inp (echo_net [] inp ns) [] [] = Some (Inr (sent, out)) \<Longrightarrow> Delay \<notin> set ns \<Longrightarrow>
      out = map2 (\<lambda>l n. if n = Deliver then Reply_text l else Socket_timeout) sent ns"
    and "dg_cli_timeo wait inp (echo_net [] inp (Delay # replicate k Deliver)) [] [] = Some (Inr (sent, out)) \<Longrightarrow>
      out = take (length sent) (Socket_timeout # map Reply_text sent)"
proof -
  show "out = map2 (\<lambda>l n. if n = Deliver then Reply_text l else Socket_timeout) sent ns"
    if "dg_cli_timeo wait inp (echo_net [] inp ns) [] [] = Some (Inr (sent, out))" "Delay \<notin> set ns"
    using w that by_select.no_delay [of inp ns "[]" "[]"] by_option.no_delay [of inp ns "[]" "[]"] by_alarm.no_delay [of inp ns "[]" "[]"] by auto
  show "out = take (length sent) (Socket_timeout # map Reply_text sent)"
    if d: "dg_cli_timeo wait inp (echo_net [] inp (Delay # replicate k Deliver)) [] [] = Some (Inr (sent, out))"
  proof (cases "fgets MAXLINE inp")
    case None
    then show ?thesis using d by auto
  next
    case (Some p)
    obtain line rest where p: "p = (line, rest)" by (cases p)
    have "dg_cli_timeo wait rest (echo_net [dg_echo (c_string line)] rest (replicate k Deliver)) [c_string line] [Socket_timeout] =
        Some (Inr (sent, out))"
      using d Some p w by (auto simp: by_select.wait_nothing by_option.wait_nothing by_alarm.wait_nothing Let_def)
    then have "\<exists>ls. sent = [c_string line] @ ls \<and> out = [Socket_timeout] @
        map Reply_text (take (length ls) (c_string (take MAXLINE (dg_echo (c_string line))) # ls))"
      using w by (elim insertE emptyE; hypsubst) (erule by_select.lags by_option.lags by_alarm.lags)+
    then show ?thesis using echoed [of inp line rest] Some p by (auto simp: take_map [symmetric])
  qed
qed

end
