(* ===== verification/Spec2Isabelle.thy ===== *)
theory Spec2Isabelle
  imports Echo_Service Ping Rtt Static_Web Select_Server Chat_Server Nonblock_Client File_Transfer Prefork_Server Queens Tun_Setup Web_Client Binflag Traceroute Source_Route Thread_Pool Throughput Otp_Client Bcast_Timer Fd_Passing Timed_Clients
begin

text \<open>
  Network programming: the course repository with its own programs (\<open>hw1\<close>, \<open>hw2\<close>, \<open>np-lab2\<close>, \<open>np-lab4\<close> to
  \<open>np-lab8\<close>) and the library and example programs of Stevens' book (\<open>unpv13e\<close>) that the exercises build on. Everything is modelled at the level of
  the C and C++ source: one definition per function, with its guards, early returns and fatal exits, over an
  explicit state, machine integers at their width, buffers with their lengths.

  \<^bold>\<open>The parts and how they interact.\<close> The library \<open>lib\<close> reads and writes streams and builds sockets from
  names; it calls the resolver \<open>libgai\<close> and the address conversions of \<open>libfree\<close>, and the programs call it.
  Programs talk to the kernel; the kernel, the file system, the TLS library, the allocator, the name and service
  databases and the clock are arguments of the definitions (records of functions, or scripts of answers consumed
  one by one), with the documented behaviour that a theorem needs as its hypothesis.

  \<^item> \<open>NP_Prelude\<close>: fatal exits of \<open>lib/error.c\<close> as values (\<open>fatal\<close>, \<open>outcome\<close>), decimal and hexadecimal numbers,
    words and bytes, \<open>MAXLINE\<close>, the simp collections.
  \<^item> \<open>Byte_IO\<close>: \<open>readn\<close>, \<open>writen\<close> and the three \<open>readline\<close>s (\<open>lib/readn.c\<close>, \<open>lib/writen.c\<close>, \<open>lib/readline.c\<close>,
    \<open>server/readline_r.c\<close>, \<open>threads/readline.c\<close>) over a script of what \<open>read\<close> and \<open>write\<close> answer: every
    segmentation, every interruption, end of file and errors. The routines return what the stream contains,
    whatever the script; the buffered ones agree with the unbuffered line of the stream; the thread-safe one
    keeps threads apart.
  \<^item> \<open>Inet_Addr\<close>: \<open>inet_pton\<close>, \<open>inet_ntop\<close>, \<open>inet_aton\<close> of \<open>libfree\<close>, with buffer sizes and 64-bit wrap-around:
    equivalence with a grammar of dotted quads, round trips for IPv4 and IPv6, the overruns.
  \<^item> \<open>Sock_Addr\<close>: \<open>lib/sock_*.c\<close>, printing, comparing and changing socket addresses of the three families.
  \<^item> \<open>Getaddrinfo\<close>: the resolver \<open>libgai/*.c\<close>, its allocator as a script, so that every \<open>calloc\<close> may fail:
    numeric round trips, the product of addresses and socket types, memory safety, fatal exits.
  \<^item> \<open>Conn_Setup\<close>: \<open>tcp_connect\<close>, \<open>tcp_listen\<close>, \<open>udp_client\<close>, \<open>udp_connect\<close>, \<open>udp_server\<close>, \<open>host_serv\<close>; the
    common loop is proved once in a locale and interpreted for each of them.
  \<^item> \<open>Checksum\<close>: \<open>in_cksum\<close> of \<open>libfree\<close> and the datagrams of \<open>udpcksum\<close>; the optimised sum is the one's
    complement reference sum.
  \<^item> \<open>Timeval\<close>, \<open>Ping\<close>: \<open>tv_sub\<close>, and the echo requests and replies of \<open>ping\<close> for both protocols.
  \<^item> \<open>Rtt\<close>: \<open>lib/rtt.c\<close> and \<open>rtt/dg_send_recv.c\<close>: Jacobson's estimators with the rounding of every
    floating-point store as a parameter, and reliable requests over UDP.
  \<^item> \<open>Static_Web\<close>: the HTTP and HTTPS servers of \<open>hw1\<close>; one definition over the output call, a locale for what
    the call promises, and the refinement of the one server by the other.
  \<^item> \<open>Ready_Loop\<close>: the scan of a descriptor table that the \<open>select\<close> and \<open>poll\<close> programs share, with the locale
    \<open>ready_loop\<close> that says each ready entry is served once.
  \<^item> \<open>Select_Server\<close>: \<open>tcpcliserv/tcpservselect01.c\<close> and \<open>tcpservpoll01.c\<close>: tables, sets and bounds agree in
    every reachable state (rule induction), every round serves exactly the ready clients.
  \<^item> \<open>Std_Map\<close>, \<open>Chat_Server\<close>: \<open>hw2_chat_server.cpp\<close>, all commands over one state with \<open>std::map\<close>, \<open>std::set\<close> and
    \<open>std::vector\<close> as ordered association lists (locale \<open>std_map\<close>): session invariant, message filter,
    delivery and history, what commands leave behind.
  \<^item> \<open>Nonblock_Client\<close>: \<open>nonblock/strclinonb.c\<close>: conservation of the bytes through the two buffers.
  \<^item> \<open>Web_Client\<close>: \<open>nonblock/web.c\<close> with its three helpers, over \<open>Conn_Setup\<close> and \<open>Byte_IO\<close>: counters, flags and
    descriptor sets agree in every round, each file is asked for once, and the loop ends.
  \<^item> \<open>Icmp_Daemon\<close>: \<open>icmpd/*.c\<close> with \<open>lib/read_fd.c\<close>: the daemon that tells clients of the ICMP errors of their UDP
    sockets. Table, set and bounds agree in every reachable state, and every error goes to the registered clients.
  \<^item> \<open>Traceroute\<close>: \<open>traceroute/*.c\<close>: a locale for what the two receive functions promise, interpreted for both; the
    program prints the path, whatever other messages arrive, and what \<open>recv_v6\<close> does wrong.
  \<^item> \<open>Bcast_Timer\<close>: the five versions of \<open>bcast/dgclibcast*.c\<close> and \<open>lib/pselect.c\<close>: a state machine in which the signal of the
    timer comes between any two calls; a locale for waits that end for certain, and the versions that can sleep for ever.
  \<^item> \<open>Timed_Clients\<close>: \<open>lib/connect_nonb.c\<close> and \<open>connect_timeo.c\<close> agree; \<open>lib/dg_echo.c\<close> and its clients with a time-out, one locale for
    the three ways to wait, and the network between them.
  \<^item> \<open>Fd_Passing\<close>: \<open>lib/write_fd.c\<close> with \<open>unixdomain/mycat.c\<close>, \<open>myopen.c\<close>, \<open>openfile.c\<close> (a file opened through a child process is opened as by
    \<open>open\<close>), and the client of the ICMP daemon, whose registration agrees with the daemon's table.
  \<^item> \<open>Source_Route\<close>: \<open>ipopts/sourceroute.c\<close> with its client: the option buffer is well formed after every operation.
  \<^item> \<open>Echo_Service\<close>: \<open>str_echo\<close> and \<open>str_cli\<close> of \<open>lib\<close> over \<open>Byte_IO\<close>, and both at the ends of one connection as a
    step relation: what is shown is what was typed, and every session comes to its end.
  \<^item> \<open>Prefork_Server\<close>: \<open>server/serv05.c\<close>, \<open>child05.c\<close> and \<open>web_child.c\<close>: parent and children as interleaved steps;
    every accepted connection is in the hand of exactly one child.
  \<^item> \<open>Thread_Pool\<close>: \<open>server/serv08.c\<close> and \<open>pthread08.c\<close>: every statement a step, threads interleaving freely; mutual
    exclusion, the ring is a queue, no wake-up is lost.
  \<^item> \<open>Text_Numbers\<close>: \<open>strtol\<close> as the programs use it, and that it reads back printed numbers.
  \<^item> \<open>File_Transfer\<close>: client and server of \<open>np-lab6\<close> with the network that loses, repeats and reorders between
    them: only whole files are written, acknowledged fragments are stored, a round of the client ends.
  \<^item> \<open>Queens\<close>: the search of \<open>np-lab7/solve.cpp\<close>, sound and complete, and the session around it.
  \<^item> \<open>Tun_Vpn\<close>: the tunnel of \<open>np-lab8\<close>: the server refines a routing table for two clients of one network.
  \<^item> \<open>Tun_Setup\<close>: its device, as the requests that \<open>ioctl\<close> gets and what they do.
  \<^item> \<open>Binflag\<close>: the solver of \<open>np-lab2\<close>, against the format of its files.
  \<^item> \<open>Throughput\<close>, \<open>Otp_Client\<close>: the test of \<open>np-lab5\<close>, with when its client ends, and the HTTP client of \<open>np-lab4\<close>.

  \<^bold>\<open>Bounds and fuel.\<close> A loop over a script ends with the script: the result is \<open>None\<close> when the script does not
  determine it (the call is still blocked), and the theorems say how much of the script is consumed, so that a
  complete script gives a result. All other loops are total functions with a measure.

  \<^bold>\<open>Not modelled.\<close> Programs whose body is a sequence of system calls with printed results (\<open>intro\<close>, \<open>names\<close>,
  most of \<open>advio\<close>, \<open>oob\<close>, \<open>sigio\<close>, \<open>sockopt\<close>, \<open>sctp\<close>, \<open>route\<close>, \<open>ioctl\<close>, \<open>mcast\<close>, \<open>streams\<close>, \<open>key\<close>, \<open>sock\<close>): what
  they show is behaviour of the kernel. Wrapper functions that call and check (\<open>lib/wrap*.c\<close>, \<open>lib/error.c\<close>): their
  effect is in the results of the callers. Main programs and variants around modelled loops (\<open>tcpcliserv\<close>, \<open>select\<close>,
  \<open>threads\<close>, \<open>server\<close>, \<open>udpcliserv\<close>, most of \<open>unixdomain\<close>), whose differences are in scheduling and locks; the data races of
  the threaded ones are outside the sequential meaning of the source. Code that is not compiled in this build
  (\<open>AF_LINK\<close>, missing-function replacements), third-party code (\<open>ping/bsdping.c\<close>), Python scripts and drafts. The kernel's protocol stacks are parameters.
\<close>

subsection \<open>Connecting to a printed address\<close>

text \<open>
  \<open>tcp_connect\<close> of \<open>lib\<close> over the \<open>getaddrinfo\<close> of \<open>libgai\<close>, from the allocator state \<open>h\<close>. (An exit of
  \<open>getaddrinfo\<close> through \<open>err_quit\<close> is reported as \<open>EAI_FAIL\<close>; numeric hosts never cause one.)
\<close>

definition libgai :: "resolver \<Rightarrow> galloc \<Rightarrow> gai" where
  "libgai r h host serv hints =
     (case getaddrinfo r host serv (Some hints) h of Inl _ \<Rightarrow> Inl EAI_FAIL | Inr (res, _) \<Rightarrow> res)"

text \<open>
  C40. Printing and connecting fit together: for every IPv4 or IPv6 address, \<open>tcp_connect\<close> on the text that
  \<open>sock_ntop_host\<close> prints for it and on a decimal port asks for one stream socket of the family and tries
  exactly that address with that port; it returns the socket when the connection is made, having added just
  this descriptor, and ends the process with its message otherwise.
\<close>

theorem connect_printed_address:
  assumes "sockaddr_ok sa" and "sa_family sa \<in> {AF_INET, AF_INET6}" and "ga_script h = []" and "\<forall>fd. k_close k fd"
  shows "\<exists>p s proto. sock_ntop_host sa salen str = (Some p, s) \<and>
    (let fd = k_socket k 0 (sa_family sa) SOCK_STREAM proto; port_text = print_dec (unat port) in
     tcp_connect k (libgai r h) (Some (drop p s)) (Some port_text) fds =
       (if 0 \<le> fd \<and> k_connect k 0 fd (Some (sock_set_port sa (uint (htons port))))
        then Inr (fd, fd # fds)
        else Inl (Err_sys (error_for ''tcp_connect'' (Some (drop p s)) (Some port_text)))))"
proof -
  let ?hints = "blank_hints 0 AF_UNSPEC SOCK_STREAM"
  have hints: "ai_flags ?hints = 0" "ai_family ?hints \<in> {AF_UNSPEC, sa_family sa}"
      "ai_socktype ?hints \<in> {0, SOCK_STREAM, SOCK_DGRAM, SOCK_RAW}" "ai_socktype ?hints = SOCK_STREAM"
    by (simp_all add: blank_hints_def)
  from getaddrinfo_reads_numeric [OF assms(1-3) hints(1-3), of salen str r port] hints(4)
  obtain p s ai h' where s: "sock_ntop_host sa salen str = (Some p, s)"
      "getaddrinfo r (Some (drop p s)) (Some (print_dec (unat port))) (Some ?hints) h = Inr (Inr [ai], h')"
      "ai_family ai = sa_family sa" "ai_socktype ai = SOCK_STREAM" "ai_addr ai = Some (sock_set_port sa (uint (htons port)))"
    by (auto simp: SOCK_defs)
  have g: "libgai r h (Some (drop p s)) (Some (print_dec (unat port))) ?hints = Inr [ai]" by (simp add: libgai_def s(2))
  have "first_usable k (\<lambda>i fd ai. k_connect k i fd (ai_addr ai)) 0 [ai] =
      (if 0 \<le> the_socket k (0, ai) \<and> k_connect k 0 (the_socket k (0, ai)) (ai_addr ai) then Some (0, ai) else None)"
    by (simp add: first_usable_def)
  with con.open_first_usable [OF TrueI assms(4), of "libgai r h" "Some (drop p s)" "Some (print_dec (unat port))" ?hints "[ai]", OF g]
  show ?thesis using s(1,3-5)
    by (intro exI [of _ p] exI [of _ s] exI [of _ "ai_protocol ai"]) (auto simp: tcp_connect_def the_socket_def Let_def)
qed

theorem connect_printed_address_witness:
  "\<exists>p s. sock_ntop_host (SIn \<lparr>sin_port = 0, sin_addr = [127, 0, 0, 1]\<rparr>) 16 [] = (Some p, s) \<and>
     tcp_connect (demo_kernel\<lparr>k_connect := \<lambda>i fd sa. sa = Some (sock_set_port (SIn \<lparr>sin_port = 0, sin_addr = [127, 0, 0, 1]\<rparr>)
       (uint (htons 9877 :: 16 word)))\<rparr>) (libgai no_resolver \<lparr>ga_script = [], ga_live = 0, ga_unlinked = []\<rparr>)
       (Some (drop p s)) (Some (print_dec (unat (9877 :: 16 word)))) [0] = Inr (3, [3, 0])"
  using connect_printed_address [of "SIn \<lparr>sin_port = 0, sin_addr = [127, 0, 0, 1]\<rparr>"
      "\<lparr>ga_script = [], ga_live = 0, ga_unlinked = []\<rparr>"
      "demo_kernel\<lparr>k_connect := \<lambda>i fd sa. sa = Some (sock_set_port (SIn \<lparr>sin_port = 0, sin_addr = [127, 0, 0, 1]\<rparr>)
        (uint (htons 9877 :: 16 word)))\<rparr>" 16 "[]" 9877 no_resolver "[0]"]
  by (simp add: demo_kernel_def Let_def)

end
